(* ===== verification/Prelude.thy ===== *)
theory Prelude
  imports Main "HOL-Library.Word"
begin

text \<open>
  Shared vocabulary of the development: machine integers as fixed-width words, the
  outcome of a kernel routine (it returns, the kernel panics, or the calling thread
  waits for ever), little-endian loads and stores on byte arrays, and the list lemmas
  that the ring buffers and the on-disk structures use.
\<close>

unbundle bit_operations_syntax

section \<open>Machine types\<close>

type_synonym u8 = "8 word"
type_synonym u32 = "32 word"
type_synonym u64 = "64 word"
type_synonym bytes = "8 word list"

named_theorems outcome_simps \<open>case analysis on the outcome of a routine\<close>

section \<open>Outcomes of kernel routines\<close>

text \<open>
  \<open>Ok r\<close>: the routine returns \<open>r\<close>.  \<open>Panic\<close>: an \<open>ASSERT\<close>, \<open>PANIC\<close> or
  \<open>NOT_REACHED\<close> of the source stops the kernel.  \<open>Hang\<close>: the caller sleeps or
  spins until another thread acts, so with no other thread it never returns.
  \<open>Exit\<close>: the calling thread ends (\<open>thread_exit\<close>).
\<close>

datatype 'a outcome = Ok 'a | Panic | Hang | Exit

primrec bind :: "'a outcome \<Rightarrow> ('a \<Rightarrow> 'b outcome) \<Rightarrow> 'b outcome" where
  "bind (Ok a) f = f a"
| "bind Panic f = Panic"
| "bind Hang f = Hang"
| "bind Exit f = Exit"

definition assert :: "bool \<Rightarrow> 'a outcome \<Rightarrow> 'a outcome" where
  "assert P m = (if P then m else Panic)"

lemma assert_True [simp]: "assert True m = m"
  by (simp add: assert_def)

lemma assert_False [simp]: "assert False m = Panic"
  by (simp add: assert_def)

lemma assert_eq_Ok [outcome_simps]: "assert P m = Ok r \<longleftrightarrow> P \<and> m = Ok r"
  by (simp add: assert_def)

lemma bind_eq_Ok [outcome_simps]: "bind m f = Ok r \<longleftrightarrow> (\<exists>a. m = Ok a \<and> f a = Ok r)"
  by (cases m) auto

lemma bind_cong [fundef_cong]:
  "m = m' \<Longrightarrow> (\<And>a. m' = Ok a \<Longrightarrow> f a = g a) \<Longrightarrow> bind m f = bind m' g"
  by (cases m') auto

lemma bind_Ok_right [simp]: "bind m Ok = m"
  by (cases m) auto

lemma bind_assoc: "bind (bind m f) g = bind m (\<lambda>a. bind (f a) g)"
  by (cases m) auto

section \<open>Ring buffers as lists\<close>

text \<open>
  The \<open>len\<close> cells of the array \<open>buf\<close> that follow position \<open>start\<close>, wrapping around
  at the end of the array.
\<close>

definition ring :: "'a list \<Rightarrow> nat \<Rightarrow> nat \<Rightarrow> 'a list" where
  "ring buf start len = map (\<lambda>i. buf ! ((start + i) mod length buf)) [0..<len]"

lemma length_ring [simp]: "length (ring buf start len) = len"
  by (simp add: ring_def)

lemma ring_0 [simp]: "ring buf start 0 = []"
  by (simp add: ring_def)

lemma mod_add_neq:
  fixes s i j n :: nat
  assumes "i < j" and "j < n"
  shows "(s + i) mod n \<noteq> (s + j) mod n"
proof
  assume "(s + i) mod n = (s + j) mod n"
  then have "n dvd (s + j) - (s + i)"
    using assms(1) by (intro mod_eq_dvd_iff_nat [THEN iffD1]) auto
  then have "n dvd j - i" by simp
  with assms show False by (auto dest: dvd_imp_le)
qed

lemma ring_snoc:
  assumes "len < length buf"
  shows "ring (buf[(start + len) mod length buf := x]) start (Suc len) = ring buf start len @ [x]"
proof (rule nth_equalityI)
  let ?p = "(start + len) mod length buf"
  fix i assume i: "i < length (ring (buf[?p := x]) start (Suc len))"
  have p: "?p < length buf" using assms by (intro mod_less_divisor) auto
  show "ring (buf[?p := x]) start (Suc len) ! i = (ring buf start len @ [x]) ! i"
  proof (cases "i < len")
    case True
    then have "(start + i) mod length buf \<noteq> ?p" by (rule mod_add_neq [OF _ assms])
    with True show ?thesis by (simp add: ring_def nth_append del: upt_Suc)
  next
    case False
    with i have "i = len" by simp
    with p show ?thesis by (simp add: ring_def nth_append del: upt_Suc)
  qed
qed simp

lemma ring_Cons:
  assumes "0 < len"
  shows "ring buf start len = buf ! (start mod length buf) # ring buf (Suc start) (len - 1)"
proof -
  obtain k where "len = Suc k" using assms by (cases len) auto
  then show ?thesis
    by (simp add: ring_def map_upt_Suc del: upt_Suc)
qed

lemma ring_start_mod [simp]: "ring buf (start mod length buf) len = ring buf start len"
  by (simp add: ring_def mod_add_left_eq)

text \<open>The distance from \<open>h\<close> to \<open>t\<close> going forward around a ring of \<open>n\<close> cells.\<close>

definition ring_dist :: "nat \<Rightarrow> nat \<Rightarrow> nat \<Rightarrow> nat" where
  "ring_dist n h t = (t + n - h) mod n"

lemma ring_dist_less: "0 < n \<Longrightarrow> ring_dist n h t < n"
  by (simp add: ring_dist_def)

lemma ring_dist_self [simp]: "h < n \<Longrightarrow> ring_dist n h h = 0"
  by (simp add: ring_dist_def)

lemma ring_dist_cases:
  assumes "h < n" "t < n"
  shows "ring_dist n h t = (if h \<le> t then t - h else t + n - h)"
proof (cases "h \<le> t")
  case True
  then have "t + n - h = (t - h) + n" using assms by linarith
  then have "(t + n - h) mod n = (t - h) mod n" by simp
  with True assms show ?thesis by (simp add: ring_dist_def)
next
  case False
  with assms show ?thesis by (simp add: ring_dist_def)
qed

lemma ring_dist_0_iff: "h < n \<Longrightarrow> t < n \<Longrightarrow> ring_dist n h t = 0 \<longleftrightarrow> h = t"
  by (auto simp: ring_dist_cases)

lemma mod_Suc_cases: "t < n \<Longrightarrow> Suc t mod n = (if Suc t = n then 0 else Suc t)"
  for t n :: nat
  by (cases "Suc t = n") auto

lemma ring_dist_full:
  assumes "h < n" "t < n"
  shows "h = Suc t mod n \<longleftrightarrow> ring_dist n h t = n - 1"
  using assms by (auto simp: ring_dist_cases mod_Suc_cases)

lemma ring_dist_Suc_tail:
  assumes "h < n" "t < n" "h \<noteq> Suc t mod n"
  shows "ring_dist n h (Suc t mod n) = Suc (ring_dist n h t)"
  using assms by (auto simp: ring_dist_cases mod_Suc_cases)

lemma ring_dist_Suc_head:
  assumes "h < n" "t < n" "h \<noteq> t"
  shows "ring_dist n (Suc h mod n) t = ring_dist n h t - 1"
  using assms by (auto simp: ring_dist_cases mod_Suc_cases)

lemma ring_dist_add:
  assumes "h < n" "t < n"
  shows "(h + ring_dist n h t) mod n = t"
  using assms by (auto simp: ring_dist_cases)

text \<open>
  A ring of \<open>n\<close> cells whose head stands on the empty cell before the first element:
  what storing behind the tail and advancing the head do to the stored sequence.
\<close>

lemma ring_put:
  assumes h: "h < n" and t: "t < n" and room: "h \<noteq> Suc t mod n" and len: "length buf = n"
  shows "ring (buf[Suc t mod n := x]) (Suc h) (ring_dist n h (Suc t mod n))
    = ring buf (Suc h) (ring_dist n h t) @ [x]"
proof -
  let ?d = "ring_dist n h t"
  have d: "ring_dist n h (Suc t mod n) = Suc ?d"
    using h t room by (simp add: ring_dist_Suc_tail)
  have "(h + ?d) mod n = t" using ring_dist_add [OF h t] t by simp
  then have p: "Suc (h + ?d) mod n = Suc t mod n" by (metis mod_Suc_eq)
  have "?d < length buf" using ring_dist_less [of n h t] h len by simp
  from ring_snoc [OF this, of "Suc h" x] show ?thesis by (simp add: len p d)
qed

lemma ring_get:
  assumes h: "h < n" and t: "t < n" and ne: "h \<noteq> t" and len: "length buf = n"
  shows "ring buf (Suc h) (ring_dist n h t)
    = buf ! (Suc h mod n) # ring buf (Suc (Suc h mod n)) (ring_dist n (Suc h mod n) t)"
proof -
  let ?d = "ring_dist n h t"
  have d: "ring_dist n (Suc h mod n) t = ?d - 1" and "0 < ?d"
    using h t ne by (auto simp: ring_dist_Suc_head ring_dist_0_iff zero_less_iff_neq_zero)
  have "ring buf (Suc (Suc h mod n)) (?d - 1) = ring buf (Suc (Suc h)) (?d - 1)"
    using ring_start_mod [of buf "Suc (Suc h mod n)" "?d - 1"]
      ring_start_mod [of buf "Suc (Suc h)" "?d - 1"]
    by (simp add: len mod_Suc_eq)
  then show ?thesis using ring_Cons [OF \<open>0 < ?d\<close>, of buf "Suc h"] by (simp add: len d)
qed

section \<open>Counting\<close>

lemma mem_count_list: "x \<in> set xs \<longleftrightarrow> 0 < count_list xs x"
  by (simp add: count_list_0_iff zero_less_iff_neq_zero)

declare count_list_0_iff [simp del] count_notin [simp del]

lemma count_list_update:
  "i < length xs \<Longrightarrow> count_list (xs[i := y]) x
    = count_list xs x + (if y = x then 1 else 0) - (if xs ! i = x then 1 else 0)"
proof (induction xs arbitrary: i)
  case (Cons a xs)
  show ?case
  proof (cases i)
    case (Suc j)
    with Cons.prems have "j < length xs" by simp
    moreover from this have "xs ! j = x \<Longrightarrow> 0 < count_list xs x" by (auto simp flip: mem_count_list)
    ultimately show ?thesis using Cons.IH [of j] Suc by auto
  qed simp
qed simp

lemma count_list_nth_pos: "i < length xs \<Longrightarrow> 0 < count_list xs (xs ! i)"
  by (simp flip: mem_count_list)

section \<open>Words as indices\<close>

lemma unat_Suc_mod:
  fixes t c :: "'a::len word"
  assumes "t < c"
  shows "unat ((t + 1) mod c) = Suc (unat t) mod unat c"
proof -
  have "unat t < unat c" using assms by (simp add: word_less_nat_alt)
  moreover have "unat c < 2 ^ LENGTH('a)" by (rule unsigned_less)
  ultimately have "Suc (unat t) < 2 ^ LENGTH('a)" by linarith
  then have "unat (t + 1) = Suc (unat t)"
    using unat_add_lem [of t 1] by simp
  then show ?thesis by (simp add: unat_mod_distrib)
qed

lemma unat_minus1_u32: "unat (- 1 :: u32) = 4294967295"
  by (simp add: unsigned_minus_1_eq_mask mask_eq_exp_minus_1)

end
