(* ===== verification/Fifo.thy ===== *)
theory Fifo
  imports Prelude
begin

text \<open>
  The contract of a bounded first-in first-out buffer, which the kernel queue
  (\<open>lib/kernel/queue.c\<close>), the pipe (\<open>filesys/pipe.c\<close>) and the interrupt queue
  (\<open>devices/intq.c\<close>) provide, and what their clients may conclude from it.  Every
  operation of these modules runs under the module's lock, so an execution by any
  number of threads is a sequence of complete puts and gets.
\<close>

datatype 'a fifo_event = Put 'a | Get 'a

text \<open>
  \<open>fifo_run put get q es\<close> executes the events in order; \<open>Get x\<close> is a removal that
  returned \<open>x\<close>.  \<open>None\<close> when some call does not return or returns another item.
\<close>

fun fifo_run :: "('q \<Rightarrow> 'a \<Rightarrow> 'q outcome) \<Rightarrow> ('q \<Rightarrow> ('a \<times> 'q) outcome) \<Rightarrow> 'q \<Rightarrow>
    'a fifo_event list \<Rightarrow> 'q option" where
  "fifo_run put get q [] = Some q"
| "fifo_run put get q (Put x # es) =
     (case put q x of Ok q' \<Rightarrow> fifo_run put get q' es | _ \<Rightarrow> None)"
| "fifo_run put get q (Get x # es) =
     (case get q of Ok (y, q') \<Rightarrow> if y = x then fifo_run put get q' es else None | _ \<Rightarrow> None)"

fun puts :: "'a fifo_event list \<Rightarrow> 'a list" where
  "puts [] = []"
| "puts (Put x # es) = x # puts es"
| "puts (Get x # es) = puts es"

fun gets :: "'a fifo_event list \<Rightarrow> 'a list" where
  "gets [] = []"
| "gets (Put x # es) = gets es"
| "gets (Get x # es) = x # gets es"

locale bounded_fifo =
  fixes inv :: "'q \<Rightarrow> bool"
    and contents :: "'q \<Rightarrow> 'a list"
    and cap :: "'q \<Rightarrow> nat"
    and put :: "'q \<Rightarrow> 'a \<Rightarrow> 'q outcome"
    and get :: "'q \<Rightarrow> ('a \<times> 'q) outcome"
  assumes bounded: "inv q \<Longrightarrow> length (contents q) \<le> cap q"
    and put_room: "inv q \<Longrightarrow> length (contents q) < cap q \<Longrightarrow>
      \<exists>q'. put q x = Ok q' \<and> inv q' \<and> cap q' = cap q \<and> contents q' = contents q @ [x]"
    and put_full: "inv q \<Longrightarrow> length (contents q) = cap q \<Longrightarrow> put q x = Hang"
    and get_item: "inv q \<Longrightarrow> contents q = x # xs \<Longrightarrow>
      \<exists>q'. get q = Ok (x, q') \<and> inv q' \<and> cap q' = cap q \<and> contents q' = xs"
    and get_empty: "inv q \<Longrightarrow> contents q = [] \<Longrightarrow> get q = Hang"
begin

lemma put_OkD:
  assumes "inv q" "put q x = Ok q'"
  shows "inv q' \<and> cap q' = cap q \<and> contents q' = contents q @ [x] \<and> length (contents q) < cap q"
proof -
  have "length (contents q) < cap q"
    using assms bounded [of q] put_full [of q x] by (cases "length (contents q) = cap q") auto
  with put_room [of q x] assms show ?thesis by auto
qed

lemma get_OkD:
  assumes "inv q" "get q = Ok (x, q')"
  shows "inv q' \<and> cap q' = cap q \<and> contents q = x # contents q'"
proof (cases "contents q")
  case Nil
  with assms get_empty [of q] show ?thesis by simp
next
  case (Cons y ys)
  with assms get_item [of q y ys] show ?thesis by auto
qed

lemma run_fifo:
  assumes "inv q" "fifo_run put get q es = Some q'"
  shows "inv q' \<and> cap q' = cap q \<and> contents q @ puts es = gets es @ contents q'"
  using assms
proof (induction es arbitrary: q)
  case (Cons e es)
  then show ?case
  proof (cases e)
    case (Put x)
    with Cons.prems obtain q1 where "put q x = Ok q1" "fifo_run put get q1 es = Some q'"
      by (auto split: outcome.splits)
    with put_OkD [of q x q1] Cons.IH [of q1] Cons.prems Put show ?thesis by auto
  next
    case (Get x)
    with Cons.prems obtain q1 where "get q = Ok (x, q1)" "fifo_run put get q1 es = Some q'"
      by (auto split: outcome.splits if_splits)
    with get_OkD [of q x q1] Cons.IH [of q1] Cons.prems Get show ?thesis by auto
  qed
qed simp

text \<open>A batch that fits is accepted whole, and reading it back gives it in order.\<close>

lemma run_puts:
  assumes "inv q" "length (contents q) + length xs \<le> cap q"
  shows "\<exists>q'. fifo_run put get q (map Put xs) = Some q' \<and> inv q' \<and> cap q' = cap q
    \<and> contents q' = contents q @ xs"
  using assms
proof (induction xs arbitrary: q)
  case (Cons x xs)
  then obtain q1 where "put q x = Ok q1" "inv q1" "cap q1 = cap q" "contents q1 = contents q @ [x]"
    using put_room [of q x] by auto
  with Cons.IH [of q1] Cons.prems show ?case by auto
qed simp

lemma run_gets:
  assumes "inv q" "contents q = xs @ ys"
  shows "\<exists>q'. fifo_run put get q (map Get xs) = Some q' \<and> inv q' \<and> cap q' = cap q \<and> contents q' = ys"
  using assms
proof (induction xs arbitrary: q)
  case (Cons x xs)
  then obtain q1 where "get q = Ok (x, q1)" "inv q1" "cap q1 = cap q" "contents q1 = xs @ ys"
    using get_item [of q x "xs @ ys"] by auto
  with Cons.IH [of q1] show ?case by auto
qed simp

end

end
