(* ===== verification/WordRing.thy ===== *)
theory WordRing
  imports Prelude
begin

text \<open>
  The ring buffer that \<open>lib/kernel/queue.c\<close> and \<open>filesys/pipe.c\<close> both implement:
  32-bit \<open>capacity\<close>, \<open>head\<close> and \<open>tail\<close>, the head on the empty cell before the first
  element and the tail on the last one, positions advanced by
  \<open>(pos + 1) % capacity\<close>.  Its invariant, the sequence it stores and what the two
  advances do to that sequence.
\<close>

definition wring_inv :: "'a list \<Rightarrow> u32 \<Rightarrow> u32 \<Rightarrow> u32 \<Rightarrow> bool" where
  "wring_inv buf cap h t \<longleftrightarrow> length buf = unat cap \<and> h < cap \<and> t < cap"

definition wring :: "'a list \<Rightarrow> u32 \<Rightarrow> u32 \<Rightarrow> u32 \<Rightarrow> 'a list" where
  "wring buf cap h t = ring buf (Suc (unat h)) (ring_dist (unat cap) (unat h) (unat t))"

lemma wring_invD:
  assumes "wring_inv buf cap h t"
  shows "length buf = unat cap" "unat h < unat cap" "unat t < unat cap"
    "unat ((h + 1) mod cap) = Suc (unat h) mod unat cap"
    "unat ((t + 1) mod cap) = Suc (unat t) mod unat cap"
  using assms by (simp_all add: wring_inv_def word_less_nat_alt unat_Suc_mod)

lemma wring_inv_next:
  assumes "wring_inv buf cap h t"
  shows "wring_inv buf cap ((h + 1) mod cap) t" "wring_inv (buf[i := x]) cap h ((t + 1) mod cap)"
proof -
  have "unat cap \<noteq> 0" using wring_invD(2) [OF assms] by simp
  then show "wring_inv buf cap ((h + 1) mod cap) t"
      "wring_inv (buf[i := x]) cap h ((t + 1) mod cap)"
    using assms wring_invD [OF assms] by (simp_all add: wring_inv_def word_less_nat_alt)
qed

lemma wring_inv_init: "length buf = unat cap \<Longrightarrow> cap \<noteq> 0 \<Longrightarrow> wring_inv buf cap 0 0"
  by (simp add: wring_inv_def word_neq_0_conv)

lemma wring_empty [simp]: "wring_inv buf cap h h \<Longrightarrow> wring buf cap h h = []"
  using wring_invD [of buf cap h h] by (simp add: wring_def)

lemma wring_empty_iff: "wring_inv buf cap h t \<Longrightarrow> wring buf cap h t = [] \<longleftrightarrow> h = t"
  using wring_invD [of buf cap h t]
  by (auto simp: wring_def ring_dist_0_iff word_unat_eq_iff simp flip: length_0_conv)

lemma wring_full_iff:
  "wring_inv buf cap h t \<Longrightarrow> length (wring buf cap h t) = unat cap - Suc 0 \<longleftrightarrow> h = (t + 1) mod cap"
  using wring_invD [of buf cap h t] by (simp add: wring_def word_unat_eq_iff ring_dist_full)

lemma wring_bounded: "wring_inv buf cap h t \<Longrightarrow> length (wring buf cap h t) \<le> unat cap - Suc 0"
  using wring_invD [of buf cap h t] ring_dist_less [of "unat cap" "unat h" "unat t"]
  by (simp add: wring_def)

lemma wring_put:
  assumes "wring_inv buf cap h t" "h \<noteq> (t + 1) mod cap"
  shows "wring (buf[unat ((t + 1) mod cap) := x]) cap h ((t + 1) mod cap) = wring buf cap h t @ [x]"
proof -
  have "unat h \<noteq> Suc (unat t) mod unat cap"
    using assms(2) wring_invD(5) [OF assms(1)] by (simp add: word_unat_eq_iff)
  with wring_invD [OF assms(1)] show ?thesis by (simp add: wring_def ring_put)
qed

lemma wring_get:
  assumes "wring_inv buf cap h t" "h \<noteq> t"
  shows "wring buf cap h t = buf ! unat ((h + 1) mod cap) # wring buf cap ((h + 1) mod cap) t"
proof -
  note d = wring_invD [OF assms(1)]
  have "unat h \<noteq> unat t" using assms(2) by (simp add: word_unat_eq_iff)
  from ring_get [OF d(2,3) this d(1)] show ?thesis by (simp add: wring_def d(4))
qed

end
