(* ===== verification/KQueue.thy ===== *)
theory KQueue
  imports Fifo WordRing
begin

text \<open>
  The array queue of \<open>lib/kernel/queue.c\<close>, which feeds the read-ahead daemon of the
  buffer cache: a ring buffer of \<open>capacity\<close> cells one of which, the cell at
  \<open>head\<close>, is always empty.  The monitor lock and the two condition variables
  are not part of the data: each routine runs inside the lock, and a routine that
  calls \<open>cond_wait\<close> with no other thread to signal it does not return.
\<close>

section \<open>The data and the operations\<close>

record array_queue =
  q_buffer :: "u32 list"
  q_capacity :: u32
  q_discard_mode :: bool
  q_head :: u32
  q_tail :: u32

text \<open>
  \<open>storage\<close> is what \<open>malloc\<close> returned for the \<open>capacity + 1\<close> elements, \<open>None\<close>
  for a null pointer, on which the caller's thread exits.
\<close>

definition queue_init :: "u32 \<Rightarrow> bool \<Rightarrow> u32 list option \<Rightarrow> array_queue outcome" where
  "queue_init capacity discard_mode storage =
     (case storage of
        None \<Rightarrow> Exit
      | Some buffer \<Rightarrow>
          Ok \<lparr>q_buffer = buffer, q_capacity = capacity + 1, q_discard_mode = discard_mode,
              q_head = 0, q_tail = 0\<rparr>)"

definition queue_empty :: "array_queue \<Rightarrow> bool" where
  "queue_empty queue \<longleftrightarrow> q_head queue = q_tail queue"

definition queue_full :: "array_queue \<Rightarrow> bool" where
  "queue_full queue \<longleftrightarrow> q_head queue = (q_tail queue + 1) mod q_capacity queue"

definition queue_peek :: "array_queue \<Rightarrow> u32" where
  "queue_peek queue =
     (if \<not> queue_empty queue
      then q_buffer queue ! unat ((q_head queue + 1) mod q_capacity queue)
      else - 1)"

definition queue_dequeue :: "array_queue \<Rightarrow> (u32 \<times> array_queue) outcome" where
  "queue_dequeue queue =
     (if queue_empty queue then Hang
      else let head = (q_head queue + 1) mod q_capacity queue;
               item = q_buffer queue ! unat head
           in Ok (item, queue\<lparr>q_head := head\<rparr>))"

definition queue_enqueue :: "array_queue \<Rightarrow> u32 \<Rightarrow> array_queue outcome" where
  "queue_enqueue queue item =
     (if q_discard_mode queue \<and> queue_full queue then Ok queue
      else if queue_full queue then Hang
      else let tail = (q_tail queue + 1) mod q_capacity queue
           in Ok (queue\<lparr>q_tail := tail, q_buffer := (q_buffer queue)[unat tail := item]\<rparr>))"

section \<open>Invariant and contents\<close>

definition queue_inv :: "array_queue \<Rightarrow> bool" where
  "queue_inv q \<longleftrightarrow> wring_inv (q_buffer q) (q_capacity q) (q_head q) (q_tail q)"

definition queue_contents :: "array_queue \<Rightarrow> u32 list" where
  "queue_contents q = wring (q_buffer q) (q_capacity q) (q_head q) (q_tail q)"

definition queue_room :: "array_queue \<Rightarrow> nat" where
  "queue_room q = unat (q_capacity q) - 1"

lemmas queue_abs_defs = queue_inv_def queue_contents_def queue_room_def

lemma queue_empty_iff: "queue_inv q \<Longrightarrow> queue_empty q \<longleftrightarrow> queue_contents q = []"
  by (simp add: queue_abs_defs queue_empty_def wring_empty_iff)

lemma queue_full_iff: "queue_inv q \<Longrightarrow> queue_full q \<longleftrightarrow> length (queue_contents q) = queue_room q"
  by (simp add: queue_abs_defs queue_full_def wring_full_iff)

lemma queue_contents_bounded: "queue_inv q \<Longrightarrow> length (queue_contents q) \<le> queue_room q"
  by (simp add: queue_abs_defs wring_bounded)

lemma queue_enqueue_room:
  assumes "queue_inv q" "length (queue_contents q) < queue_room q"
  shows "\<exists>q'. queue_enqueue q x = Ok q' \<and> queue_inv q' \<and> queue_room q' = queue_room q
    \<and> q_discard_mode q' = q_discard_mode q \<and> queue_contents q' = queue_contents q @ [x]"
proof -
  have "\<not> queue_full q" using assms by (simp add: queue_full_iff)
  then show ?thesis
    using assms(1)
    by (simp add: queue_enqueue_def Let_def queue_full_def queue_abs_defs wring_inv_next wring_put)
qed

lemma queue_dequeue_item:
  assumes "queue_inv q" "queue_contents q = x # xs"
  shows "\<exists>q'. queue_dequeue q = Ok (x, q') \<and> queue_inv q' \<and> queue_room q' = queue_room q
    \<and> q_discard_mode q' = q_discard_mode q \<and> queue_contents q' = xs"
proof -
  have "\<not> queue_empty q" using assms by (simp add: queue_empty_iff)
  then show ?thesis
    using assms wring_get [of "q_buffer q" "q_capacity q" "q_head q" "q_tail q"]
    by (simp add: queue_dequeue_def Let_def queue_empty_def queue_abs_defs wring_inv_next)
qed

text \<open>A queue that is not in discard mode meets the contract of a bounded FIFO.\<close>

interpretation kq: bounded_fifo "\<lambda>q. queue_inv q \<and> \<not> q_discard_mode q" queue_contents queue_room
  queue_enqueue queue_dequeue
proof unfold_locales
  fix q x
  show "queue_enqueue q x = Hang"
    if "queue_inv q \<and> \<not> q_discard_mode q" "length (queue_contents q) = queue_room q"
    using that by (simp add: queue_enqueue_def queue_full_iff)
  show "queue_dequeue q = Hang" if "queue_inv q \<and> \<not> q_discard_mode q" "queue_contents q = []"
    using that by (simp add: queue_dequeue_def queue_empty_iff)
qed (use queue_contents_bounded queue_enqueue_room queue_dequeue_item in \<open>blast+\<close>)

lemma queue_init_ok:
  assumes "unat capacity < 2 ^ 32 - 1" and "length buffer = Suc (unat capacity)"
  shows "\<exists>q. queue_init capacity mode (Some buffer) = Ok q \<and> queue_inv q
    \<and> queue_room q = unat capacity \<and> q_discard_mode q = mode \<and> queue_contents q = []"
proof -
  have c: "unat (capacity + 1) = Suc (unat capacity)"
    using unat_add_lem [of capacity 1] assms(1) by simp
  moreover from this have "capacity + 1 \<noteq> 0" by (auto dest: arg_cong [where f = unat])
  ultimately show ?thesis
    using assms(2) by (simp add: queue_init_def queue_abs_defs wring_inv_init)
qed

section \<open>Properties\<close>

text \<open>
  C14: the behaviour of the queue on every branch.  With room, \<open>queue_enqueue\<close> appends;
  on a full queue it drops the item in discard mode and otherwise blocks.
  \<open>queue_dequeue\<close> removes the oldest item, the one \<open>queue_peek\<close> shows, and blocks on
  an empty queue.  The stored sequence never exceeds the requested capacity, and all
  of it survives the wrap-around of the 32-bit positions.
\<close>

theorem queue_spec:
  assumes "queue_inv q"
  shows "(if length (queue_contents q) < queue_room q
      then \<exists>q'. queue_enqueue q x = Ok q' \<and> queue_inv q' \<and> queue_contents q' = queue_contents q @ [x]
      else queue_enqueue q x = (if q_discard_mode q then Ok q else Hang))
    \<and> (case queue_contents q of
         [] \<Rightarrow> queue_dequeue q = Hang \<and> queue_peek q = - 1
       | y # ys \<Rightarrow> queue_peek q = y
           \<and> (\<exists>q'. queue_dequeue q = Ok (y, q') \<and> queue_inv q' \<and> queue_contents q' = ys))
    \<and> length (queue_contents q) \<le> queue_room q"
proof -
  have full: "queue_enqueue q x = (if q_discard_mode q then Ok q else Hang)"
    if "\<not> length (queue_contents q) < queue_room q"
    using that queue_contents_bounded [OF assms] queue_full_iff [OF assms]
    by (simp add: queue_enqueue_def)
  have empty: "queue_dequeue q = Hang \<and> queue_peek q = - 1" if "queue_contents q = []"
    using that by (simp add: queue_dequeue_def queue_peek_def queue_empty_iff assms)
  have peek: "queue_contents q = y # ys \<Longrightarrow> queue_peek q = y" for y ys
    using assms wring_get [of "q_buffer q" "q_capacity q" "q_head q" "q_tail q"]
    by (auto simp: queue_peek_def queue_empty_def queue_abs_defs)
  show ?thesis
    using full empty peek queue_enqueue_room [OF assms, of x] queue_dequeue_item [OF assms]
      queue_contents_bounded [OF assms]
    by (fastforce split: list.splits)
qed

theorem queue_spec_witness:
  "\<exists>q'. queue_enqueue \<lparr>q_buffer = [4, 5, 6], q_capacity = 3, q_discard_mode = True, q_head = 2, q_tail = 0\<rparr> 8
     = Ok q' \<and> queue_contents q' = [4, 8]"
proof -
  let ?q = "\<lparr>q_buffer = [4, 5, 6], q_capacity = 3, q_discard_mode = True, q_head = 2, q_tail = 0\<rparr>"
  have h: "queue_inv ?q" and c: "queue_contents ?q = [4]" "queue_room ?q = 2" by code_simp+
  from queue_spec [OF h, of 8] c show ?thesis by auto
qed

end
