(* ===== verification/Intq.thy ===== *)
theory Intq
  imports Fifo
begin

text \<open>
  The interrupt queue of \<open>devices/intq.c\<close>, a ring of 64 bytes shared by kernel
  threads and interrupt handlers, with one slot for a thread waiting for room and one
  for a thread waiting for data.  Unlike the queues of the file system it has its own
  wait and signal, so a call either returns or records the caller in a slot and
  blocks; a thread that is woken runs the same call again from its loop head.
\<close>

section \<open>The data and the operations\<close>

type_synonym tid = nat

definition INTQ_BUFSIZE :: nat where
  "INTQ_BUFSIZE = 64"

text \<open>
  \<open>iq_held\<close> is \<open>spinlock_held_by_current_cpu\<close> of the queue's lock.
\<close>

record intq =
  iq_held :: bool
  iq_not_full :: "tid option"
  iq_not_empty :: "tid option"
  iq_buf :: bytes
  iq_head :: nat
  iq_tail :: nat

definition intq_init :: "bytes \<Rightarrow> intq" where
  "intq_init storage = \<lparr>iq_held = False, iq_not_full = None, iq_not_empty = None,
     iq_buf = storage, iq_head = 0, iq_tail = 0\<rparr>"

definition intq_acquire :: "intq \<Rightarrow> intq outcome" where
  "intq_acquire q = (if iq_held q then Panic else Ok (q\<lparr>iq_held := True\<rparr>))"

definition intq_release :: "intq \<Rightarrow> intq outcome" where
  "intq_release q = (if iq_held q then Ok (q\<lparr>iq_held := False\<rparr>) else Panic)"

definition intq_next :: "nat \<Rightarrow> nat" where
  "intq_next pos = (pos + 1) mod INTQ_BUFSIZE"

definition intq_empty :: "intq \<Rightarrow> bool outcome" where
  "intq_empty q = (if iq_held q then Ok (iq_head q = iq_tail q) else Panic)"

definition intq_full :: "intq \<Rightarrow> bool outcome" where
  "intq_full q = (if iq_held q then Ok (intq_next (iq_head q) = iq_tail q) else Panic)"

text \<open>The address argument of \<open>wait\<close> and \<open>signal\<close> is one of the two slots.\<close>

datatype intq_slot = NotFull | NotEmpty

primrec get_slot :: "intq_slot \<Rightarrow> intq \<Rightarrow> tid option" where
  "get_slot NotFull q = iq_not_full q"
| "get_slot NotEmpty q = iq_not_empty q"

primrec set_slot :: "intq_slot \<Rightarrow> tid option \<Rightarrow> intq \<Rightarrow> intq" where
  "set_slot NotFull t q = q\<lparr>iq_not_full := t\<rparr>"
| "set_slot NotEmpty t q = q\<lparr>iq_not_empty := t\<rparr>"

text \<open>What \<open>wait\<close> asserts, and \<open>signal\<close> the negation of.\<close>

definition slot_blocked :: "intq_slot \<Rightarrow> intq \<Rightarrow> bool outcome" where
  "slot_blocked waiter q = (case waiter of NotEmpty \<Rightarrow> intq_empty q | NotFull \<Rightarrow> intq_full q)"

text \<open>\<open>wait\<close> ends in \<open>thread_block\<close>, which releases the lock.\<close>

definition intq_wait :: "tid \<Rightarrow> intq_slot \<Rightarrow> intq \<Rightarrow> intq outcome" where
  "intq_wait cur waiter q =
     bind (slot_blocked waiter q) (\<lambda>b.
     assert b (Ok ((set_slot waiter (Some cur) q)\<lparr>iq_held := False\<rparr>)))"

text \<open>\<open>signal\<close> returns the thread it passed to \<open>thread_unblock\<close>.\<close>

definition intq_signal :: "intq_slot \<Rightarrow> intq \<Rightarrow> (tid option \<times> intq) outcome" where
  "intq_signal waiter q =
     bind (slot_blocked waiter q) (\<lambda>b.
     assert (\<not> b)
     (case get_slot waiter q of
       Some t \<Rightarrow> Ok (Some t, set_slot waiter None q)
     | None \<Rightarrow> Ok (None, q)))"

text \<open>A call returned, having woken a thread or not, or it blocked.\<close>

datatype 'a attempt = Returned 'a "tid option" | Blocked

definition intq_getc :: "tid \<Rightarrow> bool \<Rightarrow> intq \<Rightarrow> (u8 attempt \<times> intq) outcome" where
  "intq_getc cur intr_context q =
     bind (intq_empty q) (\<lambda>e.
     if e then
       assert (\<not> intr_context)
       (bind (intq_wait cur NotEmpty q) (\<lambda>q. Ok (Blocked, q)))
     else
       let byte = iq_buf q ! iq_tail q;
           q = q\<lparr>iq_tail := intq_next (iq_tail q)\<rparr>
       in bind (intq_signal NotFull q) (\<lambda>(woken, q). Ok (Returned byte woken, q)))"

definition intq_putc :: "tid \<Rightarrow> bool \<Rightarrow> intq \<Rightarrow> u8 \<Rightarrow> (unit attempt \<times> intq) outcome" where
  "intq_putc cur intr_context q byte =
     bind (intq_full q) (\<lambda>f.
     if f then
       assert (\<not> intr_context)
       (bind (intq_wait cur NotFull q) (\<lambda>q. Ok (Blocked, q)))
     else
       let q = q\<lparr>iq_buf := (iq_buf q)[iq_head q := byte], iq_head := intq_next (iq_head q)\<rparr>
       in bind (intq_signal NotEmpty q) (\<lambda>(woken, q). Ok (Returned () woken, q)))"

section \<open>Invariant and contents\<close>

text \<open>
  Besides the bounds: a thread is recorded in a slot only while its condition does not
  hold, so that no wake-up has been missed.
\<close>

definition intq_ring_inv :: "intq \<Rightarrow> bool" where
  "intq_ring_inv q \<longleftrightarrow>
     length (iq_buf q) = INTQ_BUFSIZE \<and> iq_head q < INTQ_BUFSIZE \<and> iq_tail q < INTQ_BUFSIZE"

definition intq_no_missed_wakeup :: "intq \<Rightarrow> bool" where
  "intq_no_missed_wakeup q \<longleftrightarrow>
     (iq_not_empty q \<noteq> None \<longrightarrow> iq_head q = iq_tail q)
     \<and> (iq_not_full q \<noteq> None \<longrightarrow> intq_next (iq_head q) = iq_tail q)"

definition intq_contents :: "intq \<Rightarrow> bytes" where
  "intq_contents q = ring (iq_buf q) (iq_tail q) (ring_dist INTQ_BUFSIZE (iq_tail q) (iq_head q))"

lemma intq_next_bound: "intq_next i < INTQ_BUFSIZE"
  by (simp add: intq_next_def INTQ_BUFSIZE_def)

lemma intq_next_neq: "i < INTQ_BUFSIZE \<Longrightarrow> intq_next i \<noteq> i"
  by (auto simp: intq_next_def INTQ_BUFSIZE_def mod_Suc split: if_splits)

lemma intq_next_inj: "i < INTQ_BUFSIZE \<Longrightarrow> j < INTQ_BUFSIZE \<Longrightarrow> intq_next i = intq_next j \<Longrightarrow> i = j"
  by (auto simp: intq_next_def INTQ_BUFSIZE_def mod_Suc split: if_splits)

lemma intq_empty_iff:
  "intq_ring_inv q \<Longrightarrow> iq_head q = iq_tail q \<longleftrightarrow> intq_contents q = []"
  by (auto simp: intq_ring_inv_def intq_contents_def ring_dist_0_iff simp flip: length_0_conv)

lemma intq_full_iff:
  "intq_ring_inv q \<Longrightarrow> intq_next (iq_head q) = iq_tail q \<longleftrightarrow> length (intq_contents q) = INTQ_BUFSIZE - 1"
  using ring_dist_full [of "iq_tail q" INTQ_BUFSIZE "iq_head q"]
  by (auto simp: intq_ring_inv_def intq_contents_def intq_next_def)

lemma intq_bounded: "intq_ring_inv q \<Longrightarrow> length (intq_contents q) \<le> INTQ_BUFSIZE - Suc 0"
  using ring_dist_less [of INTQ_BUFSIZE "iq_tail q" "iq_head q"]
  by (simp add: intq_contents_def INTQ_BUFSIZE_def)

lemma intq_put_contents:
  assumes "intq_ring_inv q" "intq_next (iq_head q) \<noteq> iq_tail q"
  shows "ring ((iq_buf q)[iq_head q := x]) (iq_tail q)
      (ring_dist INTQ_BUFSIZE (iq_tail q) (intq_next (iq_head q))) = intq_contents q @ [x]"
proof -
  let ?n = INTQ_BUFSIZE and ?h = "iq_head q" and ?t = "iq_tail q"
  let ?d = "ring_dist ?n ?t ?h"
  have b: "?h < ?n" "?t < ?n" "length (iq_buf q) = ?n" using assms by (simp_all add: intq_ring_inv_def)
  have d: "ring_dist ?n ?t (intq_next ?h) = Suc ?d"
    using b assms(2) by (simp add: intq_next_def ring_dist_Suc_tail)
  have "?d < length (iq_buf q)" using ring_dist_less [of ?n ?t ?h] b by simp
  from ring_snoc [OF this, of ?t x] show ?thesis
    using ring_dist_add [OF b(2,1)] by (simp add: b d intq_contents_def)
qed

lemma intq_get_contents:
  assumes "intq_ring_inv q" "iq_head q \<noteq> iq_tail q"
  shows "intq_contents q = iq_buf q ! iq_tail q
      # ring (iq_buf q) (intq_next (iq_tail q)) (ring_dist INTQ_BUFSIZE (intq_next (iq_tail q)) (iq_head q))"
proof -
  let ?n = INTQ_BUFSIZE and ?h = "iq_head q" and ?t = "iq_tail q"
  have b: "?h < ?n" "?t < ?n" "length (iq_buf q) = ?n" using assms by (simp_all add: intq_ring_inv_def)
  have "0 < ring_dist ?n ?t ?h" using b assms(2) by (auto simp: ring_dist_0_iff zero_less_iff_neq_zero)
  from ring_Cons [OF this, of "iq_buf q" ?t] show ?thesis
    using b assms(2) ring_start_mod [of "iq_buf q" "Suc ?t"]
    by (simp add: intq_contents_def intq_next_def ring_dist_Suc_head)
qed

section \<open>Every branch of the two calls\<close>

lemmas intq_op_defs = intq_getc_def intq_putc_def intq_wait_def intq_signal_def slot_blocked_def
  intq_empty_def intq_full_def

definition put_state :: "intq \<Rightarrow> u8 \<Rightarrow> intq" where
  "put_state q x = q\<lparr>iq_buf := (iq_buf q)[iq_head q := x], iq_head := intq_next (iq_head q),
     iq_not_empty := None\<rparr>"

definition get_state :: "intq \<Rightarrow> intq" where
  "get_state q = q\<lparr>iq_tail := intq_next (iq_tail q), iq_not_full := None\<rparr>"

lemma intq_putc_cases:
  assumes "intq_ring_inv q" "iq_held q"
  shows "intq_putc cur intr q x =
    (if intq_next (iq_head q) = iq_tail q
     then if intr then Panic else Ok (Blocked, q\<lparr>iq_not_full := Some cur, iq_held := False\<rparr>)
     else Ok (Returned () (iq_not_empty q), put_state q x))"
  using assms by (auto simp: intq_op_defs put_state_def Let_def split: option.splits)

lemma intq_getc_cases:
  assumes "intq_ring_inv q" "iq_held q"
  shows "intq_getc cur intr q =
    (if iq_head q = iq_tail q
     then if intr then Panic else Ok (Blocked, q\<lparr>iq_not_empty := Some cur, iq_held := False\<rparr>)
     else Ok (Returned (iq_buf q ! iq_tail q) (iq_not_full q), get_state q))"
proof -
  have "intq_next (iq_head q) = intq_next (iq_tail q) \<longleftrightarrow> iq_head q = iq_tail q"
    using assms intq_next_inj by (auto simp: intq_ring_inv_def)
  then show ?thesis
    using assms by (auto simp: intq_op_defs get_state_def Let_def split: option.splits)
qed

lemma put_state_props:
  assumes "intq_ring_inv q" "intq_next (iq_head q) \<noteq> iq_tail q"
  shows "intq_ring_inv (put_state q x)" "intq_contents (put_state q x) = intq_contents q @ [x]"
    "iq_held (put_state q x) = iq_held q"
  using assms intq_put_contents [OF assms, of x]
  by (simp_all add: put_state_def intq_ring_inv_def intq_contents_def intq_next_bound)

lemma get_state_props:
  assumes "intq_ring_inv q" "iq_head q \<noteq> iq_tail q"
  shows "intq_ring_inv (get_state q)" "intq_contents q = iq_buf q ! iq_tail q # intq_contents (get_state q)"
    "iq_held (get_state q) = iq_held q"
  using assms intq_get_contents [OF assms]
  by (simp_all add: get_state_def intq_ring_inv_def intq_contents_def intq_next_bound)

text \<open>The calls of a thread, as the queue contract sees them: a blocked call has not returned.\<close>

definition intq_put :: "tid \<Rightarrow> intq \<Rightarrow> u8 \<Rightarrow> intq outcome" where
  "intq_put cur q x = bind (intq_putc cur False q x)
     (\<lambda>(r, q'). case r of Returned _ _ \<Rightarrow> Ok q' | Blocked \<Rightarrow> Hang)"

definition intq_get :: "tid \<Rightarrow> intq \<Rightarrow> (u8 \<times> intq) outcome" where
  "intq_get cur q = bind (intq_getc cur False q)
     (\<lambda>(r, q'). case r of Returned x _ \<Rightarrow> Ok (x, q') | Blocked \<Rightarrow> Hang)"

interpretation iq: bounded_fifo "\<lambda>q. intq_ring_inv q \<and> iq_held q" intq_contents
  "\<lambda>_. INTQ_BUFSIZE - 1" "intq_put cur" "intq_get cur"
proof unfold_locales
  fix q x
  show "\<exists>q'. intq_put cur q x = Ok q' \<and> (intq_ring_inv q' \<and> iq_held q')
      \<and> INTQ_BUFSIZE - 1 = INTQ_BUFSIZE - 1 \<and> intq_contents q' = intq_contents q @ [x]"
    if "intq_ring_inv q \<and> iq_held q" "length (intq_contents q) < INTQ_BUFSIZE - 1"
    using that put_state_props [of q x] intq_full_iff [of q]
    by (simp add: intq_put_def intq_putc_cases)
  show "\<exists>q'. intq_get cur q = Ok (x, q') \<and> (intq_ring_inv q' \<and> iq_held q')
      \<and> INTQ_BUFSIZE - 1 = INTQ_BUFSIZE - 1 \<and> intq_contents q' = xs"
    if "intq_ring_inv q \<and> iq_held q" "intq_contents q = x # xs" for xs
    using that get_state_props [of q] intq_empty_iff [of q]
    by (simp add: intq_get_def intq_getc_cases)
qed (simp_all add: intq_bounded intq_put_def intq_get_def intq_putc_cases intq_getc_cases
      intq_full_iff intq_empty_iff)

section \<open>Properties\<close>

text \<open>
  C16: the interrupt queue delivers bytes in the order they were put, and holds at most
  63 of them, for every sequence of calls that return under its lock.
\<close>

theorem intq_stream:
  assumes "intq_ring_inv q" "iq_held q" "fifo_run (intq_put cur) (intq_get cur) q es = Some q'"
  shows "intq_contents q @ puts es = gets es @ intq_contents q' \<and> length (intq_contents q') \<le> 63"
  using iq.run_fifo [of q cur es q'] assms intq_bounded [of q'] by (auto simp: INTQ_BUFSIZE_def)

theorem intq_stream_witness:
  "let q = (intq_init (replicate 64 0))\<lparr>iq_held := True\<rparr>
   in fifo_run (intq_put 1) (intq_get 1) q [Put 5, Put 6, Get 5]
        = Some (q\<lparr>iq_buf := 5 # 6 # replicate 62 0, iq_head := 2, iq_tail := 1\<rparr>)
     \<and> puts [Put (5::u8), Put 6, Get 5]
         = [5] @ intq_contents (q\<lparr>iq_buf := 5 # 6 # replicate 62 0, iq_head := 2, iq_tail := 1\<rparr>)"
proof -
  let ?q = "(intq_init (replicate 64 0))\<lparr>iq_held := True\<rparr>"
  let ?q' = "?q\<lparr>iq_buf := 5 # 6 # replicate 62 0, iq_head := 2, iq_tail := 1\<rparr>"
  have h: "intq_ring_inv ?q" "iq_held ?q" "intq_contents ?q = []" by code_simp+
  have run: "fifo_run (intq_put 1) (intq_get 1) ?q [Put 5, Put 6, Get 5] = Some ?q'" by code_simp
  from intq_stream [OF h(1,2) run] run h(3) show ?thesis by (simp add: Let_def)
qed

text \<open>
  C15: a put or a get by a kernel thread never fails an assertion, keeps the queue well
  formed, and keeps the rule that a thread is recorded as waiting only while its
  condition does not hold; a call that makes the condition of a recorded thread true
  wakes exactly that thread.
\<close>

theorem intq_no_missed_wakeups:
  assumes "intq_ring_inv q" "iq_held q" "intq_no_missed_wakeup q"
  shows "(\<exists>r q'. intq_putc cur False q x = Ok (r, q') \<and> intq_ring_inv q' \<and> intq_no_missed_wakeup q'
      \<and> (iq_not_empty q \<noteq> None \<longrightarrow> r = Returned () (iq_not_empty q)))
    \<and> (\<exists>r q'. intq_getc cur False q = Ok (r, q') \<and> intq_ring_inv q' \<and> intq_no_missed_wakeup q'
      \<and> (iq_not_full q \<noteq> None \<longrightarrow> (\<exists>b. r = Returned b (iq_not_full q))))"
proof -
  have b: "iq_head q < INTQ_BUFSIZE" "iq_tail q < INTQ_BUFSIZE" using assms by (simp_all add: intq_ring_inv_def)
  note n = intq_next_neq [OF b(1)] intq_next_neq [OF b(2)]
  show ?thesis
    using assms n put_state_props [of q x] get_state_props [of q]
    by (auto simp: intq_putc_cases intq_getc_cases intq_no_missed_wakeup_def put_state_def get_state_def
        intq_ring_inv_def)
qed

theorem intq_no_missed_wakeups_witness:
  "\<exists>q'. intq_putc 2 False ((intq_init (replicate 64 0))\<lparr>iq_held := True, iq_not_empty := Some 9\<rparr>) 65
     = Ok (Returned () (Some 9), q')"
proof -
  let ?q = "(intq_init (replicate 64 0))\<lparr>iq_held := True, iq_not_empty := Some 9\<rparr>"
  have h: "intq_ring_inv ?q" "iq_held ?q" "intq_no_missed_wakeup ?q" by code_simp+
  from intq_no_missed_wakeups [OF h, of 2 65] show ?thesis by auto
qed

text \<open>
  Each condition has one slot only: a second reader of an empty queue replaces the
  first, which no later signal can reach.
\<close>

lemma intq_second_reader_evicts_first:
  assumes "intq_ring_inv q" "iq_held q" "iq_head q = iq_tail q" "t1 \<noteq> t2" "iq_not_full q = None"
  shows "\<exists>q1 q2 q3. intq_getc t1 False q = Ok (Blocked, q1) \<and> intq_acquire q1 = Ok q2
    \<and> intq_getc t2 False q2 = Ok (Blocked, q3)
    \<and> iq_not_empty q3 \<noteq> Some t1 \<and> iq_not_full q3 \<noteq> Some t1"
  using assms by (simp add: intq_getc_cases intq_acquire_def intq_ring_inv_def)

end
