(* ===== verification/BlockDev.thy ===== *)
theory BlockDev
  imports Prelude
begin

text \<open>
  Block devices, \<open>devices/block.c\<close>.  What the driver's \<open>read\<close> and \<open>write\<close> operations do
  is the device's medium: a sector holds the 512 bytes last written to it.
\<close>

definition BLOCK_SECTOR_SIZE :: nat where
  "BLOCK_SECTOR_SIZE = 512"

datatype block_type = BLOCK_KERNEL | BLOCK_FILESYS | BLOCK_SCRATCH | BLOCK_SWAP | BLOCK_RAW | BLOCK_FOREIGN

definition BLOCK_ROLES :: "block_type list" where
  "BLOCK_ROLES = [BLOCK_KERNEL, BLOCK_FILESYS, BLOCK_SCRATCH, BLOCK_SWAP]"

record block =
  b_name :: string
  b_type :: block_type
  b_size :: u32
  b_media :: "u32 \<Rightarrow> bytes"
  b_read_cnt :: u64
  b_write_cnt :: u64

definition check_sector :: "block \<Rightarrow> u32 \<Rightarrow> 'a outcome \<Rightarrow> 'a outcome" where
  "check_sector b sector k = (if sector \<ge> b_size b then Panic else k)"

definition block_read :: "block \<Rightarrow> u32 \<Rightarrow> (bytes \<times> block) outcome" where
  "block_read b sector =
     check_sector b sector
     (Ok (b_media b sector, b\<lparr>b_read_cnt := b_read_cnt b + 1\<rparr>))"

definition block_write :: "block \<Rightarrow> u32 \<Rightarrow> bytes \<Rightarrow> block outcome" where
  "block_write b sector buffer =
     check_sector b sector
     (assert (b_type b \<noteq> BLOCK_FOREIGN)
     (Ok (b\<lparr>b_media := (b_media b)(sector := buffer), b_write_cnt := b_write_cnt b + 1\<rparr>)))"

section \<open>The device table\<close>

text \<open>\<open>all_blocks\<close> in probe order, and the device of each role by its position.\<close>

record block_table =
  all_blocks :: "block list"
  block_by_role :: "block_type \<Rightarrow> nat option"

definition block_get_role :: "block_table \<Rightarrow> block_type \<Rightarrow> nat option outcome" where
  "block_get_role t role = assert (role \<in> set BLOCK_ROLES) (Ok (block_by_role t role))"

definition block_set_role :: "block_table \<Rightarrow> block_type \<Rightarrow> nat \<Rightarrow> block_table outcome" where
  "block_set_role t role b =
     assert (role \<in> set BLOCK_ROLES) (Ok (t\<lparr>block_by_role := (block_by_role t)(role := Some b)\<rparr>))"

definition block_first :: "block_table \<Rightarrow> nat option" where
  "block_first t = (if all_blocks t = [] then None else Some 0)"

definition block_next :: "block_table \<Rightarrow> nat \<Rightarrow> nat option" where
  "block_next t b = (if Suc b < length (all_blocks t) then Some (Suc b) else None)"

definition block_get_by_name :: "block_table \<Rightarrow> string \<Rightarrow> nat option" where
  "block_get_by_name t name =
     List.find (\<lambda>i. b_name (all_blocks t ! i) = name) [0..<length (all_blocks t)]"

text \<open>
  \<open>block_register\<close>; the name is cut to the 15 characters that \<open>strlcpy\<close> leaves of it.
\<close>

definition block_register :: "block_table \<Rightarrow> bool \<Rightarrow> string \<Rightarrow> block_type \<Rightarrow> u32 \<Rightarrow> (u32 \<Rightarrow> bytes) \<Rightarrow>
    (nat \<times> block_table) outcome" where
  "block_register t got name type sz media =
     (if \<not> got then Panic
      else Ok (length (all_blocks t),
        t\<lparr>all_blocks := all_blocks t @
           [\<lparr>b_name = take 15 name, b_type = type, b_size = sz, b_media = media,
             b_read_cnt = 0, b_write_cnt = 0\<rparr>]\<rparr>))"

section \<open>Reading and writing\<close>

lemma block_read_eq_Ok: "sector < b_size b \<Longrightarrow> block_read b sector = Ok (b_media b sector, b\<lparr>b_read_cnt := b_read_cnt b + 1\<rparr>)"
  by (simp add: block_read_def check_sector_def)

lemma block_write_eq_Ok:
  "sector < b_size b \<Longrightarrow> b_type b \<noteq> BLOCK_FOREIGN \<Longrightarrow> block_write b sector d =
     Ok (b\<lparr>b_media := (b_media b)(sector := d), b_write_cnt := b_write_cnt b + 1\<rparr>)"
  by (simp add: block_write_def check_sector_def)

end
