(* ===== verification/RwLock.thy ===== *)
theory RwLock
  imports Prelude
begin

text \<open>
  The read-write lock of \<open>filesys/rw-lock.c\<close>.  Each routine is a monitor procedure:
  the code between taking the monitor lock and giving it up, in \<open>cond_wait\<close> or at the
  end, is one atomic step.  The step relation at the end runs any number of threads
  through these procedures in any order.
\<close>

section \<open>The data and the monitor procedures\<close>

datatype rw_mode = UNLOCKED | READ_LOCKED | WRITE_LOCKED

record rw_lock =
  num_readers :: int
  num_writers :: int
  pending_readers :: int
  pending_writer :: bool
  reader_next :: bool
  mode :: rw_mode

definition rw_lock_init :: rw_lock where
  "rw_lock_init = \<lparr>num_readers = 0, num_writers = 0, pending_readers = 0,
     pending_writer = False, reader_next = False, mode = UNLOCKED\<rparr>"

text \<open>
  \<open>read_lock_acquire\<close> from its loop head: either the lock is taken, or the reader
  counts itself as pending and waits on \<open>can_read\<close>.  A reader that wakes up leaves
  the count and is at the loop head again.
\<close>

definition read_blocked :: "rw_lock \<Rightarrow> bool" where
  "read_blocked l \<longleftrightarrow> (num_writers l > 0 \<or> pending_writer l) \<and> \<not> reader_next l"

definition read_lock_acquire :: "rw_lock \<Rightarrow> bool \<times> rw_lock" where
  "read_lock_acquire l =
     (if read_blocked l then (False, l\<lparr>pending_readers := pending_readers l + 1\<rparr>)
      else (True, l\<lparr>num_readers := num_readers l + 1\<rparr>))"

definition read_lock_wake :: "rw_lock \<Rightarrow> bool \<times> rw_lock" where
  "read_lock_wake l = read_lock_acquire (l\<lparr>pending_readers := pending_readers l - 1\<rparr>)"

text \<open>\<open>read_lock_release\<close> always signals \<open>can_write\<close>.\<close>

definition read_lock_release :: "rw_lock \<Rightarrow> rw_lock" where
  "read_lock_release l = l\<lparr>num_readers := num_readers l - 1, reader_next := False\<rparr>"

definition write_blocked :: "rw_lock \<Rightarrow> bool" where
  "write_blocked l \<longleftrightarrow> num_readers l > 0 \<or> num_writers l > 0 \<or> reader_next l"

definition write_lock_acquire :: "rw_lock \<Rightarrow> (bool \<times> rw_lock) outcome" where
  "write_lock_acquire l =
     (if write_blocked l then Ok (False, l\<lparr>pending_writer := True\<rparr>)
      else let l = l\<lparr>num_writers := num_writers l + 1\<rparr>
           in assert (num_writers l = 1) (Ok (True, l)))"

definition write_lock_wake :: "rw_lock \<Rightarrow> (bool \<times> rw_lock) outcome" where
  "write_lock_wake l = write_lock_acquire (l\<lparr>pending_writer := False\<rparr>)"

definition write_lock_try_acquire :: "rw_lock \<Rightarrow> bool \<times> rw_lock" where
  "write_lock_try_acquire l =
     (if num_readers l > 0 \<or> num_writers l > 0 then (False, l)
      else (True, l\<lparr>num_writers := num_writers l + 1\<rparr>))"

datatype rw_wakeup = Signal_can_write | Broadcast_can_read

definition write_lock_release :: "rw_lock \<Rightarrow> (rw_wakeup \<times> rw_lock) outcome" where
  "write_lock_release l =
     (let l = l\<lparr>num_writers := num_writers l - 1\<rparr>
      in assert (num_writers l = 0)
           (if pending_readers l = 0 then Ok (Signal_can_write, l)
            else Ok (Broadcast_can_read, l\<lparr>reader_next := True\<rparr>)))"

section \<open>Threads\<close>

text \<open>
  Where a thread is: outside, holding the lock, asleep in one of the two condition
  variables, or signalled but not yet back in the monitor.
\<close>

datatype rw_status = Idle | Reading | Writing | RWait | RWoken | WWait | WWoken

type_synonym rw_sys = "rw_lock \<times> rw_status list"

text \<open>\<open>cond_signal (&can_write)\<close> wakes one sleeping writer, if there is one.\<close>

definition signal_can_write :: "rw_status list \<Rightarrow> rw_status list \<Rightarrow> bool" where
  "signal_can_write ts ts' \<longleftrightarrow>
     (if WWait \<in> set ts then \<exists>j<length ts. ts ! j = WWait \<and> ts' = ts[j := WWoken] else ts' = ts)"

text \<open>\<open>cond_broadcast (&can_read)\<close> wakes every sleeping reader.\<close>

definition broadcast_can_read :: "rw_status list \<Rightarrow> rw_status list" where
  "broadcast_can_read ts = map (\<lambda>s. if s = RWait then RWoken else s) ts"

text \<open>
  One monitor procedure by thread \<open>i\<close>.  The flag says whether
  \<open>write_lock_try_acquire\<close> is among the procedures the clients use.
\<close>

inductive rw_step :: "bool \<Rightarrow> rw_sys \<Rightarrow> rw_sys \<Rightarrow> bool" for tries :: bool where
  read_acquire: "i < length ts \<Longrightarrow> ts ! i = Idle \<Longrightarrow> read_lock_acquire l = (got, l') \<Longrightarrow>
    rw_step tries (l, ts) (l', ts[i := if got then Reading else RWait])"
| read_wake: "i < length ts \<Longrightarrow> ts ! i = RWoken \<Longrightarrow> read_lock_wake l = (got, l') \<Longrightarrow>
    rw_step tries (l, ts) (l', ts[i := if got then Reading else RWait])"
| read_release: "i < length ts \<Longrightarrow> ts ! i = Reading \<Longrightarrow> signal_can_write (ts[i := Idle]) ts' \<Longrightarrow>
    rw_step tries (l, ts) (read_lock_release l, ts')"
| write_acquire: "i < length ts \<Longrightarrow> ts ! i = Idle \<Longrightarrow> write_lock_acquire l = Ok (got, l') \<Longrightarrow>
    rw_step tries (l, ts) (l', ts[i := if got then Writing else WWait])"
| write_wake: "i < length ts \<Longrightarrow> ts ! i = WWoken \<Longrightarrow> write_lock_wake l = Ok (got, l') \<Longrightarrow>
    rw_step tries (l, ts) (l', ts[i := if got then Writing else WWait])"
| write_try: "tries \<Longrightarrow> i < length ts \<Longrightarrow> ts ! i = Idle \<Longrightarrow> write_lock_try_acquire l = (got, l') \<Longrightarrow>
    rw_step tries (l, ts) (l', ts[i := if got then Writing else Idle])"
| write_release_signal: "i < length ts \<Longrightarrow> ts ! i = Writing \<Longrightarrow>
    write_lock_release l = Ok (Signal_can_write, l') \<Longrightarrow> signal_can_write (ts[i := Idle]) ts' \<Longrightarrow>
    rw_step tries (l, ts) (l', ts')"
| write_release_broadcast: "i < length ts \<Longrightarrow> ts ! i = Writing \<Longrightarrow>
    write_lock_release l = Ok (Broadcast_can_read, l') \<Longrightarrow>
    rw_step tries (l, ts) (l', broadcast_can_read (ts[i := Idle]))"

inductive rw_reach :: "bool \<Rightarrow> nat \<Rightarrow> rw_sys \<Rightarrow> bool" for tries :: bool and n :: nat where
  start: "rw_reach tries n (rw_lock_init, replicate n Idle)"
| step: "rw_reach tries n s \<Longrightarrow> rw_step tries s s' \<Longrightarrow> rw_reach tries n s'"

section \<open>The invariant\<close>

text \<open>
  Over the number of threads in each status.  The counters of the lock agree with the
  threads; nobody sleeps without a thread that will wake it (a sleeping writer has a
  holder, a woken writer or the readers' turn ahead of it, a sleeping reader a writer,
  and during the readers' turn a reader is active); and, as long as nobody uses
  \<open>write_lock_try_acquire\<close>, a writer excludes readers and the readers' turn.
\<close>

definition rw_cinv :: "bool \<Rightarrow> rw_lock \<Rightarrow> (rw_status \<Rightarrow> nat) \<Rightarrow> bool" where
  "rw_cinv tries l c \<longleftrightarrow>
     num_readers l = int (c Reading) \<and> num_writers l = int (c Writing) \<and> c Writing \<le> 1
     \<and> pending_readers l = int (c RWait + c RWoken)
     \<and> (reader_next l \<longrightarrow> 0 < c RWoken + c Reading)
     \<and> (pending_writer l \<longrightarrow> 0 < c WWait + c WWoken)
     \<and> (0 < c RWait \<longrightarrow> 0 < c Writing + c WWait + c WWoken)
     \<and> (0 < c WWait \<longrightarrow> reader_next l \<or> 0 < c Reading + c Writing + c WWoken)
     \<and> (tries \<or> c Writing = 0 \<or> c Reading = 0 \<and> \<not> reader_next l)"

definition move :: "rw_status \<Rightarrow> rw_status \<Rightarrow> (rw_status \<Rightarrow> nat) \<Rightarrow> rw_status \<Rightarrow> nat" where
  "move a b c x = c x + (if b = x then 1 else 0) - (if a = x then 1 else 0)"

lemma move_same [simp]: "move a a c = c"
  by (simp add: fun_eq_iff move_def)



lemmas rw_cinv_unfold = rw_cinv_def move_def read_blocked_def write_blocked_def

text \<open>One lemma per way through a monitor procedure.\<close>

lemma cinv_read_wait:
  assumes "rw_cinv tries l c" "read_blocked l"
  shows "rw_cinv tries (l\<lparr>pending_readers := pending_readers l + 1\<rparr>) (move Idle RWait c)"
  using assms unfolding rw_cinv_unfold by simp linarith

lemma cinv_read_enter:
  assumes "rw_cinv tries l c" "\<not> read_blocked l"
  shows "rw_cinv tries (l\<lparr>num_readers := num_readers l + 1\<rparr>) (move Idle Reading c)"
  using assms unfolding rw_cinv_unfold by simp linarith

lemma cinv_rewait:
  assumes "rw_cinv tries l c" "read_blocked l" "0 < c RWoken"
  shows "rw_cinv tries l (move RWoken RWait c)"
  using assms unfolding rw_cinv_unfold by simp linarith

lemma cinv_reenter:
  assumes "rw_cinv tries l c" "\<not> read_blocked l" "0 < c RWoken"
  shows "rw_cinv tries (l\<lparr>pending_readers := pending_readers l - 1, num_readers := num_readers l + 1\<rparr>)
    (move RWoken Reading c)"
  using assms unfolding rw_cinv_unfold by simp linarith

lemma cinv_write_wait:
  assumes "rw_cinv tries l c" "write_blocked l" "a = Idle \<or> a = WWoken"
  shows "rw_cinv tries (l\<lparr>pending_writer := True\<rparr>) (move a WWait c)"
  using assms unfolding rw_cinv_unfold by (elim disjE; simp; linarith)

lemma cinv_write_enter:
  assumes "rw_cinv tries l c" "\<not> write_blocked l" "a = Idle \<and> p = pending_writer l \<or> a = WWoken \<and> \<not> p"
  shows "rw_cinv tries (l\<lparr>pending_writer := p, num_writers := num_writers l + 1\<rparr>) (move a Writing c)"
  using assms unfolding rw_cinv_unfold by (elim disjE; simp; linarith)

lemma cinv_write_try:
  assumes "rw_cinv True l c" "\<not> (num_readers l > 0 \<or> num_writers l > 0)"
  shows "rw_cinv True (l\<lparr>num_writers := num_writers l + 1\<rparr>) (move Idle Writing c)"
  using assms unfolding rw_cinv_unfold by simp

definition signalled :: "(rw_status \<Rightarrow> nat) \<Rightarrow> rw_status \<Rightarrow> nat" where
  "signalled c = (if 0 < c WWait then move WWait WWoken c else c)"

lemma cinv_read_release:
  assumes "rw_cinv tries l c" "0 < c Reading"
  shows "rw_cinv tries (read_lock_release l) (signalled (move Reading Idle c))"
  using assms unfolding rw_cinv_unfold signalled_def read_lock_release_def
  by (cases "0 < c WWait"; simp; linarith)

lemma cinv_write_signal:
  assumes "rw_cinv tries l c" "0 < c Writing" "pending_readers l = 0"
  shows "rw_cinv tries (l\<lparr>num_writers := num_writers l - 1\<rparr>) (signalled (move Writing Idle c))"
  using assms unfolding rw_cinv_unfold signalled_def
  by (cases "0 < c WWait"; simp; linarith)

definition broadcasted :: "(rw_status \<Rightarrow> nat) \<Rightarrow> rw_status \<Rightarrow> nat" where
  "broadcasted c = c(RWait := 0, RWoken := c RWait + c RWoken)"

lemma cinv_write_broadcast:
  assumes "rw_cinv tries l c" "0 < c Writing" "pending_readers l \<noteq> 0"
  shows "rw_cinv tries (l\<lparr>num_writers := num_writers l - 1, reader_next := True\<rparr>)
    (broadcasted (move Writing Idle c))"
  using assms unfolding rw_cinv_unfold broadcasted_def by simp linarith


section \<open>Every step keeps the invariant\<close>

definition rw_inv :: "bool \<Rightarrow> rw_sys \<Rightarrow> bool" where
  "rw_inv tries s \<longleftrightarrow> (case s of (l, ts) \<Rightarrow> rw_cinv tries l (count_list ts))"

lemma count_move: "i < length ts \<Longrightarrow> ts ! i = a \<Longrightarrow> count_list (ts[i := b]) = move a b (count_list ts)"
  by (auto simp: fun_eq_iff move_def count_list_update)

lemma count_signalled:
  assumes "signal_can_write ts ts'"
  shows "count_list ts' = signalled (count_list ts)"
  using assms
  by (auto simp: signal_can_write_def signalled_def mem_count_list count_move simp del: neq0_conv split: if_splits)

lemma count_broadcast [simp]:
  "count_list (broadcast_can_read ts) x =
     (if x = RWait then 0 else if x = RWoken then count_list ts RWait + count_list ts RWoken
      else count_list ts x)"
  by (induction ts) (auto simp: broadcast_can_read_def)

lemma count_broadcasted: "count_list (broadcast_can_read ts) = broadcasted (count_list ts)"
  by (auto simp: fun_eq_iff broadcasted_def)

lemma rw_inv_step:
  assumes "rw_step tries s s'" "rw_inv tries s"
  shows "rw_inv tries s'"
  using assms
proof (induction rule: rw_step.induct)
  case (read_acquire i ts l got l')
  then show ?case
    by (auto simp: rw_inv_def read_lock_acquire_def count_move
        intro: cinv_read_wait cinv_read_enter split: if_splits)
next
  case (read_wake i ts l got l')
  moreover have "0 < count_list ts RWoken" using count_list_nth_pos [of i ts] read_wake by simp
  moreover have "read_blocked (l\<lparr>pending_readers := k\<rparr>) = read_blocked l" for k by (simp add: read_blocked_def)
  ultimately show ?case
    by (auto simp: rw_inv_def read_lock_wake_def read_lock_acquire_def count_move
        intro: cinv_rewait cinv_reenter split: if_splits)
next
  case (read_release i ts ts' l)
  moreover have "0 < count_list ts Reading" using count_list_nth_pos [of i ts] read_release by simp
  ultimately show ?case
    by (simp add: rw_inv_def count_signalled [OF read_release(3)] count_move cinv_read_release)
next
  case (write_acquire i ts l got l')
  then show ?case
    using cinv_write_enter [of tries l "count_list ts" Idle "pending_writer l"]
    by (auto simp: rw_inv_def write_lock_acquire_def count_move Let_def assert_eq_Ok
        intro: cinv_write_wait split: if_splits)
next
  case (write_wake i ts l got l')
  moreover have "write_blocked (l\<lparr>pending_writer := False\<rparr>) = write_blocked l" by (simp add: write_blocked_def)
  ultimately show ?case
    using cinv_write_enter [of tries l "count_list ts" WWoken False]
    by (auto simp: rw_inv_def write_lock_wake_def write_lock_acquire_def count_move Let_def assert_eq_Ok
        intro: cinv_write_wait split: if_splits)
next
  case (write_try i ts l got l')
  then show ?case
    using cinv_write_try [of l "count_list ts"]
    by (auto simp: rw_inv_def write_lock_try_acquire_def count_move split: if_splits)
next
  case (write_release_signal i ts l l' ts')
  moreover have "0 < count_list ts Writing" using count_list_nth_pos [of i ts] write_release_signal by simp
  ultimately show ?case
    using cinv_write_signal [of tries l "count_list ts"]
    by (auto simp: rw_inv_def write_lock_release_def Let_def assert_eq_Ok count_move
        count_signalled [OF write_release_signal(4)] split: if_splits)
next
  case (write_release_broadcast i ts l l')
  moreover have "0 < count_list ts Writing" using count_list_nth_pos [of i ts] write_release_broadcast by simp
  ultimately show ?case
    using cinv_write_broadcast [of tries l "count_list ts"]
    by (auto simp: rw_inv_def write_lock_release_def Let_def assert_eq_Ok count_move
        count_broadcasted split: if_splits)
qed

lemma rw_inv_reach: "rw_reach tries n s \<Longrightarrow> rw_inv tries s"
proof (induction rule: rw_reach.induct)
  case start
  have "count_list (replicate n Idle) x = (if x = Idle then n else 0)" for x by (induction n) auto
  then show ?case by (simp add: rw_inv_def rw_cinv_def rw_lock_init_def)
next
  case (step s s')
  then show ?case by (simp add: rw_inv_step)
qed

section \<open>Properties\<close>

text \<open>
  C5: as long as no thread uses \<open>write_lock_try_acquire\<close>, in every state any number
  of threads can reach through the other four routines, a thread holding the lock for
  writing is alone: no reader and no second writer holds it.
\<close>

theorem rw_mutual_exclusion:
  assumes "rw_reach False n (l, ts)" "Writing \<in> set ts"
  shows "Reading \<notin> set ts \<and> count_list ts Writing = 1"
  using rw_inv_reach [OF assms(1)] assms(2) by (auto simp: rw_inv_def rw_cinv_def mem_count_list)

lemma rw_first_writer:
  "rw_reach tries 2 (rw_lock_init\<lparr>num_writers := 1\<rparr>, [Writing, Idle])"
proof -
  have "rw_step tries (rw_lock_init, replicate 2 Idle)
      (rw_lock_init\<lparr>num_writers := 1\<rparr>, (replicate 2 Idle)[0 := if True then Writing else WWait])"
    by (rule rw_step.write_acquire) code_simp+
  moreover have "(replicate 2 Idle)[0 := if True then Writing else WWait] = [Writing, Idle]" by code_simp
  ultimately show ?thesis using rw_reach.step [OF rw_reach.start] by metis
qed

theorem rw_mutual_exclusion_witness:
  "Reading \<notin> set [Writing, Idle] \<and> count_list [Writing, Idle] Writing = 1"
  using rw_mutual_exclusion [OF rw_first_writer] by simp

text \<open>
  C20: \<open>write_lock_try_acquire\<close> breaks the exclusion.  Two threads reach a state in
  which one holds the lock for reading and the other for writing: the try ignores the
  turn that \<open>write_lock_release\<close> has given to the reader it woke up.
\<close>

theorem rw_try_breaks_exclusion:
  "\<exists>l. rw_reach True 2 (l, [Writing, Reading])"
proof -
  let ?l1 = "rw_lock_init\<lparr>num_writers := 1\<rparr>"
  let ?l2 = "?l1\<lparr>pending_readers := 1\<rparr>"
  let ?l3 = "?l2\<lparr>num_writers := 0, reader_next := True\<rparr>"
  let ?l4 = "?l3\<lparr>num_writers := 1\<rparr>"
  let ?l5 = "?l4\<lparr>pending_readers := 0, num_readers := 1\<rparr>"
  have "rw_step True (?l1, [Writing, Idle]) (?l2, [Writing, Idle][1 := if False then Reading else RWait])"
    by (rule rw_step.read_acquire) code_simp+
  moreover have "rw_step True (?l2, [Writing, RWait]) (?l3, broadcast_can_read ([Writing, RWait][0 := Idle]))"
    by (rule rw_step.write_release_broadcast) code_simp+
  moreover have "rw_step True (?l3, [Idle, RWoken]) (?l4, [Idle, RWoken][0 := if True then Writing else Idle])"
    by (rule rw_step.write_try) code_simp+
  moreover have "rw_step True (?l4, [Writing, RWoken]) (?l5, [Writing, RWoken][1 := if True then Reading else RWait])"
    by (rule rw_step.read_wake) code_simp+
  ultimately have s: "rw_step True (?l1, [Writing, Idle]) (?l2, [Writing, RWait])"
      "rw_step True (?l2, [Writing, RWait]) (?l3, [Idle, RWoken])"
      "rw_step True (?l3, [Idle, RWoken]) (?l4, [Writing, RWoken])"
      "rw_step True (?l4, [Writing, RWoken]) (?l5, [Writing, Reading])"
    by (simp_all add: broadcast_can_read_def)
  show ?thesis
    using rw_reach.step [OF rw_reach.step [OF rw_reach.step [OF rw_reach.step [OF rw_first_writer s(1)] s(2)] s(3)] s(4)]
    by blast
qed

text \<open>
  C21: no deadlock and no failed assertion.  In every reachable state, also when
  \<open>write_lock_try_acquire\<close> is used, a thread sleeping in one of the condition
  variables has a thread that holds the lock or has already been woken; neither
  \<open>write_lock_acquire\<close> nor a holder's \<open>write_lock_release\<close> panics.
\<close>

theorem rw_no_deadlock:
  assumes "rw_reach tries n (l, ts)"
  shows "(RWait \<in> set ts \<or> WWait \<in> set ts \<longrightarrow> (\<exists>s\<in>set ts. s \<in> {Reading, Writing, RWoken, WWoken}))
    \<and> write_lock_acquire l \<noteq> Panic \<and> (Writing \<in> set ts \<longrightarrow> write_lock_release l \<noteq> Panic)"
proof -
  note inv = rw_inv_reach [OF assms]
  have "\<exists>s\<in>set ts. s \<in> {Reading, Writing, RWoken, WWoken}" if "RWait \<in> set ts \<or> WWait \<in> set ts"
  proof -
    have "0 < count_list ts Reading \<or> 0 < count_list ts Writing \<or> 0 < count_list ts RWoken
        \<or> 0 < count_list ts WWoken"
      using inv that unfolding rw_inv_def rw_cinv_def mem_count_list by simp linarith
    then show ?thesis by (auto simp flip: mem_count_list)
  qed
  moreover have "write_lock_acquire l \<noteq> Panic"
    using inv unfolding rw_inv_def rw_cinv_def
    by (simp add: write_lock_acquire_def write_blocked_def assert_def Let_def)
  moreover have "write_lock_release l \<noteq> Panic" if "Writing \<in> set ts"
    using inv that unfolding rw_inv_def rw_cinv_def mem_count_list
    by (simp add: write_lock_release_def assert_def Let_def)
  ultimately show ?thesis by blast
qed

theorem rw_no_deadlock_witness:
  "write_lock_release (rw_lock_init\<lparr>num_writers := 1\<rparr>) \<noteq> Panic"
  using rw_no_deadlock [OF rw_first_writer] by simp

end
