(* ===== verification/Cache.thy ===== *)
theory Cache
  imports BlockDev RwLock KQueue
begin

text \<open>
  The buffer cache of \<open>filesys/cache.c\<close>: 64 blocks in a list from the most to the
  least recently used, each with a read-write lock.  The file-system code runs as one
  thread here: a lock that is not free, or a search for a victim that finds every
  block pinned, does not return.  How threads compete for one block's lock is the
  subject of \<open>RwLock\<close>.
\<close>

section \<open>The data\<close>

definition MAX_CACHE_SIZE :: nat where
  "MAX_CACHE_SIZE = 64"

record cache_block =
  cb_sector :: u32
  cb_dirty :: bool
  cb_valid :: bool
  cb_data :: bytes
  cb_lock :: rw_lock

text \<open>
  A block is named by a number; \<open>blocks\<close> is the memory of the blocks, the two lists
  hold their names, front first.
\<close>

record cache =
  blocks :: "nat \<Rightarrow> cache_block"
  buffer_cache :: "nat list"
  free_cache :: "nat list"
  read_queue :: array_queue
  fs_device :: block

abbreviation upd_block :: "nat \<Rightarrow> (cache_block \<Rightarrow> cache_block) \<Rightarrow> cache \<Rightarrow> cache" where
  "upd_block i f c \<equiv> c\<lparr>blocks := (blocks c)(i := f (blocks c i))\<rparr>"

section \<open>The operations\<close>

text \<open>\<open>storage\<close> is what \<open>malloc\<close> returned for the data; \<open>None\<close> is the result \<open>false\<close>.\<close>

definition block_init :: "bytes option \<Rightarrow> cache_block option" where
  "block_init storage =
     (case storage of
        None \<Rightarrow> None
      | Some d \<Rightarrow> Some \<lparr>cb_sector = - 1, cb_dirty = False, cb_valid = False, cb_data = d, cb_lock = rw_lock_init\<rparr>)"

text \<open>
  The loop of \<open>cache_init\<close>: \<open>mem n\<close> is the storage the \<open>n\<close>-th round gets, \<open>None\<close> when
  one of its two allocations fails, upon which the thread exits.
\<close>

fun cache_init_loop :: "(nat \<Rightarrow> bytes option) \<Rightarrow> nat \<Rightarrow> nat \<Rightarrow> cache \<Rightarrow> cache outcome" where
  "cache_init_loop mem n 0 c = Ok c"
| "cache_init_loop mem n (Suc k) c =
     (case block_init (mem n) of
        None \<Rightarrow> Exit
      | Some b \<Rightarrow> cache_init_loop mem (Suc n) k
          (c\<lparr>blocks := (blocks c)(n := b), free_cache := n # free_cache c\<rparr>))"

definition cache_init :: "(nat \<Rightarrow> bytes option) \<Rightarrow> u32 list option \<Rightarrow> block \<Rightarrow> cache outcome" where
  "cache_init mem qstore dev =
     bind (queue_init (of_nat MAX_CACHE_SIZE) True qstore) (\<lambda>q.
     cache_init_loop mem 0 MAX_CACHE_SIZE
       \<lparr>blocks = (\<lambda>_. \<lparr>cb_sector = - 1, cb_dirty = False, cb_valid = False, cb_data = [], cb_lock = rw_lock_init\<rparr>),
        buffer_cache = [], free_cache = [], read_queue = q, fs_device = dev\<rparr>)"

definition cache_lookup :: "cache \<Rightarrow> u32 \<Rightarrow> nat option" where
  "cache_lookup c sector = List.find (\<lambda>i. cb_sector (blocks c i) = sector) (buffer_cache c)"

text \<open>
  The victim search goes from the back of the list; with every lock taken it goes
  around forever.
\<close>

definition evict_LRU_block :: "cache \<Rightarrow> u32 \<Rightarrow> (nat \<times> cache) outcome" where
  "evict_LRU_block c sector =
     (case List.find (\<lambda>i. fst (write_lock_try_acquire (cb_lock (blocks c i)))) (rev (buffer_cache c)) of
        None \<Rightarrow> Hang
      | Some victim \<Rightarrow>
          let c = upd_block victim (\<lambda>b. b\<lparr>cb_lock := snd (write_lock_try_acquire (cb_lock b))\<rparr>) c;
              v = blocks c victim
          in bind (if cb_dirty v then block_write (fs_device c) (cb_sector v) (cb_data v)
                   else Ok (fs_device c)) (\<lambda>dev.
             let c = upd_block victim (\<lambda>b. b\<lparr>cb_sector := sector, cb_valid := False, cb_dirty := False\<rparr>)
                       (c\<lparr>fs_device := dev\<rparr>)
             in bind (write_lock_release (cb_lock (blocks c victim))) (\<lambda>(_, l).
                Ok (victim, upd_block victim (\<lambda>b. b\<lparr>cb_lock := l\<rparr>) c))))"

text \<open>The two ways to take and to give back a block's lock.\<close>

definition lock_block :: "bool \<Rightarrow> rw_lock \<Rightarrow> rw_lock outcome" where
  "lock_block exclusive l =
     (if exclusive
      then bind (write_lock_acquire l) (\<lambda>(got, l). if got then Ok (l\<lparr>mode := WRITE_LOCKED\<rparr>) else Hang)
      else let (got, l) = read_lock_acquire l in if got then Ok (l\<lparr>mode := READ_LOCKED\<rparr>) else Hang)"

definition unlock_block :: "bool \<Rightarrow> rw_lock \<Rightarrow> rw_lock outcome" where
  "unlock_block exclusive l =
     (if exclusive then bind (write_lock_release l) (\<lambda>(_, l). Ok l) else Ok (read_lock_release l))"

text \<open>
  The block that will hold the sector: the one that does already, a free one, or a
  victim.
\<close>

definition reserve_block :: "cache \<Rightarrow> u32 \<Rightarrow> (nat \<times> cache) outcome" where
  "reserve_block c sector =
     (case cache_lookup c sector of
        Some i \<Rightarrow> Ok (i, c)
      | None \<Rightarrow>
          (case free_cache c of
             [] \<Rightarrow> evict_LRU_block c sector
           | i # _ \<Rightarrow> Ok (i, upd_block i (\<lambda>b. b\<lparr>cb_sector := sector\<rparr>) c)))"

definition most_recent :: "nat \<Rightarrow> cache \<Rightarrow> cache" where
  "most_recent i c =
     c\<lparr>buffer_cache := i # remove1 i (buffer_cache c), free_cache := remove1 i (free_cache c)\<rparr>"

text \<open>
  One round of the loop of \<open>cache_get_block\<close>, up to the test whether the block has
  been evicted meanwhile.
\<close>

definition get_block_round :: "cache \<Rightarrow> u32 \<Rightarrow> bool \<Rightarrow> (nat \<times> cache) outcome" where
  "get_block_round c sector exclusive =
     bind (reserve_block c sector) (\<lambda>(i, c).
     let c = most_recent i c
     in bind (lock_block exclusive (cb_lock (blocks c i))) (\<lambda>l.
        Ok (i, upd_block i (\<lambda>b. b\<lparr>cb_lock := l\<rparr>) c)))"

text \<open>The loop, at most \<open>rounds\<close> rounds of it.\<close>

fun get_block_loop :: "nat \<Rightarrow> cache \<Rightarrow> u32 \<Rightarrow> bool \<Rightarrow> (nat \<times> cache) outcome" where
  "get_block_loop 0 c sector exclusive = Hang"
| "get_block_loop (Suc rounds) c sector exclusive =
     bind (get_block_round c sector exclusive) (\<lambda>(i, c).
     if cb_sector (blocks c i) \<noteq> sector
     then let l = (cb_lock (blocks c i))\<lparr>mode := UNLOCKED\<rparr>
          in bind (unlock_block exclusive l) (\<lambda>l.
             get_block_loop rounds (upd_block i (\<lambda>b. b\<lparr>cb_lock := l\<rparr>) c) sector exclusive)
     else Ok (i, c))"

text \<open>With no other thread to evict the block in between, one round is enough.\<close>

definition cache_get_block :: "cache \<Rightarrow> u32 \<Rightarrow> bool \<Rightarrow> (nat \<times> cache) outcome" where
  "cache_get_block c sector exclusive = get_block_loop 2 c sector exclusive"

definition cache_put_block :: "cache \<Rightarrow> nat \<Rightarrow> cache outcome" where
  "cache_put_block c i =
     (let l = cb_lock (blocks c i) in
      if mode l = WRITE_LOCKED then
        bind (unlock_block True l) (\<lambda>l. Ok (upd_block i (\<lambda>b. b\<lparr>cb_lock := l\<rparr>) c))
      else if mode l = READ_LOCKED then
        bind (unlock_block False l) (\<lambda>l. Ok (upd_block i (\<lambda>b. b\<lparr>cb_lock := l\<rparr>) c))
      else Ok c)"

text \<open>\<open>cache_read_block\<close> returns the data the pointer it returns points to.\<close>

definition cache_read_block :: "cache \<Rightarrow> nat \<Rightarrow> (bytes \<times> cache) outcome" where
  "cache_read_block c i =
     (if \<not> cb_valid (blocks c i) then
        bind (block_read (fs_device c) (cb_sector (blocks c i))) (\<lambda>(d, dev).
        Ok (d, upd_block i (\<lambda>b. b\<lparr>cb_data := d, cb_valid := True\<rparr>) (c\<lparr>fs_device := dev\<rparr>)))
      else Ok (cb_data (blocks c i), c))"

definition cache_zero_block :: "cache \<Rightarrow> nat \<Rightarrow> cache" where
  "cache_zero_block c i =
     upd_block i (\<lambda>b. b\<lparr>cb_data := replicate BLOCK_SECTOR_SIZE 0, cb_dirty := True, cb_valid := True\<rparr>) c"

definition cache_mark_block_dirty :: "cache \<Rightarrow> nat \<Rightarrow> cache" where
  "cache_mark_block_dirty c i = upd_block i (\<lambda>b. b\<lparr>cb_dirty := True\<rparr>) c"

text \<open>A store through the pointer to the data of block \<open>i\<close>.\<close>

definition cache_store :: "cache \<Rightarrow> nat \<Rightarrow> bytes \<Rightarrow> cache" where
  "cache_store c i d = upd_block i (\<lambda>b. b\<lparr>cb_data := d\<rparr>) c"

definition cache_read_ahead :: "cache \<Rightarrow> u32 \<Rightarrow> cache outcome" where
  "cache_read_ahead c sector =
     (if sint sector < 0 then Ok c
      else bind (queue_enqueue (read_queue c) sector) (\<lambda>q. Ok (c\<lparr>read_queue := q\<rparr>)))"

text \<open>One round of the read-ahead daemon.\<close>

definition cache_read_ahead_daemon :: "cache \<Rightarrow> cache outcome" where
  "cache_read_ahead_daemon c =
     bind (queue_dequeue (read_queue c)) (\<lambda>(sector, q).
     bind (cache_get_block (c\<lparr>read_queue := q\<rparr>) sector False) (\<lambda>(i, c).
     bind (cache_read_block c i) (\<lambda>(_, c).
     cache_put_block c i)))"

definition flush_block :: "cache \<Rightarrow> nat \<Rightarrow> cache outcome" where
  "flush_block c i =
     (if cb_dirty (blocks c i) then
        (case write_lock_try_acquire (cb_lock (blocks c i)) of
           (False, _) \<Rightarrow> Ok c
         | (True, l) \<Rightarrow>
             let c = upd_block i (\<lambda>b. b\<lparr>cb_lock := l\<rparr>) c; b = blocks c i in
             bind (if cb_valid b \<and> cb_dirty b
                   then bind (block_write (fs_device c) (cb_sector b) (cb_data b)) (\<lambda>dev.
                        Ok (upd_block i (\<lambda>b. b\<lparr>cb_dirty := False\<rparr>) (c\<lparr>fs_device := dev\<rparr>)))
                   else Ok c) (\<lambda>c.
             bind (write_lock_release (cb_lock (blocks c i))) (\<lambda>(_, l).
             Ok (upd_block i (\<lambda>b. b\<lparr>cb_lock := l\<rparr>) c))))
      else Ok c)"

fun flush_loop :: "cache \<Rightarrow> nat list \<Rightarrow> cache outcome" where
  "flush_loop c [] = Ok c"
| "flush_loop c (i # is) = bind (flush_block c i) (\<lambda>c. flush_loop c is)"

definition cache_flush :: "cache \<Rightarrow> cache outcome" where
  "cache_flush c = flush_loop c (rev (buffer_cache c))"

section \<open>The invariant and the view\<close>

text \<open>The lock of a block that is free, shared once or held exclusively.\<close>

definition lock_state :: "bool option \<Rightarrow> rw_lock \<Rightarrow> bool" where
  "lock_state p l \<longleftrightarrow> pending_readers l = 0 \<and> \<not> pending_writer l \<and> \<not> reader_next l
     \<and> num_readers l = (if p = Some False then 1 else 0)
     \<and> num_writers l = (if p = Some True then 1 else 0)
     \<and> (p = Some False \<longrightarrow> mode l = READ_LOCKED) \<and> (p = Some True \<longrightarrow> mode l = WRITE_LOCKED)"

text \<open>
  \<open>P\<close> says which blocks are pinned, and whether exclusively.  No sector is cached
  twice; a clean valid block that is not being modified agrees with the medium.
\<close>

definition block_ok :: "block \<Rightarrow> bool option \<Rightarrow> cache_block \<Rightarrow> bool" where
  "block_ok dev p b \<longleftrightarrow> cb_sector b < b_size dev \<and> (cb_dirty b \<longrightarrow> cb_valid b)
     \<and> (cb_valid b \<and> \<not> cb_dirty b \<and> p \<noteq> Some True \<longrightarrow> cb_data b = b_media dev (cb_sector b))"

definition device_ok :: "block \<Rightarrow> bool" where
  "device_ok dev \<longleftrightarrow> b_type dev \<noteq> BLOCK_FOREIGN \<and> (\<forall>s. length (b_media dev s) = BLOCK_SECTOR_SIZE)"

definition cinv :: "cache \<Rightarrow> (nat \<rightharpoonup> bool) \<Rightarrow> bool" where
  "cinv c P \<longleftrightarrow>
     distinct (buffer_cache c @ free_cache c)
     \<and> length (buffer_cache c @ free_cache c) = MAX_CACHE_SIZE
     \<and> inj_on (\<lambda>i. cb_sector (blocks c i)) (set (buffer_cache c))
     \<and> dom P \<subseteq> set (buffer_cache c)
     \<and> (\<forall>i\<in>set (buffer_cache c @ free_cache c).
          lock_state (P i) (cb_lock (blocks c i)) \<and> length (cb_data (blocks c i)) = BLOCK_SECTOR_SIZE)
     \<and> (\<forall>i\<in>set (free_cache c). \<not> cb_dirty (blocks c i) \<and> \<not> cb_valid (blocks c i))
     \<and> (\<forall>i\<in>set (buffer_cache c). block_ok (fs_device c) (P i) (blocks c i))
     \<and> device_ok (fs_device c)
     \<and> queue_inv (read_queue c) \<and> q_discard_mode (read_queue c)"

text \<open>Block \<open>i\<close> holds the current contents of sector \<open>s\<close>.\<close>

definition holds :: "cache \<Rightarrow> nat \<Rightarrow> u32 \<Rightarrow> bool" where
  "holds c i s \<longleftrightarrow> i \<in> set (buffer_cache c) \<and> cb_sector (blocks c i) = s \<and> cb_valid (blocks c i)"

text \<open>What a reader of sector \<open>s\<close> sees: the specification of the cache is that all
  its operations but the writes leave this function alone.\<close>

definition cview :: "cache \<Rightarrow> u32 \<Rightarrow> bytes" where
  "cview c s =
     (case cache_lookup c s of
        Some i \<Rightarrow> if cb_valid (blocks c i) then cb_data (blocks c i) else b_media (fs_device c) s
      | None \<Rightarrow> b_media (fs_device c) s)"

lemma find_SomeD: "List.find P xs = Some x \<Longrightarrow> x \<in> set xs \<and> P x"
  by (induction xs) (auto split: if_splits)

lemma cache_lookup_Some:
  assumes "cinv c P"
  shows "cache_lookup c s = Some i \<longleftrightarrow> i \<in> set (buffer_cache c) \<and> cb_sector (blocks c i) = s"
proof
  show "cache_lookup c s = Some i \<Longrightarrow> i \<in> set (buffer_cache c) \<and> cb_sector (blocks c i) = s"
    by (auto simp: cache_lookup_def dest: find_SomeD)
next
  assume i: "i \<in> set (buffer_cache c) \<and> cb_sector (blocks c i) = s"
  then obtain j where j: "cache_lookup c s = Some j"
    by (cases "cache_lookup c s") (auto simp: cache_lookup_def find_None_iff)
  then have "j \<in> set (buffer_cache c) \<and> cb_sector (blocks c j) = s"
    by (auto simp: cache_lookup_def dest: find_SomeD)
  with i assms have "j = i" by (auto simp: cinv_def inj_on_def)
  with j show "cache_lookup c s = Some i" by simp
qed

lemma cache_lookup_None:
  "cache_lookup c s = None \<longleftrightarrow> (\<forall>i\<in>set (buffer_cache c). cb_sector (blocks c i) \<noteq> s)"
  by (auto simp: cache_lookup_def find_None_iff)

lemma cview_held: "cinv c P \<Longrightarrow> holds c i s \<Longrightarrow> cview c s = cb_data (blocks c i)"
  using cache_lookup_Some [of c P s i] by (simp add: cview_def holds_def)

lemma cview_free: "(\<And>i. \<not> holds c i s) \<Longrightarrow> cview c s = b_media (fs_device c) s"
  by (auto simp: cview_def holds_def cache_lookup_def split: option.splits dest!: find_SomeD)

lemma cview_cong:
  assumes "cinv c P" "cinv c' P'"
    and "\<And>s i. holds c i s \<Longrightarrow> holds c' i s \<and> cb_data (blocks c' i) = cb_data (blocks c i)
      \<or> (\<forall>j. \<not> holds c' j s) \<and> b_media (fs_device c') s = cb_data (blocks c i)"
    and "\<And>s. (\<forall>i. \<not> holds c i s) \<Longrightarrow> (\<exists>j. holds c' j s \<and> cb_data (blocks c' j) = b_media (fs_device c) s)
      \<or> (\<forall>j. \<not> holds c' j s) \<and> b_media (fs_device c') s = b_media (fs_device c) s"
  shows "cview c' = cview c"
proof
  fix s
  show "cview c' s = cview c s"
  proof (cases "\<exists>i. holds c i s")
    case True
    then obtain i where i: "holds c i s" by blast
    with assms(3) [of i s] show ?thesis
      using cview_held [OF assms(1) i] cview_held [OF assms(2), of i s] cview_free [of c' s] by auto
  next
    case False
    with assms(4) [of s] show ?thesis
      using cview_free [of c s] cview_held [OF assms(2), of _ s] cview_free [of c' s] by auto
  qed
qed

section \<open>Reserving a block\<close>

text \<open>The contents of block \<open>i\<close> are not lost when the block is given up.\<close>

definition settled :: "cache \<Rightarrow> nat \<Rightarrow> bool" where
  "settled c i \<longleftrightarrow> (cb_valid (blocks c i) \<longrightarrow>
     cb_dirty (blocks c i) \<or> cb_data (blocks c i) = b_media (fs_device c) (cb_sector (blocks c i)))"

text \<open>The parts of the cache an operation on block \<open>i\<close> leaves alone.\<close>

definition others_same :: "nat \<Rightarrow> cache \<Rightarrow> cache \<Rightarrow> bool" where
  "others_same i c c' \<longleftrightarrow> b_size (fs_device c') = b_size (fs_device c)
     \<and> set (buffer_cache c) \<subseteq> set (buffer_cache c')
     \<and> (\<forall>j. j \<noteq> i \<longrightarrow> blocks c' j = blocks c j
          \<and> (j \<in> set (buffer_cache c) \<and> settled c j \<longrightarrow> settled c' j))"

lemma others_same_media:
  "(\<And>j. j \<noteq> i \<Longrightarrow> blocks c' j = blocks c j) \<Longrightarrow> b_media (fs_device c') = b_media (fs_device c) \<Longrightarrow>
     b_size (fs_device c') = b_size (fs_device c) \<Longrightarrow> set (buffer_cache c) \<subseteq> set (buffer_cache c') \<Longrightarrow>
     others_same i c c'"
  by (simp add: others_same_def settled_def)

lemma others_same_trans: "others_same i c c' \<Longrightarrow> others_same i c' c'' \<Longrightarrow> others_same i c c''"
  by (auto simp: others_same_def)

text \<open>
  What a reservation of a block for sector \<open>s\<close> gives: an unpinned block \<open>i\<close> that
  caches \<open>s\<close>, everything else as before.
\<close>

definition reserved :: "cache \<Rightarrow> (nat \<rightharpoonup> bool) \<Rightarrow> u32 \<Rightarrow> nat \<Rightarrow> cache \<Rightarrow> bool" where
  "reserved c P s i c' \<longleftrightarrow> cinv c' P \<and> P i = None \<and> i \<in> set (buffer_cache c')
     \<and> cb_sector (blocks c' i) = s \<and> cview c' = cview c
     \<and> others_same i c c'"

lemma insert_set_remove1: "i \<in> set xs \<Longrightarrow> insert i (set (remove1 i xs)) = set xs"
  by (induction xs) auto

lemma most_recent_simps [simp]:
  "blocks (most_recent i c) = blocks c" "fs_device (most_recent i c) = fs_device c"
  "read_queue (most_recent i c) = read_queue c"
  "i \<in> set (buffer_cache c) \<Longrightarrow> set (buffer_cache (most_recent i c)) = set (buffer_cache c)"
  "i \<notin> set (free_cache c) \<Longrightarrow> free_cache (most_recent i c) = free_cache c"
  by (simp_all add: most_recent_def remove1_idem insert_set_remove1)

lemma most_recent_lists:
  assumes "distinct (buffer_cache c @ free_cache c)" "i \<in> set (buffer_cache c)"
  shows "distinct (buffer_cache (most_recent i c) @ free_cache (most_recent i c))"
    "length (buffer_cache (most_recent i c) @ free_cache (most_recent i c))
      = length (buffer_cache c @ free_cache c)"
proof -
  have "0 < length (buffer_cache c)" using assms(2) by (cases "buffer_cache c") auto
  moreover have "i \<notin> set (free_cache c)" using assms by auto
  ultimately show "distinct (buffer_cache (most_recent i c) @ free_cache (most_recent i c))"
      "length (buffer_cache (most_recent i c) @ free_cache (most_recent i c))
        = length (buffer_cache c @ free_cache c)"
    using assms set_remove1_subset [of i "buffer_cache c"]
    by (auto simp: most_recent_def remove1_idem length_remove1 distinct_remove1)
qed

lemma cinv_most_recent:
  assumes "cinv c P" "i \<in> set (buffer_cache c)"
  shows "cinv (most_recent i c) P" "cview (most_recent i c) = cview c"
proof -
  have d: "distinct (buffer_cache c @ free_cache c)" "i \<notin> set (free_cache c)"
    using assms by (auto simp: cinv_def)
  show inv: "cinv (most_recent i c) P"
    using assms most_recent_lists [OF d(1) assms(2)] d(2) unfolding cinv_def by auto
  show "cview (most_recent i c) = cview c"
    by (rule cview_cong [OF assms(1) inv]) (use assms(2) in \<open>auto simp: holds_def\<close>)
qed

lemma reserve_hit:
  assumes "cinv c P" "\<forall>i\<in>dom P. cb_sector (blocks c i) \<noteq> s" "cache_lookup c s = Some i"
  shows "reserved c P s i (most_recent i c)"
proof -
  have "i \<in> set (buffer_cache c)" "cb_sector (blocks c i) = s"
    using assms(3) cache_lookup_Some [OF assms(1)] by auto
  with cinv_most_recent [OF assms(1)] assms(2) show ?thesis
    by (auto simp: reserved_def domIff intro: others_same_media)
qed

text \<open>A block that leaves the free list starts out invalid.\<close>

lemma reserve_free:
  assumes inv: "cinv c P" and "s < b_size (fs_device c)" "cache_lookup c s = None" "free_cache c = i # is"
  shows "reserved c P s i (most_recent i (upd_block i (\<lambda>b. b\<lparr>cb_sector := s\<rparr>) c))"
proof -
  let ?c = "most_recent i (upd_block i (\<lambda>b. b\<lparr>cb_sector := s\<rparr>) c)"
  have i: "i \<notin> set (buffer_cache c)" "i \<notin> set is" "\<not> cb_dirty (blocks c i)" "\<not> cb_valid (blocks c i)"
    using assms by (auto simp: cinv_def)
  then have P: "P i = None" using inv by (auto simp: cinv_def)
  have l: "buffer_cache ?c = i # buffer_cache c" "free_cache ?c = is"
    using i assms(4) by (auto simp: most_recent_def remove1_idem)
  have new: "\<forall>j\<in>set (buffer_cache c). cb_sector (blocks c j) \<noteq> s" using assms(3) by (simp add: cache_lookup_None)
  have "inj_on (\<lambda>j. cb_sector (blocks ?c j)) (set (buffer_cache ?c))"
    using inv new i(1) unfolding l by (auto simp: cinv_def inj_on_def)
  then have inv': "cinv ?c P"
    using inv i assms(2,4) P unfolding cinv_def l by (auto simp: block_ok_def)
  moreover have "cview ?c = cview c"
    by (rule cview_cong [OF inv inv']) (use i new in \<open>auto simp: holds_def l\<close>)
  moreover have "others_same i c ?c" by (rule others_same_media) (auto simp: l)
  ultimately show ?thesis using P by (simp add: reserved_def l)
qed

text \<open>A free lock can be taken exclusively and given back unchanged.\<close>

lemma try_acquire_iff: "lock_state p l \<Longrightarrow> fst (write_lock_try_acquire l) \<longleftrightarrow> p = None"
  by (cases p) (auto simp: lock_state_def write_lock_try_acquire_def)

lemma try_then_release:
  assumes "lock_state None l"
  shows "write_lock_release (snd (write_lock_try_acquire l)) = Ok (Signal_can_write, l)"
  using assms by (simp add: lock_state_def write_lock_try_acquire_def write_lock_release_def Let_def)

lemma victim_exists:
  assumes "cinv c P" "free_cache c = []" "card (dom P) < MAX_CACHE_SIZE"
  shows "\<exists>v. List.find (\<lambda>i. fst (write_lock_try_acquire (cb_lock (blocks c i)))) (rev (buffer_cache c)) = Some v
    \<and> v \<in> set (buffer_cache c) \<and> P v = None"
proof -
  have "card (set (buffer_cache c)) = MAX_CACHE_SIZE" using assms(1,2) by (simp add: cinv_def distinct_card)
  moreover have "dom P \<subseteq> set (buffer_cache c)" using assms(1) by (simp add: cinv_def)
  moreover from this assms(3) have "dom P \<noteq> set (buffer_cache c)" using calculation(1) by force
  ultimately obtain w where "w \<in> set (buffer_cache c)" "w \<notin> dom P" by blast
  then have w: "w \<in> set (buffer_cache c)" "P w = None" by auto
  have iff: "fst (write_lock_try_acquire (cb_lock (blocks c i))) \<longleftrightarrow> P i = None" if "i \<in> set (buffer_cache c)" for i
    using that assms(1) by (intro try_acquire_iff) (auto simp: cinv_def)
  with w obtain v where "List.find (\<lambda>i. fst (write_lock_try_acquire (cb_lock (blocks c i)))) (rev (buffer_cache c)) = Some v"
    by (cases "List.find (\<lambda>i. fst (write_lock_try_acquire (cb_lock (blocks c i)))) (rev (buffer_cache c))")
      (auto simp: find_None_iff)
  with iff find_SomeD [OF this] show ?thesis by auto
qed

lemma evict_LRU_block_eq:
  assumes inv: "cinv c P" and v: "v \<in> set (buffer_cache c)" "P v = None"
    and find: "List.find (\<lambda>i. fst (write_lock_try_acquire (cb_lock (blocks c i)))) (rev (buffer_cache c)) = Some v"
  obtains dev where
    "evict_LRU_block c s = Ok (v, upd_block v (\<lambda>b. b\<lparr>cb_sector := s, cb_valid := False, cb_dirty := False\<rparr>)
       (c\<lparr>fs_device := dev\<rparr>))"
    "b_size dev = b_size (fs_device c)" "b_type dev = b_type (fs_device c)"
    "b_media dev = (if cb_dirty (blocks c v)
       then (b_media (fs_device c))(cb_sector (blocks c v) := cb_data (blocks c v)) else b_media (fs_device c))"
proof -
  have ls: "lock_state None (cb_lock (blocks c v))" using inv v by (auto simp: cinv_def dest: bspec [of _ _ v])
  have ok: "cb_sector (blocks c v) < b_size (fs_device c)" "b_type (fs_device c) \<noteq> BLOCK_FOREIGN"
    using inv v by (auto simp: cinv_def block_ok_def device_ok_def)
  define dev where "dev = (if cb_dirty (blocks c v)
    then (fs_device c)\<lparr>b_media := (b_media (fs_device c))(cb_sector (blocks c v) := cb_data (blocks c v)),
      b_write_cnt := b_write_cnt (fs_device c) + 1\<rparr> else fs_device c)"
  have "evict_LRU_block c s = Ok (v, upd_block v (\<lambda>b. b\<lparr>cb_sector := s, cb_valid := False, cb_dirty := False\<rparr>)
       (c\<lparr>fs_device := dev\<rparr>))"
    using find ok try_then_release [OF ls]
    by (cases "blocks c v") (simp add: evict_LRU_block_def Let_def dev_def block_write_eq_Ok)
  then show thesis using that by (simp add: dev_def)
qed

lemma reserve_evict:
  assumes inv: "cinv c P" and "s < b_size (fs_device c)" "cache_lookup c s = None" "free_cache c = []"
    "card (dom P) < MAX_CACHE_SIZE"
  shows "\<exists>i c1. evict_LRU_block c s = Ok (i, c1) \<and> reserved c P s i (most_recent i c1)"
proof -
  from victim_exists [OF inv assms(4,5)] obtain v where
    find: "List.find (\<lambda>i. fst (write_lock_try_acquire (cb_lock (blocks c i)))) (rev (buffer_cache c)) = Some v"
    and v: "v \<in> set (buffer_cache c)" "P v = None" by blast
  from evict_LRU_block_eq [OF inv v find, of s] obtain dev where
    e: "evict_LRU_block c s = Ok (v, upd_block v (\<lambda>b. b\<lparr>cb_sector := s, cb_valid := False, cb_dirty := False\<rparr>)
          (c\<lparr>fs_device := dev\<rparr>))"
      "b_size dev = b_size (fs_device c)" "b_type dev = b_type (fs_device c)"
      "b_media dev = (if cb_dirty (blocks c v)
        then (b_media (fs_device c))(cb_sector (blocks c v) := cb_data (blocks c v)) else b_media (fs_device c))"
    by blast
  let ?c1 = "upd_block v (\<lambda>b. b\<lparr>cb_sector := s, cb_valid := False, cb_dirty := False\<rparr>) (c\<lparr>fs_device := dev\<rparr>)"
  have new: "\<forall>j\<in>set (buffer_cache c). cb_sector (blocks c j) \<noteq> s" using assms(3) by (simp add: cache_lookup_None)
  have inj: "cb_sector (blocks c j) \<noteq> cb_sector (blocks c v)" if "j \<in> set (buffer_cache c)" "j \<noteq> v" for j
    using inv that v by (auto simp: cinv_def inj_on_def)
  have dv: "cb_valid (blocks c v)" if "cb_dirty (blocks c v)" using inv v that by (auto simp: cinv_def block_ok_def)
  have clean: "cb_data (blocks c v) = b_media dev (cb_sector (blocks c v))" if "cb_valid (blocks c v)"
    using inv v that by (auto simp: cinv_def block_ok_def e(4))
  have media: "b_media dev x = b_media (fs_device c) x" if "x \<noteq> cb_sector (blocks c v)" for x
    using that by (simp add: e(4))
  have "inj_on (\<lambda>j. cb_sector (blocks ?c1 j)) (set (buffer_cache ?c1))"
    using inv new by (auto simp: cinv_def inj_on_def)
  moreover have "device_ok dev" using inv v by (auto simp: cinv_def device_ok_def e)
  ultimately have inv1: "cinv ?c1 P"
    using inv assms(2) inj media unfolding cinv_def by (auto simp: block_ok_def e(2))
  have "cview ?c1 = cview c"
  proof (rule cview_cong [OF inv inv1])
    fix x i
    assume h: "holds c i x"
    show "holds ?c1 i x \<and> cb_data (blocks ?c1 i) = cb_data (blocks c i)
        \<or> (\<forall>j. \<not> holds ?c1 j x) \<and> b_media (fs_device ?c1) x = cb_data (blocks c i)"
      using h inj clean new v by (cases "i = v") (auto simp: holds_def)
  next
    fix x
    assume n: "\<forall>i. \<not> holds c i x"
    have "b_media dev x = b_media (fs_device c) x"
      using n v dv by (auto simp: e(4) holds_def)
    with n show "(\<exists>j. holds ?c1 j x \<and> cb_data (blocks ?c1 j) = b_media (fs_device c) x)
        \<or> (\<forall>j. \<not> holds ?c1 j x) \<and> b_media (fs_device ?c1) x = b_media (fs_device c) x"
      by (auto simp: holds_def)
  qed
  moreover have "others_same v c (most_recent v ?c1)"
    using inj media v by (auto simp: others_same_def settled_def e(2))
  ultimately have "reserved c P s v (most_recent v ?c1)"
    using cinv_most_recent [OF inv1, of v] v by (simp add: reserved_def)
  with e(1) show ?thesis by blast
qed

lemma reserve_block_spec:
  assumes "cinv c P" "s < b_size (fs_device c)" "\<forall>i\<in>dom P. cb_sector (blocks c i) \<noteq> s"
    "card (dom P) < MAX_CACHE_SIZE"
  shows "\<exists>i c1. reserve_block c s = Ok (i, c1) \<and> reserved c P s i (most_recent i c1)"
  using reserve_hit [OF assms(1,3)] reserve_free [OF assms(1,2)] reserve_evict [OF assms(1,2) _ _ assms(4)]
  by (auto simp: reserve_block_def split: option.splits list.splits)

section \<open>The operations on a pinned block\<close>

lemma cinv_bufD:
  assumes "cinv c P" "i \<in> set (buffer_cache c)"
  shows "lock_state (P i) (cb_lock (blocks c i))" "block_ok (fs_device c) (P i) (blocks c i)"
    "length (cb_data (blocks c i)) = BLOCK_SECTOR_SIZE" "device_ok (fs_device c)" "i \<notin> set (free_cache c)"
  using assms by (auto simp: cinv_def)

lemma cinv_pinD:
  assumes "cinv c P" "P i = Some e"
  shows "i \<in> set (buffer_cache c)" "lock_state (Some e) (cb_lock (blocks c i))"
    "block_ok (fs_device c) (Some e) (blocks c i)" "length (cb_data (blocks c i)) = BLOCK_SECTOR_SIZE"
    "device_ok (fs_device c)"
proof -
  show i: "i \<in> set (buffer_cache c)" using assms by (auto simp: cinv_def)
  show "lock_state (Some e) (cb_lock (blocks c i))" "block_ok (fs_device c) (Some e) (blocks c i)"
      "length (cb_data (blocks c i)) = BLOCK_SECTOR_SIZE" "device_ok (fs_device c)"
    using cinv_bufD [OF assms(1) i] assms(2) by simp_all
qed

lemma lock_block_ok:
  assumes "lock_state None l"
  shows "\<exists>l'. lock_block e l = Ok l' \<and> lock_state (Some e) l'"
  using assms
  by (cases e) (auto simp: lock_block_def lock_state_def write_lock_acquire_def write_blocked_def
      read_lock_acquire_def read_blocked_def)

lemma unlock_block_ok:
  assumes "lock_state (Some e) l"
  shows "\<exists>l'. unlock_block e l = Ok l' \<and> lock_state None l'"
  using assms
  by (cases e) (auto simp: unlock_block_def lock_state_def write_lock_release_def read_lock_release_def Let_def)

text \<open>Replacing one block, and changing its pin with it.\<close>

lemma cinv_upd_block:
  assumes inv: "cinv c P" and i: "i \<in> set (buffer_cache c)"
    and b: "cb_sector b = cb_sector (blocks c i)" "lock_state p (cb_lock b)" "block_ok (fs_device c) p b"
      "length (cb_data b) = BLOCK_SECTOR_SIZE"
  shows "cinv (c\<lparr>blocks := (blocks c)(i := b)\<rparr>) (P(i := p))"
proof -
  have "i \<notin> set (free_cache c)" using cinv_bufD [OF inv i] by simp
  moreover have "cb_sector (((blocks c)(i := b)) j) = cb_sector (blocks c j)" for j using b(1) by simp
  moreover have "dom (P(i := p)) \<subseteq> set (buffer_cache c)"
    using inv i by (cases p) (auto simp: cinv_def)
  ultimately show ?thesis
    using inv b(2-4) unfolding cinv_def by (auto simp del: fun_upd_apply) (auto split: if_splits)
qed

lemma cview_upd_block:
  assumes inv: "cinv c P" and i: "i \<in> set (buffer_cache c)"
    and inv': "cinv (c\<lparr>blocks := (blocks c)(i := b)\<rparr>) P'"
    and b: "cb_sector b = cb_sector (blocks c i)" "cb_valid b"
  shows "cview (c\<lparr>blocks := (blocks c)(i := b)\<rparr>) = (cview c)(cb_sector (blocks c i) := cb_data b)"
proof
  fix s
  let ?c = "c\<lparr>blocks := (blocks c)(i := b)\<rparr>"
  show "cview ?c s = ((cview c)(cb_sector (blocks c i) := cb_data b)) s"
  proof (cases "s = cb_sector (blocks c i)")
    case True
    then have "holds ?c i s" using i b by (simp add: holds_def)
    with True cview_held [OF inv'] show ?thesis by simp
  next
    case False
    then have "cache_lookup ?c s = cache_lookup c s"
      using b(1) unfolding cache_lookup_def by (intro find_cong) auto
    moreover have "cache_lookup c s \<noteq> Some i" using False cache_lookup_Some [OF inv, of s i] by auto
    ultimately show ?thesis using False by (auto simp: cview_def split: option.splits)
  qed
qed

lemma cview_same_data:
  assumes inv: "cinv c P" and inv': "cinv (c\<lparr>blocks := (blocks c)(i := b)\<rparr>) P'"
    and b: "cb_sector b = cb_sector (blocks c i)" "cb_valid b = cb_valid (blocks c i)"
      "cb_data b = cb_data (blocks c i)"
  shows "cview (c\<lparr>blocks := (blocks c)(i := b)\<rparr>) = cview c"
  by (rule cview_cong [OF inv inv']) (use b in \<open>auto simp: holds_def\<close>)

lemma cinv_set_lock:
  assumes "cinv c P" "i \<in> set (buffer_cache c)" "lock_state p l" "P i = None \<or> p = None \<and> settled c i"
  shows "cinv (upd_block i (\<lambda>b. b\<lparr>cb_lock := l\<rparr>) c) (P(i := p))"
    "cview (upd_block i (\<lambda>b. b\<lparr>cb_lock := l\<rparr>) c) = cview c"
proof -
  have "block_ok (fs_device c) p ((blocks c i)\<lparr>cb_lock := l\<rparr>)"
    using cinv_bufD(2) [OF assms(1,2)] assms(4) by (auto simp: block_ok_def settled_def)
  then show inv: "cinv (upd_block i (\<lambda>b. b\<lparr>cb_lock := l\<rparr>) c) (P(i := p))"
    using cinv_bufD [OF assms(1,2)] assms by (intro cinv_upd_block) simp_all
  show "cview (upd_block i (\<lambda>b. b\<lparr>cb_lock := l\<rparr>) c) = cview c"
    by (rule cview_same_data [OF assms(1) inv]) simp_all
qed

text \<open>What \<open>cache_get_block\<close> returns.\<close>

definition got :: "cache \<Rightarrow> (nat \<rightharpoonup> bool) \<Rightarrow> u32 \<Rightarrow> bool \<Rightarrow> nat \<Rightarrow> cache \<Rightarrow> bool" where
  "got c P s e i c' \<longleftrightarrow> cinv c' (P(i \<mapsto> e)) \<and> P i = None \<and> cb_sector (blocks c' i) = s
     \<and> cview c' = cview c \<and> settled c' i \<and> others_same i c c'"

lemma cache_get_block_spec:
  assumes "cinv c P" "s < b_size (fs_device c)" "\<forall>i\<in>dom P. cb_sector (blocks c i) \<noteq> s"
    "card (dom P) < MAX_CACHE_SIZE"
  shows "\<exists>i c'. cache_get_block c s e = Ok (i, c') \<and> got c P s e i c'"
proof -
  from reserve_block_spec [OF assms] obtain i c1 where
    r: "reserve_block c s = Ok (i, c1)" "reserved c P s i (most_recent i c1)" by blast
  let ?c2 = "most_recent i c1"
  from r(2) have i: "cinv ?c2 P" "i \<in> set (buffer_cache ?c2)" "P i = None" "cb_sector (blocks ?c2 i) = s"
      "cview ?c2 = cview c" "others_same i c ?c2"
    by (simp_all add: reserved_def)
  then have "lock_state None (cb_lock (blocks ?c2 i))" "block_ok (fs_device ?c2) None (blocks ?c2 i)"
    using cinv_bufD [OF i(1,2)] by simp_all
  from this(2) lock_block_ok [OF this(1), of e] obtain l where
    l: "lock_block e (cb_lock (blocks ?c2 i)) = Ok l" "lock_state (Some e) l" and s: "settled ?c2 i"
    by (auto simp: block_ok_def settled_def)
  let ?c3 = "upd_block i (\<lambda>b. b\<lparr>cb_lock := l\<rparr>) ?c2"
  have "get_block_round c s e = Ok (i, ?c3)" using r(1) l(1) by (simp add: get_block_round_def Let_def)
  then have "cache_get_block c s e = Ok (i, ?c3)"
    using i(4) by (simp add: cache_get_block_def numeral_2_eq_2)
  moreover have "got c P s e i ?c3"
    using cinv_set_lock [OF i(1,2) l(2)] i s by (auto simp: got_def settled_def others_same_def)
  ultimately show ?thesis by blast
qed

lemma cache_put_block_spec:
  assumes "cinv c P" "P i = Some e" "settled c i"
  shows "\<exists>c'. cache_put_block c i = Ok c' \<and> cinv c' (P(i := None)) \<and> cview c' = cview c \<and> others_same i c c'"
proof -
  note p = cinv_pinD [OF assms(1,2)]
  from unlock_block_ok [OF p(2)] obtain l where
    l: "unlock_block e (cb_lock (blocks c i)) = Ok l" "lock_state None l" by blast
  have "cache_put_block c i = Ok (upd_block i (\<lambda>b. b\<lparr>cb_lock := l\<rparr>) c)"
    using p(2) l(1) by (cases e) (auto simp: cache_put_block_def lock_state_def Let_def)
  with cinv_set_lock [OF assms(1) p(1) l(2)] assms(3) show ?thesis by (auto intro: others_same_media)
qed

lemma cinv_device:
  assumes "cinv c P" "b_media dev = b_media (fs_device c)" "b_size dev = b_size (fs_device c)"
    "b_type dev = b_type (fs_device c)"
  shows "cinv (c\<lparr>fs_device := dev\<rparr>) P" "cview (c\<lparr>fs_device := dev\<rparr>) = cview c"
  using assms by (simp_all add: cinv_def block_ok_def device_ok_def cview_def cache_lookup_def fun_eq_iff split: option.split)

lemma cview_pinned:
  assumes "cinv c P" "P i = Some e"
  shows "cview c (cb_sector (blocks c i)) =
    (if cb_valid (blocks c i) then cb_data (blocks c i) else b_media (fs_device c) (cb_sector (blocks c i)))"
  using cache_lookup_Some [OF assms(1), of "cb_sector (blocks c i)" i] cinv_pinD(1) [OF assms]
  by (simp add: cview_def)

text \<open>\<open>cache_read_block\<close> returns the view of the block's sector.\<close>

lemma cache_read_block_spec:
  assumes inv: "cinv c P" and pin: "P i = Some e"
  defines "s \<equiv> cb_sector (blocks c i)"
  shows "\<exists>c'. cache_read_block c i = Ok (cview c s, c') \<and> cinv c' P \<and> cview c' = cview c
    \<and> cb_valid (blocks c' i) \<and> cb_data (blocks c' i) = cview c s \<and> cb_sector (blocks c' i) = s
    \<and> (settled c i \<longrightarrow> settled c' i) \<and> others_same i c c'"
proof (cases "cb_valid (blocks c i)")
  case True
  then show ?thesis
    using inv cview_pinned [OF inv pin] by (simp add: cache_read_block_def s_def others_same_media)
next
  case False
  note p = cinv_pinD [OF inv pin]
  let ?d = "b_media (fs_device c) s"
  let ?dev = "(fs_device c)\<lparr>b_read_cnt := b_read_cnt (fs_device c) + 1\<rparr>"
  let ?c1 = "c\<lparr>fs_device := ?dev\<rparr>"
  let ?b = "(blocks c i)\<lparr>cb_data := ?d, cb_valid := True\<rparr>"
  have 1: "cinv ?c1 P" "cview ?c1 = cview c" using cinv_device [OF inv, of ?dev] by simp_all
  have i: "i \<in> set (buffer_cache ?c1)" "cb_sector ?b = cb_sector (blocks ?c1 i)" "cb_valid ?b" using p(1) by simp_all
  have "cinv (?c1\<lparr>blocks := (blocks ?c1)(i := ?b)\<rparr>) (P(i := Some e))"
    using p by (intro cinv_upd_block [OF 1(1)]) (simp_all add: block_ok_def device_ok_def s_def)
  then have inv2: "cinv (?c1\<lparr>blocks := (blocks ?c1)(i := ?b)\<rparr>) P" using pin by (simp add: fun_upd_idem)
  have v: "cview c s = ?d" using cview_pinned [OF inv pin] False by (simp add: s_def)
  have "cview (?c1\<lparr>blocks := (blocks ?c1)(i := ?b)\<rparr>) = cview c"
    using cview_upd_block [OF 1(1) i(1) inv2 i(2,3)] v 1(2) by (simp add: s_def fun_upd_idem)
  moreover have "cache_read_block c i = Ok (?d, ?c1\<lparr>blocks := (blocks ?c1)(i := ?b)\<rparr>)"
    using False p(3) by (simp add: cache_read_block_def block_read_eq_Ok block_ok_def s_def)
  ultimately show ?thesis using inv2 v by (simp add: settled_def others_same_media s_def)
qed

text \<open>A store through the data pointer of an exclusively held block.\<close>

lemma cache_store_spec:
  assumes inv: "cinv c P" and pin: "P i = Some True" and "cb_valid (blocks c i)" "length d = BLOCK_SECTOR_SIZE"
  shows "cinv (cache_store c i d) P"
    "cview (cache_store c i d) = (cview c)(cb_sector (blocks c i) := d)"
    "others_same i c (cache_store c i d)" "cb_sector (blocks (cache_store c i d) i) = cb_sector (blocks c i)"
    "cb_valid (blocks (cache_store c i d) i)" "cb_data (blocks (cache_store c i d) i) = d"
    "cb_dirty (blocks (cache_store c i d) i) = cb_dirty (blocks c i)"
proof -
  note p = cinv_pinD [OF inv pin]
  let ?b = "(blocks c i)\<lparr>cb_data := d\<rparr>"
  have "cinv (c\<lparr>blocks := (blocks c)(i := ?b)\<rparr>) (P(i := Some True))"
    using p assms(4) by (intro cinv_upd_block [OF inv]) (simp_all add: block_ok_def)
  then have inv2: "cinv (c\<lparr>blocks := (blocks c)(i := ?b)\<rparr>) P" using pin by (simp add: fun_upd_idem)
  with cview_upd_block [OF inv p(1) inv2] assms(3)
  show "cinv (cache_store c i d) P" "cview (cache_store c i d) = (cview c)(cb_sector (blocks c i) := d)"
    by (simp_all add: cache_store_def)
qed (use assms(3) in \<open>simp_all add: cache_store_def others_same_media\<close>)

lemma cache_mark_block_dirty_spec:
  assumes inv: "cinv c P" and pin: "P i = Some e" and "cb_valid (blocks c i)"
  shows "cinv (cache_mark_block_dirty c i) P" "cview (cache_mark_block_dirty c i) = cview c"
    "others_same i c (cache_mark_block_dirty c i)" "settled (cache_mark_block_dirty c i) i"
    "cb_sector (blocks (cache_mark_block_dirty c i) i) = cb_sector (blocks c i)"
    "cb_valid (blocks (cache_mark_block_dirty c i) i)"
    "cb_data (blocks (cache_mark_block_dirty c i) i) = cb_data (blocks c i)"
proof -
  note p = cinv_pinD [OF inv pin]
  let ?b = "(blocks c i)\<lparr>cb_dirty := True\<rparr>"
  have "cinv (c\<lparr>blocks := (blocks c)(i := ?b)\<rparr>) (P(i := Some e))"
    using p assms(3) by (intro cinv_upd_block [OF inv]) (simp_all add: block_ok_def)
  then have inv2: "cinv (c\<lparr>blocks := (blocks c)(i := ?b)\<rparr>) P" using pin by (simp add: fun_upd_idem)
  with cview_same_data [OF inv inv2]
  show "cinv (cache_mark_block_dirty c i) P" "cview (cache_mark_block_dirty c i) = cview c"
    by (simp_all add: cache_mark_block_dirty_def)
qed (use assms(3) in \<open>simp_all add: cache_mark_block_dirty_def others_same_media settled_def\<close>)

lemma cache_zero_block_spec:
  assumes inv: "cinv c P" and pin: "P i = Some True"
  shows "cinv (cache_zero_block c i) P"
    "cview (cache_zero_block c i) = (cview c)(cb_sector (blocks c i) := replicate BLOCK_SECTOR_SIZE 0)"
    "others_same i c (cache_zero_block c i)" "settled (cache_zero_block c i) i"
    "cb_sector (blocks (cache_zero_block c i) i) = cb_sector (blocks c i)"
    "cb_valid (blocks (cache_zero_block c i) i)" "cb_dirty (blocks (cache_zero_block c i) i)"
    "cb_data (blocks (cache_zero_block c i) i) = replicate BLOCK_SECTOR_SIZE 0"
proof -
  note p = cinv_pinD [OF inv pin]
  let ?b = "(blocks c i)\<lparr>cb_data := replicate BLOCK_SECTOR_SIZE 0, cb_dirty := True, cb_valid := True\<rparr>"
  have "cinv (c\<lparr>blocks := (blocks c)(i := ?b)\<rparr>) (P(i := Some True))"
    using p by (intro cinv_upd_block [OF inv]) (simp_all add: block_ok_def)
  then have inv2: "cinv (c\<lparr>blocks := (blocks c)(i := ?b)\<rparr>) P" using pin by (simp add: fun_upd_idem)
  with cview_upd_block [OF inv p(1) inv2]
  show "cinv (cache_zero_block c i) P"
      "cview (cache_zero_block c i) = (cview c)(cb_sector (blocks c i) := replicate BLOCK_SECTOR_SIZE 0)"
    by (simp_all add: cache_zero_block_def)
qed (simp_all add: cache_zero_block_def others_same_media settled_def)

text \<open>Read-ahead requests only touch the queue, which drops them when it is full.\<close>

lemma cache_read_ahead_spec:
  assumes "cinv c P"
  shows "\<exists>q. cache_read_ahead c s = Ok (c\<lparr>read_queue := q\<rparr>) \<and> cinv (c\<lparr>read_queue := q\<rparr>) P
    \<and> cview (c\<lparr>read_queue := q\<rparr>) = cview c"
proof -
  have q: "queue_inv (read_queue c)" "q_discard_mode (read_queue c)" using assms by (simp_all add: cinv_def)
  have "\<exists>q. queue_enqueue (read_queue c) s = Ok q \<and> queue_inv q \<and> q_discard_mode q"
  proof (cases "length (queue_contents (read_queue c)) < queue_room (read_queue c)")
    case True
    with queue_enqueue_room [OF q(1) True, of s] q(2) show ?thesis by auto
  next
    case False
    then have "queue_full (read_queue c)" using queue_contents_bounded [OF q(1)] by (simp add: queue_full_iff q)
    with q show ?thesis by (simp add: queue_enqueue_def)
  qed
  then obtain q where q': "queue_enqueue (read_queue c) s = Ok q" "queue_inv q" "q_discard_mode q" by blast
  have v: "cview (c\<lparr>read_queue := x\<rparr>) = cview c" for x
    by (simp add: cview_def cache_lookup_def fun_eq_iff split: option.split)
  show ?thesis
  proof (cases "sint s < 0")
    case True
    then have "cache_read_ahead c s = Ok (c\<lparr>read_queue := read_queue c\<rparr>)" by (simp add: cache_read_ahead_def)
    with v assms show ?thesis by (intro exI [of _ "read_queue c"]) simp
  next
    case False
    with q' have "cache_read_ahead c s = Ok (c\<lparr>read_queue := q\<rparr>)" by (simp add: cache_read_ahead_def)
    moreover have "cinv (c\<lparr>read_queue := q\<rparr>) P" using assms q' by (simp add: cinv_def)
    ultimately show ?thesis using v by blast
  qed
qed

section \<open>Flushing\<close>

lemma cinv_upd_device:
  assumes inv: "cinv c P" and i: "i \<in> set (buffer_cache c)" and d: "cb_dirty (blocks c i)" and p: "P i = None"
    and dev: "b_media dev = (b_media (fs_device c))(cb_sector (blocks c i) := cb_data (blocks c i))"
      "b_size dev = b_size (fs_device c)" "b_type dev = b_type (fs_device c)"
  defines "c' \<equiv> c\<lparr>fs_device := dev, blocks := (blocks c)(i := (blocks c i)\<lparr>cb_dirty := False\<rparr>)\<rparr>"
  shows "cinv c' P" "cview c' = cview c"
proof -
  note b = cinv_bufD [OF inv i]
  have s: "cb_sector (blocks c j) \<noteq> cb_sector (blocks c i)" if "j \<in> set (buffer_cache c)" "j \<noteq> i" for j
    using inv i that by (auto simp: cinv_def inj_on_def)
  have "block_ok dev (P j) (blocks c j)" if "j \<in> set (buffer_cache c)" "j \<noteq> i" for j
    using cinv_bufD(2) [OF inv that(1)] s [OF that] by (simp add: block_ok_def dev)
  moreover have "block_ok dev (P i) ((blocks c i)\<lparr>cb_dirty := False\<rparr>)"
    using b(2) d by (simp add: block_ok_def dev)
  moreover have "device_ok dev" using b(3,4) by (simp add: device_ok_def dev)
  moreover have "cb_sector (blocks c' j) = cb_sector (blocks c j)" "cb_lock (blocks c' j) = cb_lock (blocks c j)"
    "cb_data (blocks c' j) = cb_data (blocks c j)" "cb_valid (blocks c' j) = cb_valid (blocks c j)" for j
    by (simp_all add: c'_def)
  moreover have "buffer_cache c' = buffer_cache c" "free_cache c' = free_cache c" "fs_device c' = dev"
    "read_queue c' = read_queue c" "j \<noteq> i \<Longrightarrow> blocks c' j = blocks c j"
    "blocks c' i = (blocks c i)\<lparr>cb_dirty := False\<rparr>" for j
    by (simp_all add: c'_def)
  moreover have "\<not> cb_dirty (blocks c' j)" if "j \<in> set (free_cache c)" for j
    using that inv b(5) by (auto simp: c'_def cinv_def)
  moreover have "block_ok dev (P j) (blocks c' j)" if "j \<in> set (buffer_cache c)" for j
    using that calculation(1,2,12,13) by (cases "j = i") auto
  ultimately show inv': "cinv c' P" using inv unfolding cinv_def by simp
  show "cview c' = cview c"
  proof (rule cview_cong [OF inv inv'])
    fix x j
    assume "holds c j x"
    then show "holds c' j x \<and> cb_data (blocks c' j) = cb_data (blocks c j)
        \<or> (\<forall>j. \<not> holds c' j x) \<and> b_media (fs_device c') x = cb_data (blocks c j)"
      by (auto simp: holds_def c'_def)
  next
    fix x
    assume "\<forall>j. \<not> holds c j x"
    then show "(\<exists>j. holds c' j x \<and> cb_data (blocks c' j) = b_media (fs_device c) x)
        \<or> (\<forall>j. \<not> holds c' j x) \<and> b_media (fs_device c') x = b_media (fs_device c) x"
      using b(2) d i by (auto simp: holds_def c'_def dev block_ok_def)
  qed
qed

lemma flush_block_spec:
  assumes inv: "cinv c Map.empty" and i: "i \<in> set (buffer_cache c)"
  shows "\<exists>c'. flush_block c i = Ok c' \<and> cinv c' Map.empty \<and> cview c' = cview c \<and> others_same i c c'
    \<and> \<not> cb_dirty (blocks c' i) \<and> buffer_cache c' = buffer_cache c"
proof (cases "cb_dirty (blocks c i)")
  case False
  with inv show ?thesis by (simp add: flush_block_def others_same_def)
next
  case True
  note b = cinv_bufD [OF inv i]
  have ls: "lock_state None (cb_lock (blocks c i))" using b(1) by simp
  have t: "write_lock_try_acquire (cb_lock (blocks c i)) = (True, snd (write_lock_try_acquire (cb_lock (blocks c i))))"
    using try_acquire_iff [OF ls] by (simp add: prod_eq_iff)
  define dev where "dev = (fs_device c)\<lparr>b_media := (b_media (fs_device c))(cb_sector (blocks c i) := cb_data (blocks c i)),
      b_write_cnt := b_write_cnt (fs_device c) + 1\<rparr>"
  let ?c = "c\<lparr>fs_device := dev, blocks := (blocks c)(i := (blocks c i)\<lparr>cb_dirty := False\<rparr>)\<rparr>"
  have w: "block_write (fs_device c) (cb_sector (blocks c i)) (cb_data (blocks c i)) = Ok dev"
    using b(2,4) by (simp add: block_write_eq_Ok dev_def block_ok_def device_ok_def)
  have "cb_valid (blocks c i)" using b(2) True by (simp add: block_ok_def)
  then have "flush_block c i = Ok ?c"
    using True t w try_then_release [OF ls]
    by (cases "blocks c i") (auto simp: flush_block_def Let_def split: prod.splits)
  moreover have "cinv ?c Map.empty" "cview ?c = cview c"
    using cinv_upd_device [OF inv i True, of dev] by (simp_all add: dev_def)
  moreover have "others_same i c ?c"
    using inv i by (auto simp: others_same_def settled_def dev_def cinv_def inj_on_def)
  ultimately show ?thesis by simp
qed

lemma flush_loop_spec:
  assumes "cinv c Map.empty" "set is \<subseteq> set (buffer_cache c)"
  shows "\<exists>c'. flush_loop c is = Ok c' \<and> cinv c' Map.empty \<and> cview c' = cview c
    \<and> buffer_cache c' = buffer_cache c \<and> b_size (fs_device c') = b_size (fs_device c)
    \<and> (\<forall>i. i \<in> set is \<or> \<not> cb_dirty (blocks c i) \<longrightarrow> \<not> cb_dirty (blocks c' i))"
  using assms
proof (induction "is" arbitrary: c)
  case (Cons i "is")
  then obtain c1 where c1: "flush_block c i = Ok c1" "cinv c1 Map.empty" "cview c1 = cview c" "others_same i c c1"
      "\<not> cb_dirty (blocks c1 i)" "buffer_cache c1 = buffer_cache c"
    using flush_block_spec [of c i] by auto
  with Cons.IH [of c1] Cons.prems obtain c2 where
    "flush_loop c1 is = Ok c2" "cinv c2 Map.empty" "cview c2 = cview c" "buffer_cache c2 = buffer_cache c"
    "b_size (fs_device c2) = b_size (fs_device c1)"
    "\<forall>j. j \<in> set is \<or> \<not> cb_dirty (blocks c1 j) \<longrightarrow> \<not> cb_dirty (blocks c2 j)"
    by auto
  moreover have "\<not> cb_dirty (blocks c j) \<Longrightarrow> \<not> cb_dirty (blocks c1 j)" for j
    using c1(4,5) by (cases "j = i") (auto simp: others_same_def)
  moreover have "b_size (fs_device c1) = b_size (fs_device c)" using c1(4) by (simp add: others_same_def)
  ultimately show ?case using c1(1,5) by auto
qed simp

lemma clean_cache_media:
  assumes inv: "cinv c Map.empty" and clean: "\<forall>i\<in>set (buffer_cache c). \<not> cb_dirty (blocks c i)"
  shows "cview c = b_media (fs_device c)"
proof
  fix s
  show "cview c s = b_media (fs_device c) s"
  proof (cases "\<exists>i. holds c i s")
    case True
    then obtain i where i: "holds c i s" by blast
    then have "cb_data (blocks c i) = b_media (fs_device c) s"
      using cinv_bufD(2) [OF inv, of i] clean by (auto simp: holds_def block_ok_def)
    with cview_held [OF inv i] show ?thesis by simp
  next
    case False
    then show ?thesis using cview_free by blast
  qed
qed

end
