(* ===== verification/CacheStore.thy ===== *)
theory CacheStore
  imports Cache
begin

text \<open>
  The interface the inode layer has to the buffer cache: blocks are pinned, read,
  modified, marked and given back, and behind that there is one function from sectors
  to their contents.  The contract \<open>block_store\<close> states it, the cache is shown to meet
  it, and its clients' patterns (pin, read, give back; pin, read, modify, mark, give
  back) are proved once from the contract.
\<close>

section \<open>The contract\<close>

locale block_store =
  fixes inv :: "'c \<Rightarrow> (nat \<rightharpoonup> bool) \<Rightarrow> bool"
    and view :: "'c \<Rightarrow> u32 \<Rightarrow> bytes"
    and nsec :: "'c \<Rightarrow> u32"
    and sec :: "'c \<Rightarrow> nat \<Rightarrow> u32"
    and loaded :: "'c \<Rightarrow> nat \<Rightarrow> bool"
    and safe :: "'c \<Rightarrow> nat \<Rightarrow> bool"
    and same :: "nat \<Rightarrow> 'c \<Rightarrow> 'c \<Rightarrow> bool"
    and get :: "'c \<Rightarrow> u32 \<Rightarrow> bool \<Rightarrow> (nat \<times> 'c) outcome"
    and load :: "'c \<Rightarrow> nat \<Rightarrow> (bytes \<times> 'c) outcome"
    and store :: "'c \<Rightarrow> nat \<Rightarrow> bytes \<Rightarrow> 'c"
    and zero :: "'c \<Rightarrow> nat \<Rightarrow> 'c"
    and mark :: "'c \<Rightarrow> nat \<Rightarrow> 'c"
    and put :: "'c \<Rightarrow> nat \<Rightarrow> 'c outcome"
  assumes same_trans: "same i c c' \<Longrightarrow> same i c' c'' \<Longrightarrow> same i c c''"
    and same_nsec: "same i c c' \<Longrightarrow> nsec c' = nsec c"
    and get: "inv c P \<Longrightarrow> s < nsec c \<Longrightarrow> \<forall>i\<in>dom P. sec c i \<noteq> s \<Longrightarrow> card (dom P) < MAX_CACHE_SIZE \<Longrightarrow>
      \<exists>i c'. get c s e = Ok (i, c') \<and> inv c' (P(i \<mapsto> e)) \<and> P i = None \<and> sec c' i = s \<and> view c' = view c
        \<and> safe c' i \<and> same i c c'"
    and load: "inv c P \<Longrightarrow> P i = Some e \<Longrightarrow>
      \<exists>c'. load c i = Ok (view c (sec c i), c') \<and> inv c' P \<and> view c' = view c \<and> loaded c' i
        \<and> sec c' i = sec c i \<and> (safe c i \<longrightarrow> safe c' i) \<and> same i c c'"
    and store: "inv c P \<Longrightarrow> P i = Some True \<Longrightarrow> loaded c i \<Longrightarrow> length d = BLOCK_SECTOR_SIZE \<Longrightarrow>
      inv (store c i d) P \<and> view (store c i d) = (view c)(sec c i := d) \<and> loaded (store c i d) i
        \<and> sec (store c i d) i = sec c i \<and> same i c (store c i d)"
    and zero: "inv c P \<Longrightarrow> P i = Some True \<Longrightarrow>
      inv (zero c i) P \<and> view (zero c i) = (view c)(sec c i := replicate BLOCK_SECTOR_SIZE 0) \<and> loaded (zero c i) i
        \<and> sec (zero c i) i = sec c i \<and> same i c (zero c i)"
    and mark: "inv c P \<Longrightarrow> P i = Some e \<Longrightarrow> loaded c i \<Longrightarrow>
      inv (mark c i) P \<and> view (mark c i) = view c \<and> loaded (mark c i) i \<and> safe (mark c i) i
        \<and> sec (mark c i) i = sec c i \<and> same i c (mark c i)"
    and put: "inv c P \<Longrightarrow> P i = Some e \<Longrightarrow> safe c i \<Longrightarrow>
      \<exists>c'. put c i = Ok c' \<and> inv c' (P(i := None)) \<and> view c' = view c \<and> same i c c'"
begin

text \<open>Reading one sector, with other blocks pinned or not.\<close>

lemma read_once:
  assumes "inv c P" "s < nsec c" "\<forall>i\<in>dom P. sec c i \<noteq> s" "card (dom P) < MAX_CACHE_SIZE"
  shows "\<exists>i c1 c2 c3. get c s e = Ok (i, c1) \<and> load c1 i = Ok (view c s, c2) \<and> put c2 i = Ok c3
    \<and> inv c3 P \<and> view c3 = view c \<and> P i = None \<and> same i c c3"
proof -
  from get [OF assms, of e] obtain i c1 where
    1: "get c s e = Ok (i, c1)" "inv c1 (P(i \<mapsto> e))" "P i = None" "sec c1 i = s" "view c1 = view c"
      "safe c1 i" "same i c c1" by blast
  from load [OF 1(2), of i e] obtain c2 where
    2: "load c1 i = Ok (view c s, c2)" "inv c2 (P(i \<mapsto> e))" "view c2 = view c" "safe c2 i" "same i c1 c2"
    using 1 by auto
  from put [OF 2(2) _ 2(4)] 2 obtain c3 where
    3: "put c2 i = Ok c3" "inv c3 (P(i \<mapsto> e, i := None))" "view c3 = view c" "same i c2 c3" by auto
  moreover have "P(i \<mapsto> e, i := None) = P" using 1(3) by (simp add: fun_upd_idem)
  moreover have "same i c c3" using 1(7) 2(5) 3(4) same_trans by blast
  ultimately show ?thesis using 1 2 by auto
qed

text \<open>Replacing the contents of one sector: read, modify, mark.\<close>

lemma update_once:
  assumes "inv c P" "s < nsec c" "\<forall>i\<in>dom P. sec c i \<noteq> s" "card (dom P) < MAX_CACHE_SIZE"
    "length d = BLOCK_SECTOR_SIZE"
  shows "\<exists>i c1 c2 c3. get c s True = Ok (i, c1) \<and> load c1 i = Ok (view c s, c2) \<and> sec c2 i = s
    \<and> put (mark (store c2 i d) i) i = Ok c3
    \<and> inv c3 P \<and> view c3 = (view c)(s := d) \<and> P i = None \<and> same i c c3"
proof -
  from get [OF assms(1-4), of True] obtain i c1 where
    1: "get c s True = Ok (i, c1)" "inv c1 (P(i \<mapsto> True))" "P i = None" "sec c1 i = s" "view c1 = view c" "same i c c1"
    by blast
  from load [OF 1(2), of i True] obtain c2 where
    2: "load c1 i = Ok (view c s, c2)" "inv c2 (P(i \<mapsto> True))" "view c2 = view c" "loaded c2 i" "sec c2 i = s"
      "same i c1 c2"
    using 1 by auto
  let ?c = "store c2 i d"
  have 3: "inv ?c (P(i \<mapsto> True))" "view ?c = (view c)(s := d)" "loaded ?c i" "same i c2 ?c"
    using store [OF 2(2) _ 2(4) assms(5)] 2 by auto
  have 4: "inv (mark ?c i) (P(i \<mapsto> True))" "view (mark ?c i) = (view c)(s := d)" "safe (mark ?c i) i"
      "same i ?c (mark ?c i)"
    using mark [OF 3(1) _ 3(3)] 3 by auto
  from put [OF 4(1) _ 4(3)] 4 obtain c3 where
    5: "put (mark ?c i) i = Ok c3" "inv c3 (P(i \<mapsto> True, i := None))" "view c3 = (view c)(s := d)"
      "same i (mark ?c i) c3" by auto
  moreover have "P(i \<mapsto> True, i := None) = P" using 1(3) by (simp add: fun_upd_idem)
  moreover have "same i c c3" using 1(6) 2(6) 3(4) 4(4) 5(4) same_trans by blast
  ultimately show ?thesis using 1 2 by auto
qed

text \<open>Replacing the contents of one sector without reading it first.\<close>

lemma overwrite_once:
  assumes "inv c P" "s < nsec c" "\<forall>i\<in>dom P. sec c i \<noteq> s" "card (dom P) < MAX_CACHE_SIZE"
    "length d = BLOCK_SECTOR_SIZE"
  shows "\<exists>i c1 c3. get c s True = Ok (i, c1) \<and> put (mark (store (zero c1 i) i d) i) i = Ok c3
    \<and> inv c3 P \<and> view c3 = (view c)(s := d) \<and> P i = None \<and> same i c c3"
proof -
  from get [OF assms(1-4), of True] obtain i c1 where
    1: "get c s True = Ok (i, c1)" "inv c1 (P(i \<mapsto> True))" "P i = None" "sec c1 i = s" "view c1 = view c" "same i c c1"
    by blast
  let ?z = "zero c1 i" and ?c = "store (zero c1 i) i d"
  have 2: "inv ?z (P(i \<mapsto> True))" "view ?z = (view c)(s := replicate BLOCK_SECTOR_SIZE 0)" "loaded ?z i"
      "sec ?z i = s" "same i c1 ?z"
    using zero [OF 1(2)] 1 by auto
  have 3: "inv ?c (P(i \<mapsto> True))" "view ?c = (view c)(s := d)" "loaded ?c i" "same i ?z ?c"
    using store [OF 2(1) _ 2(3) assms(5)] 2 by auto
  have 4: "inv (mark ?c i) (P(i \<mapsto> True))" "view (mark ?c i) = (view c)(s := d)" "safe (mark ?c i) i"
      "same i ?c (mark ?c i)"
    using mark [OF 3(1) _ 3(3)] 3 by auto
  from put [OF 4(1) _ 4(3)] 4 obtain c3 where
    5: "put (mark ?c i) i = Ok c3" "inv c3 (P(i \<mapsto> True, i := None))" "view c3 = (view c)(s := d)"
      "same i (mark ?c i) c3" by auto
  moreover have "P(i \<mapsto> True, i := None) = P" using 1(3) by (simp add: fun_upd_idem)
  moreover have "same i c c3" using 1(6) 2(5) 3(4) 4(4) 5(4) same_trans by blast
  ultimately show ?thesis using 1 by auto
qed

end

section \<open>The cache meets it\<close>

lemma others_same_size: "others_same i c c' \<Longrightarrow> b_size (fs_device c') = b_size (fs_device c)"
  by (simp add: others_same_def)

interpretation bs: block_store cinv cview "\<lambda>c. b_size (fs_device c)" "\<lambda>c i. cb_sector (blocks c i)"
  "\<lambda>c i. cb_valid (blocks c i)" settled others_same cache_get_block cache_read_block cache_store
  cache_zero_block cache_mark_block_dirty cache_put_block
proof unfold_locales
  fix c P s e
  show "\<exists>i c'. cache_get_block c s e = Ok (i, c') \<and> cinv c' (P(i \<mapsto> e)) \<and> P i = None
      \<and> cb_sector (blocks c' i) = s \<and> cview c' = cview c \<and> settled c' i \<and> others_same i c c'"
    if "cinv c P" "s < b_size (fs_device c)" "\<forall>i\<in>dom P. cb_sector (blocks c i) \<noteq> s"
      "card (dom P) < MAX_CACHE_SIZE"
    using cache_get_block_spec [OF that, of e] unfolding got_def by blast
next
  fix c P i e
  assume "cinv c P" "P i = Some e"
  then show "\<exists>c'. cache_read_block c i = Ok (cview c (cb_sector (blocks c i)), c') \<and> cinv c' P \<and> cview c' = cview c
      \<and> cb_valid (blocks c' i) \<and> cb_sector (blocks c' i) = cb_sector (blocks c i)
      \<and> (settled c i \<longrightarrow> settled c' i) \<and> others_same i c c'"
    using cache_read_block_spec by blast
next
  fix c P i and d :: bytes
  assume "cinv c P" "P i = Some True" "cb_valid (blocks c i)" "length d = BLOCK_SECTOR_SIZE"
  note cache_store_spec [OF this]
  then show "cinv (cache_store c i d) P \<and> cview (cache_store c i d) = (cview c)(cb_sector (blocks c i) := d)
      \<and> cb_valid (blocks (cache_store c i d) i) \<and> cb_sector (blocks (cache_store c i d) i) = cb_sector (blocks c i)
      \<and> others_same i c (cache_store c i d)"
    by (intro conjI)
qed (simp_all add: others_same_size cache_zero_block_spec cache_mark_block_dirty_spec cache_put_block_spec,
    (rule others_same_trans, assumption, assumption)?)

section \<open>A cache and a plain array\<close>

text \<open>
  The accesses the inode layer makes to data sectors (\<open>inode_read_at\<close>,
  \<open>inode_write_at\<close> with a full and with a partial sector), and the flush of the
  write-behind daemon.
\<close>

datatype sector_op = Read_sector u32 | Overwrite_sector u32 bytes | Patch_sector u32 nat bytes | Flush

text \<open>\<open>memcpy (data + ofs, src, length src)\<close> into a sector.\<close>

definition patch :: "bytes \<Rightarrow> nat \<Rightarrow> bytes \<Rightarrow> bytes" where
  "patch d ofs src = take ofs d @ src @ drop (ofs + length src) d"

lemma length_patch [simp]: "ofs + length src \<le> length d \<Longrightarrow> length (patch d ofs src) = length d"
  by (simp add: patch_def)

fun cache_op :: "cache \<Rightarrow> sector_op \<Rightarrow> (bytes \<times> cache) outcome" where
  "cache_op c (Read_sector s) =
     bind (cache_get_block c s False) (\<lambda>(i, c).
     bind (cache_read_block c i) (\<lambda>(d, c).
     bind (cache_put_block c i) (\<lambda>c. Ok (d, c))))"
| "cache_op c (Overwrite_sector s d) =
     bind (cache_get_block c s True) (\<lambda>(i, c).
     bind (cache_put_block (cache_mark_block_dirty (cache_store (cache_zero_block c i) i d) i) i) (\<lambda>c. Ok ([], c)))"
| "cache_op c (Patch_sector s ofs src) =
     bind (cache_get_block c s True) (\<lambda>(i, c).
     bind (cache_read_block c i) (\<lambda>(d, c).
     bind (cache_put_block (cache_mark_block_dirty (cache_store c i (patch d ofs src)) i) i) (\<lambda>c. Ok ([], c))))"
| "cache_op c Flush = bind (cache_flush c) (\<lambda>c. Ok ([], c))"

fun cache_ops :: "cache \<Rightarrow> sector_op list \<Rightarrow> (bytes list \<times> cache) outcome" where
  "cache_ops c [] = Ok ([], c)"
| "cache_ops c (op # ops) =
     bind (cache_op c op) (\<lambda>(r, c). bind (cache_ops c ops) (\<lambda>(rs, c). Ok (r # rs, c)))"

text \<open>The same on a function from sectors to contents.\<close>

fun array_op :: "(u32 \<Rightarrow> bytes) \<Rightarrow> sector_op \<Rightarrow> bytes \<times> (u32 \<Rightarrow> bytes)" where
  "array_op m (Read_sector s) = (m s, m)"
| "array_op m (Overwrite_sector s d) = ([], m(s := d))"
| "array_op m (Patch_sector s ofs src) = ([], m(s := patch (m s) ofs src))"
| "array_op m Flush = ([], m)"

fun array_ops :: "(u32 \<Rightarrow> bytes) \<Rightarrow> sector_op list \<Rightarrow> bytes list \<times> (u32 \<Rightarrow> bytes)" where
  "array_ops m [] = ([], m)"
| "array_ops m (op # ops) = (let (r, m) = array_op m op; (rs, m) = array_ops m ops in (r # rs, m))"

fun op_ok :: "u32 \<Rightarrow> sector_op \<Rightarrow> bool" where
  "op_ok n (Read_sector s) \<longleftrightarrow> s < n"
| "op_ok n (Overwrite_sector s d) \<longleftrightarrow> s < n \<and> length d = BLOCK_SECTOR_SIZE"
| "op_ok n (Patch_sector s ofs src) \<longleftrightarrow> s < n \<and> ofs + length src \<le> BLOCK_SECTOR_SIZE"
| "op_ok n Flush \<longleftrightarrow> True"

lemma cview_length: "cinv c P \<Longrightarrow> length (cview c s) = BLOCK_SECTOR_SIZE"
  using cview_held [of c P _ s] cview_free [of c s]
  by (cases "\<exists>i. holds c i s") (auto simp: cinv_def device_ok_def holds_def)

lemma cache_flush_spec:
  assumes "cinv c Map.empty"
  shows "\<exists>c'. cache_flush c = Ok c' \<and> cinv c' Map.empty \<and> cview c' = cview c \<and> b_media (fs_device c') = cview c
    \<and> b_size (fs_device c') = b_size (fs_device c)"
proof -
  obtain c' where c': "cache_flush c = Ok c'" "cinv c' Map.empty" "cview c' = cview c"
      "buffer_cache c' = buffer_cache c" "b_size (fs_device c') = b_size (fs_device c)"
      "\<forall>i\<in>set (buffer_cache c'). \<not> cb_dirty (blocks c' i)"
    using flush_loop_spec [OF assms, of "rev (buffer_cache c)"] by (auto simp: cache_flush_def)
  with clean_cache_media [OF c'(2)] show ?thesis by auto
qed

lemma cache_op_refines:
  assumes inv: "cinv c Map.empty" and ok: "op_ok (b_size (fs_device c)) op"
  shows "\<exists>r c'. cache_op c op = Ok (r, c') \<and> cinv c' Map.empty \<and> (r, cview c') = array_op (cview c) op
    \<and> b_size (fs_device c') = b_size (fs_device c)"
proof (cases op)
  case (Read_sector s)
  then show ?thesis using bs.read_once [OF inv, of s False] ok by (auto simp: MAX_CACHE_SIZE_def dest: others_same_size)
next
  case (Overwrite_sector s d)
  then show ?thesis
    using bs.overwrite_once [OF inv, of s d] ok by (auto simp: MAX_CACHE_SIZE_def dest: others_same_size)
next
  case (Patch_sector s ofs src)
  then show ?thesis
    using bs.update_once [OF inv, of s "patch (cview c s) ofs src"] ok cview_length [OF inv, of s]
    by (auto simp: MAX_CACHE_SIZE_def dest: others_same_size)
next
  case Flush
  with cache_flush_spec [OF inv] show ?thesis by auto
qed

lemma cache_ops_refine:
  assumes "cinv c Map.empty" "list_all (op_ok (b_size (fs_device c))) ops"
  shows "\<exists>rs c'. cache_ops c ops = Ok (rs, c') \<and> cinv c' Map.empty \<and> (rs, cview c') = array_ops (cview c) ops"
  using assms
proof (induction ops arbitrary: c)
  case (Cons op ops)
  then obtain r c1 where 1: "cache_op c op = Ok (r, c1)" "cinv c1 Map.empty" "(r, cview c1) = array_op (cview c) op"
      "b_size (fs_device c1) = b_size (fs_device c)"
    using cache_op_refines [of c op] by auto
  with Cons obtain rs c2 where "cache_ops c1 ops = Ok (rs, c2)" "cinv c2 Map.empty"
      "(rs, cview c2) = array_ops (cview c1) ops" by fastforce
  with 1 show ?case by (auto simp: Let_def split: prod.splits dest: sym)
qed simp

section \<open>Booting\<close>

lemma cache_init_loop_spec:
  assumes "\<And>n. mem n = Some (d n)"
  shows "\<exists>c'. cache_init_loop mem n k c = Ok c' \<and> buffer_cache c' = buffer_cache c
    \<and> free_cache c' = rev [n..<n + k] @ free_cache c \<and> read_queue c' = read_queue c \<and> fs_device c' = fs_device c
    \<and> (\<forall>j. blocks c' j = (if n \<le> j \<and> j < n + k
         then \<lparr>cb_sector = - 1, cb_dirty = False, cb_valid = False, cb_data = d j, cb_lock = rw_lock_init\<rparr>
         else blocks c j))"
proof (induction k arbitrary: n c)
  case (Suc k)
  let ?b = "\<lambda>j. \<lparr>cb_sector = - 1, cb_dirty = False, cb_valid = False, cb_data = d j, cb_lock = rw_lock_init\<rparr>"
  let ?c = "c\<lparr>blocks := (blocks c)(n := ?b n), free_cache := n # free_cache c\<rparr>"
  have u: "rev [n..<n + Suc k] = rev [Suc n..<Suc n + k] @ [n]" by (simp add: upt_conv_Cons del: upt_Suc)
  have "cache_init_loop mem n (Suc k) c = cache_init_loop mem (Suc n) k ?c" by (simp add: block_init_def assms)
  with Suc [of "Suc n" ?c] obtain c' where
    c': "cache_init_loop mem n (Suc k) c = Ok c'" "buffer_cache c' = buffer_cache c"
      "free_cache c' = rev [Suc n..<Suc n + k] @ n # free_cache c" "read_queue c' = read_queue c"
      "fs_device c' = fs_device c"
      "\<forall>j. blocks c' j = (if Suc n \<le> j \<and> j < Suc n + k then ?b j else ((blocks c)(n := ?b n)) j)"
    by auto
  have "blocks c' j = (if n \<le> j \<and> j < n + Suc k then ?b j else blocks c j)" for j
    using c'(6) by (cases "j = n") auto
  with c'(1-5) show ?case unfolding u by auto
qed auto

lemma cache_init_spec:
  assumes "\<And>n. mem n = Some (d n)" "\<And>n. length (d n) = BLOCK_SECTOR_SIZE" "length store = 65" "device_ok dev"
  shows "\<exists>c. cache_init mem (Some store) dev = Ok c \<and> cinv c Map.empty \<and> cview c = b_media dev \<and> fs_device c = dev"
proof -
  have "unat (of_nat MAX_CACHE_SIZE :: u32) = 64" by (simp add: MAX_CACHE_SIZE_def)
  with queue_init_ok [of "of_nat MAX_CACHE_SIZE" store True] assms(3) obtain q where
    q: "queue_init (of_nat MAX_CACHE_SIZE) True (Some store) = Ok q" "queue_inv q" "q_discard_mode q" by auto
  let ?c = "\<lparr>blocks = (\<lambda>_. \<lparr>cb_sector = - 1, cb_dirty = False, cb_valid = False, cb_data = [], cb_lock = rw_lock_init\<rparr>),
      buffer_cache = [], free_cache = [], read_queue = q, fs_device = dev\<rparr>"
  obtain c where c: "cache_init_loop mem 0 MAX_CACHE_SIZE ?c = Ok c" "buffer_cache c = []"
      "free_cache c = rev [0..<MAX_CACHE_SIZE]" "read_queue c = q" "fs_device c = dev"
      "\<forall>j<MAX_CACHE_SIZE. blocks c j =
         \<lparr>cb_sector = - 1, cb_dirty = False, cb_valid = False, cb_data = d j, cb_lock = rw_lock_init\<rparr>"
    using cache_init_loop_spec [where mem = mem and d = d and n = 0 and k = MAX_CACHE_SIZE and c = ?c] assms(1)
    by auto
  have "cinv c Map.empty"
    using c q assms by (simp add: cinv_def lock_state_def rw_lock_init_def)
  moreover have "cview c = b_media dev" using c by (simp add: fun_eq_iff cview_def cache_lookup_def)
  ultimately show ?thesis using c(1,5) q(1) by (simp add: cache_init_def)
qed

section \<open>Properties\<close>

text \<open>
  C2: the buffer cache is transparent.  From a freshly initialised cache over any
  device, every sequence of sector reads, full and partial sector writes and flushes
  that stays on the device runs to completion, without a failed assertion or an
  endless search for a victim, and gives exactly the results of the same sequence on a
  plain array of sectors, however many evictions and write-backs happen in between.
\<close>

theorem cache_refines_array:
  assumes "\<And>n. mem n = Some (d n)" "\<And>n. length (d n) = BLOCK_SECTOR_SIZE" "length store = 65" "device_ok dev"
    and "list_all (op_ok (b_size dev)) ops"
  shows "\<exists>c rs c'. cache_init mem (Some store) dev = Ok c \<and> cache_ops c ops = Ok (rs, c')
    \<and> (rs, cview c') = array_ops (b_media dev) ops"
  using cache_init_spec [OF assms(1-4)] cache_ops_refine assms(5) by fastforce

definition blank_disk :: "u32 \<Rightarrow> block" where
  "blank_disk n = \<lparr>b_name = ''hda'', b_type = BLOCK_FILESYS, b_size = n, b_media = (\<lambda>_. replicate 512 0),
     b_read_cnt = 0, b_write_cnt = 0\<rparr>"

lemma blank_disk_ok [simp]: "device_ok (blank_disk n)" "b_size (blank_disk n) = n"
    "b_media (blank_disk n) = (\<lambda>_. replicate 512 0)"
  by (simp_all add: device_ok_def blank_disk_def BLOCK_SECTOR_SIZE_def)

theorem cache_refines_array_witness:
  "\<exists>c rs c'. cache_init (\<lambda>_. Some (replicate 512 9)) (Some (replicate 65 0)) (blank_disk 8) = Ok c
     \<and> cache_ops c [Patch_sector 3 510 [7, 8], Flush, Read_sector 3] = Ok (rs, c')
     \<and> rs = [[], [], replicate 510 0 @ [7, 8]]"
proof -
  have h: "list_all (op_ok (b_size (blank_disk 8))) [Patch_sector 3 510 [7, 8], Flush, Read_sector 3]"
    by (simp add: BLOCK_SECTOR_SIZE_def)
  have e: "array_ops (b_media (blank_disk 8)) [Patch_sector 3 510 [7, 8], Flush, Read_sector 3]
      = ([[], [], replicate 510 0 @ [7, 8]], (\<lambda>_. replicate 512 0)(3 := replicate 510 0 @ [7, 8]))"
    by (simp add: patch_def Let_def)
  have l: "length (replicate 512 9 :: bytes) = BLOCK_SECTOR_SIZE" "length (replicate 65 0 :: u32 list) = 65"
    by (simp_all add: BLOCK_SECTOR_SIZE_def)
  from cache_refines_array [OF refl l blank_disk_ok(1) h] show ?thesis unfolding e by blast
qed

text \<open>
  C17: \<open>cache_flush\<close> makes everything durable: with no block pinned it completes, the
  device then holds for every sector what readers see, and readers see what they saw
  before.
\<close>

theorem cache_flush_durable:
  assumes "cinv c Map.empty"
  shows "\<exists>c'. cache_flush c = Ok c' \<and> cinv c' Map.empty \<and> cview c' = cview c \<and> b_media (fs_device c') = cview c"
  using cache_flush_spec [OF assms] by blast

theorem cache_flush_durable_witness:
  "\<exists>c c'. cache_init (\<lambda>_. Some (replicate 512 9)) (Some (replicate 65 0)) (blank_disk 8) = Ok c
     \<and> cache_flush c = Ok c' \<and> b_media (fs_device c') = (\<lambda>_. replicate 512 0)"
proof -
  obtain c where c: "cache_init (\<lambda>_. Some (replicate 512 9)) (Some (replicate 65 0)) (blank_disk 8) = Ok c"
      "cinv c Map.empty" "cview c = (\<lambda>_. replicate 512 0)"
    using cache_init_spec [of "\<lambda>_. Some (replicate 512 9)" "\<lambda>_. replicate 512 9" "replicate 65 0" "blank_disk 8"]
    by (auto simp: BLOCK_SECTOR_SIZE_def)
  from cache_flush_durable [OF c(2)] c show ?thesis by auto
qed

end
