(* ===== verification/Bitmap.thy ===== *)
theory Bitmap
  imports Prelude
begin

text \<open>
  The bitmap of \<open>lib/kernel/bitmap.c\<close>: an array of 32-bit elements that simulates an
  array of bits.  It carries the free map of the file system and the page pools of the
  kernel.  After the operations: the bit list a bitmap stands for, what every operation
  does to that list, and the contract \<open>bit_array\<close> that the two clients rely on.
  Accesses outside the element array, which the code does not check in
  \<open>bitmap_mark\<close>, \<open>bitmap_reset\<close> and \<open>bitmap_flip\<close>, are outside the model.
\<close>

unbundle bit_operations_syntax

section \<open>The data and the operations\<close>

definition ELEM_BITS :: u32 where
  "ELEM_BITS = 32"

record bitmap =
  bm_bit_cnt :: u32
  bm_bits :: "u32 list"

definition BITMAP_ERROR :: u32 where
  "BITMAP_ERROR = - 1"

definition elem_idx :: "u32 \<Rightarrow> u32" where
  "elem_idx bit_idx = bit_idx div ELEM_BITS"

definition bit_mask :: "u32 \<Rightarrow> u32" where
  "bit_mask bit_idx = push_bit (unat (bit_idx mod ELEM_BITS)) 1"

definition elem_cnt :: "u32 \<Rightarrow> u32" where
  "elem_cnt bit_cnt = (bit_cnt + ELEM_BITS - 1) div ELEM_BITS"

definition byte_cnt :: "u32 \<Rightarrow> u32" where
  "byte_cnt bit_cnt = 4 * elem_cnt bit_cnt"

definition last_mask :: "bitmap \<Rightarrow> u32" where
  "last_mask b =
     (let last_bits = bm_bit_cnt b mod ELEM_BITS
      in if last_bits \<noteq> 0 then push_bit (unat last_bits) 1 - 1 else - 1)"

definition bitmap_size :: "bitmap \<Rightarrow> u32" where
  "bitmap_size b = bm_bit_cnt b"

definition bitmap_mark :: "bitmap \<Rightarrow> u32 \<Rightarrow> bitmap" where
  "bitmap_mark b bit_idx =
     (let idx = unat (elem_idx bit_idx); mask = bit_mask bit_idx
      in b\<lparr>bm_bits := (bm_bits b)[idx := bm_bits b ! idx OR mask]\<rparr>)"

definition bitmap_reset :: "bitmap \<Rightarrow> u32 \<Rightarrow> bitmap" where
  "bitmap_reset b bit_idx =
     (let idx = unat (elem_idx bit_idx); mask = bit_mask bit_idx
      in b\<lparr>bm_bits := (bm_bits b)[idx := bm_bits b ! idx AND NOT mask]\<rparr>)"

definition bitmap_flip :: "bitmap \<Rightarrow> u32 \<Rightarrow> bitmap" where
  "bitmap_flip b bit_idx =
     (let idx = unat (elem_idx bit_idx); mask = bit_mask bit_idx
      in b\<lparr>bm_bits := (bm_bits b)[idx := bm_bits b ! idx XOR mask]\<rparr>)"

definition bitmap_set :: "bitmap \<Rightarrow> u32 \<Rightarrow> bool \<Rightarrow> bitmap outcome" where
  "bitmap_set b idx v =
     assert (idx < bm_bit_cnt b)
     (if v then Ok (bitmap_mark b idx) else Ok (bitmap_reset b idx))"

definition bitmap_test :: "bitmap \<Rightarrow> u32 \<Rightarrow> bool outcome" where
  "bitmap_test b idx =
     assert (idx < bm_bit_cnt b)
     (Ok (bm_bits b ! unat (elem_idx idx) AND bit_mask idx \<noteq> 0))"

text \<open>The loop bodies, \<open>n\<close> iterations of them.\<close>

primrec set_loop :: "u32 \<Rightarrow> bool \<Rightarrow> nat \<Rightarrow> bitmap \<Rightarrow> bitmap outcome" where
  "set_loop start v 0 b = Ok b"
| "set_loop start v (Suc i) b =
     bind (set_loop start v i b) (\<lambda>b. bitmap_set b (start + of_nat i) v)"

definition bitmap_set_multiple :: "bitmap \<Rightarrow> u32 \<Rightarrow> u32 \<Rightarrow> bool \<Rightarrow> bitmap outcome" where
  "bitmap_set_multiple b start cnt v =
     assert (start \<le> bm_bit_cnt b)
     (assert (start + cnt \<le> bm_bit_cnt b)
     (set_loop start v (unat cnt) b))"

definition bitmap_set_all :: "bitmap \<Rightarrow> bool \<Rightarrow> bitmap outcome" where
  "bitmap_set_all b v = bitmap_set_multiple b 0 (bitmap_size b) v"

primrec count_loop :: "bitmap \<Rightarrow> u32 \<Rightarrow> bool \<Rightarrow> nat \<Rightarrow> u32 outcome" where
  "count_loop b start v 0 = Ok 0"
| "count_loop b start v (Suc i) =
     bind (count_loop b start v i) (\<lambda>value_cnt.
     bind (bitmap_test b (start + of_nat i)) (\<lambda>t.
     Ok (if t = v then value_cnt + 1 else value_cnt)))"

definition bitmap_count :: "bitmap \<Rightarrow> u32 \<Rightarrow> u32 \<Rightarrow> bool \<Rightarrow> u32 outcome" where
  "bitmap_count b start cnt v =
     assert (start \<le> bm_bit_cnt b)
     (assert (start + cnt \<le> bm_bit_cnt b)
     (count_loop b start v (unat cnt)))"

fun contains_loop :: "bitmap \<Rightarrow> u32 \<Rightarrow> bool \<Rightarrow> nat \<Rightarrow> bool outcome" where
  "contains_loop b idx v 0 = Ok False"
| "contains_loop b idx v (Suc n) =
     bind (bitmap_test b idx) (\<lambda>t. if t = v then Ok True else contains_loop b (idx + 1) v n)"

definition bitmap_contains :: "bitmap \<Rightarrow> u32 \<Rightarrow> u32 \<Rightarrow> bool \<Rightarrow> bool outcome" where
  "bitmap_contains b start cnt v =
     assert (start \<le> bm_bit_cnt b)
     (assert (start + cnt \<le> bm_bit_cnt b)
     (contains_loop b start v (unat cnt)))"

definition bitmap_any :: "bitmap \<Rightarrow> u32 \<Rightarrow> u32 \<Rightarrow> bool outcome" where
  "bitmap_any b start cnt = bitmap_contains b start cnt True"

definition bitmap_none :: "bitmap \<Rightarrow> u32 \<Rightarrow> u32 \<Rightarrow> bool outcome" where
  "bitmap_none b start cnt = bind (bitmap_contains b start cnt True) (\<lambda>t. Ok (\<not> t))"

definition bitmap_all :: "bitmap \<Rightarrow> u32 \<Rightarrow> u32 \<Rightarrow> bool outcome" where
  "bitmap_all b start cnt = bind (bitmap_contains b start cnt False) (\<lambda>t. Ok (\<not> t))"

text \<open>\<open>scan_loop b cnt v i n\<close>: the loop at position \<open>i\<close> with \<open>n\<close> positions to go.\<close>

fun scan_loop :: "bitmap \<Rightarrow> u32 \<Rightarrow> bool \<Rightarrow> u32 \<Rightarrow> nat \<Rightarrow> u32 outcome" where
  "scan_loop b cnt v i 0 = Ok BITMAP_ERROR"
| "scan_loop b cnt v i (Suc n) =
     bind (bitmap_contains b i cnt (\<not> v)) (\<lambda>t. if \<not> t then Ok i else scan_loop b cnt v (i + 1) n)"

definition bitmap_scan :: "bitmap \<Rightarrow> u32 \<Rightarrow> u32 \<Rightarrow> bool \<Rightarrow> u32 outcome" where
  "bitmap_scan b start cnt v =
     assert (start \<le> bm_bit_cnt b)
     (if cnt \<le> bm_bit_cnt b then
        let last = bm_bit_cnt b - cnt
        in scan_loop b cnt v start (Suc (unat last) - unat start)
      else Ok BITMAP_ERROR)"

definition bitmap_scan_and_flip :: "bitmap \<Rightarrow> u32 \<Rightarrow> u32 \<Rightarrow> bool \<Rightarrow> (u32 \<times> bitmap) outcome" where
  "bitmap_scan_and_flip b start cnt v =
     bind (bitmap_scan b start cnt v) (\<lambda>idx.
     if idx \<noteq> BITMAP_ERROR then
       bind (bitmap_set_multiple b idx cnt (\<not> v)) (\<lambda>b. Ok (idx, b))
     else Ok (idx, b))"

text \<open>
  \<open>bitmap_create\<close>: \<open>got\<close> says whether the first \<open>malloc\<close> succeeded, \<open>storage\<close> is what
  the second one returned; a null pointer is accepted for an empty bitmap.
\<close>

definition bitmap_create :: "u32 \<Rightarrow> bool \<Rightarrow> u32 list option \<Rightarrow> bitmap option outcome" where
  "bitmap_create bit_cnt got storage =
     (if got then
        (if storage \<noteq> None \<or> bit_cnt = 0 then
           bind (bitmap_set_all \<lparr>bm_bit_cnt = bit_cnt, bm_bits = (case storage of Some a \<Rightarrow> a | None \<Rightarrow> [])\<rparr> False)
             (\<lambda>b. Ok (Some b))
         else Ok None)
      else Ok None)"

text \<open>In a buffer of \<open>block_size\<close> bytes, 8 of which hold the structure itself.\<close>

definition bitmap_buf_size :: "u32 \<Rightarrow> u32" where
  "bitmap_buf_size bit_cnt = 8 + byte_cnt bit_cnt"

definition bitmap_create_in_buf :: "u32 \<Rightarrow> u32 list \<Rightarrow> u32 \<Rightarrow> bitmap outcome" where
  "bitmap_create_in_buf bit_cnt storage block_size =
     assert (block_size \<ge> bitmap_buf_size bit_cnt)
     (bitmap_set_all \<lparr>bm_bit_cnt = bit_cnt, bm_bits = storage\<rparr> False)"

section \<open>The bits of a bitmap\<close>

definition bit_at :: "bitmap \<Rightarrow> nat \<Rightarrow> bool" where
  "bit_at b i = bit (bm_bits b ! (i div 32)) (i mod 32)"

definition bits_of :: "bitmap \<Rightarrow> bool list" where
  "bits_of b = map (bit_at b) [0..<unat (bm_bit_cnt b)]"

text \<open>
  The element array covers the bits, and the rounding up in \<open>elem_cnt\<close> does not wrap.
\<close>

definition bitmap_inv :: "bitmap \<Rightarrow> bool" where
  "bitmap_inv b \<longleftrightarrow> unat (bm_bit_cnt b) + 31 < 2 ^ 32
     \<and> length (bm_bits b) = (unat (bm_bit_cnt b) + 31) div 32"

lemma length_bits_of [simp]: "length (bits_of b) = unat (bm_bit_cnt b)"
  by (simp add: bits_of_def)

lemma nth_bits_of: "i < unat (bm_bit_cnt b) \<Longrightarrow> bits_of b ! i = bit_at b i"
  by (simp add: bits_of_def)

lemma elem_idx_less:
  assumes "bitmap_inv b" "i < bm_bit_cnt b"
  shows "unat (elem_idx i) < length (bm_bits b)"
  using assms by (simp add: bitmap_inv_def elem_idx_def ELEM_BITS_def unat_div_distrib word_less_nat_alt)

lemma unat_elem_idx: "unat (elem_idx i) = unat i div 32"
  by (simp add: elem_idx_def ELEM_BITS_def unat_div_distrib)

lemma bit_bit_mask: "bit (bit_mask i) n \<longleftrightarrow> n = unat i mod 32"
proof -
  have "unat (i mod 32) = unat i mod 32" by (simp add: unat_mod_distrib)
  moreover have "unat i mod 32 < 32" by simp
  ultimately show ?thesis
    by (auto simp: bit_mask_def ELEM_BITS_def bit_exp_iff)
qed

lemma div_mod_eq_iff: "(j::nat) div 32 = i div 32 \<and> j mod 32 = i mod 32 \<longleftrightarrow> j = i"
  by (metis div_mult_mod_eq)

lemma bit_at_mark:
  assumes "bitmap_inv b" "i < bm_bit_cnt b"
  shows "bit_at (bitmap_mark b i) j \<longleftrightarrow> j = unat i \<or> bit_at b j"
  using elem_idx_less [OF assms] div_mod_eq_iff [of j "unat i"]
  by (auto simp: bit_at_def bitmap_mark_def Let_def unat_elem_idx nth_list_update bit_or_iff bit_bit_mask)

lemma bit_at_reset:
  assumes "bitmap_inv b" "i < bm_bit_cnt b"
  shows "bit_at (bitmap_reset b i) j \<longleftrightarrow> j \<noteq> unat i \<and> bit_at b j"
  using elem_idx_less [OF assms] div_mod_eq_iff [of j "unat i"]
  by (auto simp: bit_at_def bitmap_reset_def Let_def unat_elem_idx nth_list_update bit_and_iff
      bit_not_iff bit_bit_mask)

lemma bit_at_flip:
  assumes "bitmap_inv b" "i < bm_bit_cnt b"
  shows "bit_at (bitmap_flip b i) j \<longleftrightarrow> (if j = unat i then \<not> bit_at b j else bit_at b j)"
  using elem_idx_less [OF assms] div_mod_eq_iff [of j "unat i"]
  by (auto simp: bit_at_def bitmap_flip_def Let_def unat_elem_idx nth_list_update bit_xor_iff bit_bit_mask)

section \<open>Runs of bits, the reference\<close>

definition set_run :: "bool list \<Rightarrow> nat \<Rightarrow> nat \<Rightarrow> bool \<Rightarrow> bool list" where
  "set_run bs i n v = map (\<lambda>j. if i \<le> j \<and> j < i + n then v else bs ! j) [0..<length bs]"

definition run_at :: "bool list \<Rightarrow> nat \<Rightarrow> nat \<Rightarrow> bool \<Rightarrow> bool" where
  "run_at bs i n v \<longleftrightarrow> i + n \<le> length bs \<and> (\<forall>j\<in>{i..<i + n}. bs ! j = v)"

text \<open>The first run of \<open>n\<close> bits \<open>v\<close> at or after \<open>s\<close>.\<close>

definition first_run :: "bool list \<Rightarrow> nat \<Rightarrow> nat \<Rightarrow> bool \<Rightarrow> nat option" where
  "first_run bs s n v = List.find (\<lambda>i. run_at bs i n v) [s..<Suc (length bs)]"

lemma length_set_run [simp]: "length (set_run bs i n v) = length bs"
  by (simp add: set_run_def)

lemma nth_set_run: "j < length bs \<Longrightarrow> set_run bs i n v ! j = (if i \<le> j \<and> j < i + n then v else bs ! j)"
  by (simp add: set_run_def)

lemma set_run_0 [simp]: "set_run bs i 0 v = bs"
  by (rule nth_equalityI) (auto simp: nth_set_run)

lemma set_run_Suc: "set_run bs i (Suc n) v = (set_run bs i n v)[i + n := v]"
  by (rule nth_equalityI) (auto simp: nth_set_run nth_list_update less_Suc_eq)

lemma find_upt_Some:
  "List.find P [a..<b] = Some i \<longleftrightarrow> a \<le> i \<and> i < b \<and> P i \<and> (\<forall>k. a \<le> k \<and> k < i \<longrightarrow> \<not> P k)"
proof (induction "b - a" arbitrary: a)
  case (Suc n)
  then have c: "[a..<b] = a # [Suc a..<b]" "n = b - Suc a" by (simp_all add: upt_conv_Cons)
  show ?case
  proof (cases "P a")
    case True
    moreover have "a < b" using Suc(2) by simp
    moreover have "i = a" if "a \<le> i" "\<forall>k. a \<le> k \<and> k < i \<longrightarrow> \<not> P k"
      using that(1) that(2) [rule_format, of a] True by (cases "a < i") auto
    ultimately show ?thesis by (auto simp: c(1))
  next
    case False
    then have "(\<forall>k. a \<le> k \<and> k < i \<longrightarrow> \<not> P k) \<longleftrightarrow> (\<forall>k. Suc a \<le> k \<and> k < i \<longrightarrow> \<not> P k)"
      by (metis Suc_leD Suc_leI le_less)
    moreover from False have "a \<le> i \<and> P i \<longleftrightarrow> Suc a \<le> i \<and> P i" by (metis Suc_leD Suc_leI le_less)
    ultimately show ?thesis using False Suc(1) [OF c(2)] by (auto simp: c(1))
  qed
qed auto

lemma first_run_Some:
  "first_run bs s n v = Some i \<longleftrightarrow>
     s \<le> i \<and> run_at bs i n v \<and> (\<forall>k. s \<le> k \<and> k < i \<longrightarrow> \<not> run_at bs k n v)"
  unfolding first_run_def find_upt_Some by (auto simp: run_at_def)

lemma first_run_None:
  "first_run bs s n v = None \<longleftrightarrow> (\<forall>k\<ge>s. \<not> run_at bs k n v)"
  unfolding first_run_def find_None_iff by (auto simp: run_at_def)

lemma first_run_Suc: "\<not> run_at bs s n v \<Longrightarrow> first_run bs (Suc s) n v = first_run bs s n v"
  by (cases "s < Suc (length bs)") (simp_all add: first_run_def upt_conv_Cons del: upt_Suc)

section \<open>Single bits and loops\<close>

lemma bits_of_update:
  assumes "bm_bit_cnt b' = bm_bit_cnt b" "i < bm_bit_cnt b"
    "\<And>j. bit_at b' j = (if j = unat i then v else bit_at b j)"
  shows "bits_of b' = (bits_of b)[unat i := v]"
proof (rule nth_equalityI)
  fix j
  assume "j < length (bits_of b')"
  then show "bits_of b' ! j = (bits_of b)[unat i := v] ! j"
    using assms by (cases "j = unat i") (simp_all add: nth_bits_of)
qed (simp add: assms)

lemma bitmap_cnt_simps [simp]:
  "bm_bit_cnt (bitmap_mark b i) = bm_bit_cnt b" "bm_bit_cnt (bitmap_reset b i) = bm_bit_cnt b"
  "bitmap_inv (bitmap_mark b i) = bitmap_inv b" "bitmap_inv (bitmap_reset b i) = bitmap_inv b"
  by (simp_all add: bitmap_mark_def bitmap_reset_def bitmap_inv_def Let_def)

lemma word_and_eq_0_iff: "(x :: u32) AND m = 0 \<longleftrightarrow> (\<forall>n. \<not> (bit x n \<and> bit m n))"
  using bit_imp_le_length [of x] by (auto simp: bit_eq_iff bit_and_iff)

lemma bitmap_set_spec:
  assumes "bitmap_inv b" "i < bm_bit_cnt b"
  shows "\<exists>b'. bitmap_set b i v = Ok b' \<and> bitmap_inv b' \<and> bits_of b' = (bits_of b)[unat i := v]"
proof (cases v)
  case True
  have "bits_of (bitmap_mark b i) = (bits_of b)[unat i := True]"
    using assms by (intro bits_of_update) (auto simp: bit_at_mark)
  with True assms show ?thesis by (simp add: bitmap_set_def)
next
  case False
  have "bits_of (bitmap_reset b i) = (bits_of b)[unat i := False]"
    using assms by (intro bits_of_update) (auto simp: bit_at_reset)
  with False assms show ?thesis by (simp add: bitmap_set_def)
qed

lemma bitmap_test_spec:
  assumes "i < bm_bit_cnt b"
  shows "bitmap_test b i = Ok (bits_of b ! unat i)"
proof -
  have "bm_bits b ! unat (elem_idx i) AND bit_mask i \<noteq> 0 \<longleftrightarrow> bit_at b (unat i)"
    by (auto simp: word_and_eq_0_iff bit_bit_mask bit_at_def unat_elem_idx)
  with assms show ?thesis by (simp add: bitmap_test_def nth_bits_of word_less_nat_alt)
qed

lemma unat_add_of_nat:
  fixes a :: u32
  assumes "unat a + n < 2 ^ 32"
  shows "unat (a + of_nat n) = unat a + n"
proof -
  have "unat (of_nat n :: u32) = n" using assms by (simp add: unat_of_nat take_bit_nat_eq_self_iff)
  with assms show ?thesis using unat_add_lem [of a "of_nat n"] by simp
qed

lemma bitmap_inv_bound: "bitmap_inv b \<Longrightarrow> n \<le> length (bits_of b) \<Longrightarrow> n < 2 ^ 32"
  by (simp add: bitmap_inv_def)

lemma set_loop_spec:
  assumes "bitmap_inv b" "unat start + n \<le> length (bits_of b)"
  shows "\<exists>b'. set_loop start v n b = Ok b' \<and> bitmap_inv b' \<and> bits_of b' = set_run (bits_of b) (unat start) n v"
  using assms(2)
proof (induction n)
  case 0
  then show ?case using assms by simp
next
  case (Suc n)
  then obtain b1 where b1: "set_loop start v n b = Ok b1" "bitmap_inv b1"
      "bits_of b1 = set_run (bits_of b) (unat start) n v"
    by auto
  have u: "unat (start + of_nat n) = unat start + n"
    using Suc.prems bitmap_inv_bound [OF assms(1) Suc.prems] by (intro unat_add_of_nat) simp
  have "length (bits_of b1) = length (bits_of b)" by (simp only: b1 length_set_run)
  then have "start + of_nat n < bm_bit_cnt b1"
    using Suc.prems by (simp add: word_less_nat_alt u)
  from bitmap_set_spec [OF b1(2) this, of v] b1 show ?case by (auto simp: u set_run_Suc)
qed

lemma word_range_ok:
  assumes "bitmap_inv b" "unat start + unat cnt \<le> length (bits_of b)"
  shows "start \<le> bm_bit_cnt b" "start + cnt \<le> bm_bit_cnt b"
proof -
  have "unat (start + cnt) = unat start + unat cnt"
    using unat_add_of_nat [of start "unat cnt"] bitmap_inv_bound [OF assms] by simp
  with assms show "start \<le> bm_bit_cnt b" "start + cnt \<le> bm_bit_cnt b"
    by (simp_all add: word_le_nat_alt)
qed

lemma bitmap_set_multiple_spec:
  assumes "bitmap_inv b" "unat start + unat cnt \<le> length (bits_of b)"
  shows "\<exists>b'. bitmap_set_multiple b start cnt v = Ok b' \<and> bitmap_inv b'
    \<and> bits_of b' = set_run (bits_of b) (unat start) (unat cnt) v"
  using set_loop_spec [OF assms] word_range_ok [OF assms] by (simp add: bitmap_set_multiple_def)

lemma contains_loop_spec:
  assumes "bitmap_inv b" "unat i + n \<le> length (bits_of b)"
  shows "contains_loop b i v n = Ok (\<exists>j\<in>{unat i..<unat i + n}. bits_of b ! j = v)"
  using assms(2)
proof (induction n arbitrary: i)
  case (Suc n)
  then have "i < bm_bit_cnt b" by (simp add: word_less_nat_alt)
  moreover have "unat (i + 1) = Suc (unat i)"
    using unat_add_of_nat [of i 1] bitmap_inv_bound [OF assms(1) Suc.prems] by simp
  moreover have "{unat i..<unat i + Suc n} = insert (unat i) {Suc (unat i)..<Suc (unat i) + n}" by auto
  ultimately show ?case using Suc by (auto simp: bitmap_test_spec)
qed simp

lemma bitmap_contains_spec:
  assumes "bitmap_inv b" "unat start + unat cnt \<le> length (bits_of b)"
  shows "bitmap_contains b start cnt v
    = Ok (\<exists>j\<in>{unat start..<unat start + unat cnt}. bits_of b ! j = v)"
  using contains_loop_spec [OF assms] word_range_ok [OF assms] by (simp add: bitmap_contains_def)

lemma not_contains_iff_run:
  assumes "i + n \<le> length bs"
  shows "(\<exists>j\<in>{i..<i + n}. bs ! j = (\<not> v)) \<longleftrightarrow> \<not> run_at bs i n v"
  using assms by (auto simp: run_at_def)

section \<open>Scanning\<close>

lemma scan_loop_spec:
  assumes inv: "bitmap_inv b" and "unat cnt \<le> length (bits_of b)"
    and "unat i + n = Suc (length (bits_of b) - unat cnt)"
  shows "\<exists>idx. scan_loop b cnt v i n = Ok idx \<and>
    (case first_run (bits_of b) (unat i) (unat cnt) v of
       None \<Rightarrow> idx = BITMAP_ERROR | Some k \<Rightarrow> unat idx = k)"
  using assms(3)
proof (induction n arbitrary: i)
  case 0
  then have "first_run (bits_of b) (unat i) (unat cnt) v = None"
    using assms(2) by (auto simp: first_run_None run_at_def)
  then show ?case by simp
next
  case (Suc n)
  then have r: "unat i + unat cnt \<le> length (bits_of b)" using assms(2) by simp
  note c = bitmap_contains_spec [OF inv r, of "\<not> v"] not_contains_iff_run [OF r, of v]
  show ?case
  proof (cases "run_at (bits_of b) (unat i) (unat cnt) v")
    case True
    then have "first_run (bits_of b) (unat i) (unat cnt) v = Some (unat i)" by (auto simp: first_run_Some)
    with True c show ?thesis by simp
  next
    case False
    have u: "unat (i + 1) = Suc (unat i)"
      using unat_add_of_nat [of i 1] bitmap_inv_bound [OF inv, of "unat i"] r Suc.prems
      by (simp add: bitmap_inv_def inv) (use inv in \<open>simp add: bitmap_inv_def\<close>)
    with Suc.IH [of "i + 1"] Suc.prems False c show ?thesis by (simp add: first_run_Suc)
  qed
qed

lemma bitmap_scan_spec:
  assumes inv: "bitmap_inv b" and "unat start \<le> length (bits_of b)"
  shows "\<exists>idx. bitmap_scan b start cnt v = Ok idx \<and>
    (case first_run (bits_of b) (unat start) (unat cnt) v of
       None \<Rightarrow> idx = BITMAP_ERROR | Some k \<Rightarrow> unat idx = k)"
proof -
  have s: "start \<le> bm_bit_cnt b" using assms(2) by (simp add: word_le_nat_alt)
  show ?thesis
  proof (cases "cnt \<le> bm_bit_cnt b")
    case True
    then have l: "unat (bm_bit_cnt b - cnt) = length (bits_of b) - unat cnt" and c: "unat cnt \<le> length (bits_of b)"
      by (simp_all add: unat_sub word_le_nat_alt)
    show ?thesis
    proof (cases "unat start \<le> Suc (length (bits_of b) - unat cnt)")
      case True
      from scan_loop_spec [OF inv c, of start "Suc (length (bits_of b) - unat cnt) - unat start" v] True
      show ?thesis using \<open>cnt \<le> bm_bit_cnt b\<close> s l by (simp add: bitmap_scan_def Let_def)
    next
      case False
      then have "first_run (bits_of b) (unat start) (unat cnt) v = None"
        by (auto simp: first_run_None run_at_def)
      then show ?thesis using False \<open>cnt \<le> bm_bit_cnt b\<close> s l by (simp add: bitmap_scan_def Let_def)
    qed
  next
    case False
    then have "first_run (bits_of b) (unat start) (unat cnt) v = None"
      by (auto simp: first_run_None run_at_def word_le_nat_alt)
    then show ?thesis using False s by (simp add: bitmap_scan_def)
  qed
qed

lemma bitmap_scan_and_flip_spec:
  assumes inv: "bitmap_inv b" and "unat start \<le> length (bits_of b)"
  shows "\<exists>idx b'. bitmap_scan_and_flip b start cnt v = Ok (idx, b') \<and> bitmap_inv b' \<and>
    (case first_run (bits_of b) (unat start) (unat cnt) v of
       None \<Rightarrow> idx = BITMAP_ERROR \<and> b' = b
     | Some k \<Rightarrow> idx \<noteq> BITMAP_ERROR \<and> unat idx = k \<and> bits_of b' = set_run (bits_of b) k (unat cnt) (\<not> v))"
proof -
  from bitmap_scan_spec [OF assms, of cnt v] obtain idx where
    idx: "bitmap_scan b start cnt v = Ok idx"
      "case first_run (bits_of b) (unat start) (unat cnt) v of
         None \<Rightarrow> idx = BITMAP_ERROR | Some k \<Rightarrow> unat idx = k"
    by blast
  show ?thesis
  proof (cases "first_run (bits_of b) (unat start) (unat cnt) v")
    case None
    with idx inv show ?thesis by (simp add: bitmap_scan_and_flip_def)
  next
    case (Some k)
    then have k: "k + unat cnt \<le> length (bits_of b)" "unat idx = k"
      using idx(2) by (simp add: first_run_Some run_at_def) (use idx(2) Some in simp)
    have "idx \<noteq> BITMAP_ERROR"
      using k inv by (auto simp: BITMAP_ERROR_def bitmap_inv_def unat_minus1_u32)
    with bitmap_set_multiple_spec [OF inv, of idx cnt "\<not> v"] k idx Some show ?thesis
      by (auto simp: bitmap_scan_and_flip_def)
  qed
qed

section \<open>The contract of a bit array\<close>

text \<open>The indices in use.\<close>

definition used_bits :: "bool list \<Rightarrow> nat set" where
  "used_bits bs = {i. i < length bs \<and> bs ! i}"

lemma used_bits_set_run:
  assumes "i + n \<le> length bs"
  shows "used_bits (set_run bs i n v) = (if v then used_bits bs \<union> {i..<i + n} else used_bits bs - {i..<i + n})"
  using assms by (auto simp: used_bits_def nth_set_run split: if_splits)

locale bit_array =
  fixes inv :: "'b \<Rightarrow> bool"
    and bits :: "'b \<Rightarrow> bool list"
    and scan_and_flip :: "'b \<Rightarrow> u32 \<Rightarrow> u32 \<Rightarrow> bool \<Rightarrow> (u32 \<times> 'b) outcome"
    and set_multiple :: "'b \<Rightarrow> u32 \<Rightarrow> u32 \<Rightarrow> bool \<Rightarrow> 'b outcome"
    and test_all :: "'b \<Rightarrow> u32 \<Rightarrow> u32 \<Rightarrow> bool outcome"
  assumes scan_and_flip: "inv b \<Longrightarrow> unat start \<le> length (bits b) \<Longrightarrow>
      \<exists>idx b'. scan_and_flip b start cnt v = Ok (idx, b') \<and> inv b' \<and>
        (case first_run (bits b) (unat start) (unat cnt) v of
           None \<Rightarrow> idx = BITMAP_ERROR \<and> b' = b
         | Some k \<Rightarrow> idx \<noteq> BITMAP_ERROR \<and> unat idx = k \<and> bits b' = set_run (bits b) k (unat cnt) (\<not> v))"
    and set_multiple: "inv b \<Longrightarrow> unat start + unat cnt \<le> length (bits b) \<Longrightarrow>
      \<exists>b'. set_multiple b start cnt v = Ok b' \<and> inv b' \<and> bits b' = set_run (bits b) (unat start) (unat cnt) v"
    and test_all: "inv b \<Longrightarrow> unat start + unat cnt \<le> length (bits b) \<Longrightarrow>
      test_all b start cnt = Ok (run_at (bits b) (unat start) (unat cnt) True)"
begin

text \<open>What taking a group adds to the indices in use and giving one back removes.\<close>

lemma take_group:
  assumes "inv b" "scan_and_flip b 0 cnt False = Ok (idx, b')"
  shows "inv b' \<and> length (bits b') = length (bits b) \<and>
    (if idx = BITMAP_ERROR then b' = b \<and> (\<forall>k. k + unat cnt \<le> length (bits b) \<longrightarrow> {k..<k + unat cnt} \<inter> used_bits (bits b) \<noteq> {})
     else unat idx + unat cnt \<le> length (bits b) \<and> {unat idx..<unat idx + unat cnt} \<inter> used_bits (bits b) = {}
       \<and> used_bits (bits b') = used_bits (bits b) \<union> {unat idx..<unat idx + unat cnt})"
proof (cases "first_run (bits b) 0 (unat cnt) False")
  case None
  with scan_and_flip [OF assms(1), of 0 cnt False] assms(2)
  have r: "idx = BITMAP_ERROR" "b' = b" "inv b'" by auto
  from None have "\<not> run_at (bits b) k (unat cnt) False" for k by (simp add: first_run_None)
  with r show ?thesis by (fastforce simp: run_at_def used_bits_def)
next
  case (Some k)
  with scan_and_flip [OF assms(1), of 0 cnt False] assms(2)
  have r: "idx \<noteq> BITMAP_ERROR" "unat idx = k" "inv b'" "bits b' = set_run (bits b) k (unat cnt) True"
    by auto
  moreover from Some have "run_at (bits b) k (unat cnt) False" by (simp add: first_run_Some)
  ultimately show ?thesis by (auto simp: run_at_def used_bits_set_run) (auto simp: used_bits_def)
qed

lemma give_group:
  assumes "inv b" "unat start + unat cnt \<le> length (bits b)"
  shows "\<exists>b'. set_multiple b start cnt False = Ok b' \<and> inv b' \<and> length (bits b') = length (bits b)
    \<and> used_bits (bits b') = used_bits (bits b) - {unat start..<unat start + unat cnt}"
  using set_multiple [OF assms, of False] assms(2) by (auto simp: used_bits_set_run)

lemma all_used:
  assumes "inv b" "unat start + unat cnt \<le> length (bits b)"
  shows "test_all b start cnt = Ok ({unat start..<unat start + unat cnt} \<subseteq> used_bits (bits b))"
  using test_all [OF assms] assms(2) by (auto simp: used_bits_def run_at_def)

end

interpretation bm: bit_array bitmap_inv bits_of bitmap_scan_and_flip bitmap_set_multiple bitmap_all
proof unfold_locales
  fix b and start cnt :: u32
  assume "bitmap_inv b" "unat start + unat cnt \<le> length (bits_of b)"
  then show "bitmap_all b start cnt = Ok (run_at (bits_of b) (unat start) (unat cnt) True)"
    using not_contains_iff_run [of "unat start" "unat cnt" "bits_of b" True]
    by (simp add: bitmap_all_def bitmap_contains_spec)
qed (simp_all add: bitmap_scan_and_flip_spec bitmap_set_multiple_spec)

section \<open>Properties\<close>



text \<open>
  A freshly created bitmap whose element count does not wrap is well formed and has
  every bit clear, whatever the allocated storage contained; the only failure is a
  failed allocation.
\<close>

lemma bitmap_create_clear:
  assumes "unat bit_cnt + 31 < 2 ^ 32" "length storage = (unat bit_cnt + 31) div 32"
  shows "(\<exists>b. bitmap_create bit_cnt True (Some storage) = Ok (Some b) \<and> bitmap_inv b
      \<and> bits_of b = replicate (unat bit_cnt) False)
    \<and> bitmap_create bit_cnt False x = Ok None
    \<and> (bit_cnt \<noteq> 0 \<longrightarrow> bitmap_create bit_cnt True None = Ok None)"
proof -
  let ?b = "\<lparr>bm_bit_cnt = bit_cnt, bm_bits = storage\<rparr>"
  have inv: "bitmap_inv ?b" using assms by (simp add: bitmap_inv_def)
  have "set_run (bits_of ?b) 0 (unat bit_cnt) False = replicate (unat bit_cnt) False"
    by (rule nth_equalityI) (simp_all add: nth_set_run)
  with bitmap_set_multiple_spec [OF inv, of 0 bit_cnt False] show ?thesis
    by (auto simp: bitmap_create_def bitmap_set_all_def bitmap_size_def)
qed

end
