(* ===== verification/FreeMap.thy ===== *)
theory FreeMap
  imports Bitmap
begin

text \<open>
  The free map of \<open>filesys/free-map.c\<close>, one bit per sector of the file-system device.
  Here are its bits; writing them to the free-map file goes through the inode layer
  and is added where that is available.  Allocation and release rely on the bitmap
  through the contract \<open>bit_array\<close>.
\<close>

section \<open>The operations\<close>

definition FREE_MAP_SECTOR :: u32 where
  "FREE_MAP_SECTOR = 0"

definition ROOT_DIR_SECTOR :: u32 where
  "ROOT_DIR_SECTOR = 1"

definition free_map_init :: "u32 \<Rightarrow> bool \<Rightarrow> u32 list option \<Rightarrow> bitmap outcome" where
  "free_map_init device_size got storage =
     bind (bitmap_create device_size got storage) (\<lambda>r.
     case r of
       None \<Rightarrow> Panic
     | Some free_map \<Rightarrow>
         Ok (bitmap_mark (bitmap_mark free_map FREE_MAP_SECTOR) ROOT_DIR_SECTOR))"

text \<open>\<open>None\<close> is the result \<open>false\<close>, \<open>Some\<close> the sector stored through \<open>sectorp\<close>.\<close>

definition free_map_allocate :: "bitmap \<Rightarrow> u32 \<Rightarrow> (u32 option \<times> bitmap) outcome" where
  "free_map_allocate free_map cnt =
     bind (bitmap_scan_and_flip free_map 0 cnt False) (\<lambda>(sector, free_map).
     Ok (if sector \<noteq> BITMAP_ERROR then Some sector else None, free_map))"

definition free_map_release_bits :: "bitmap \<Rightarrow> u32 \<Rightarrow> u32 \<Rightarrow> bitmap outcome" where
  "free_map_release_bits free_map sector cnt =
     bind (bitmap_all free_map sector cnt) (\<lambda>b.
     assert b (bitmap_set_multiple free_map sector cnt False))"

section \<open>Extents\<close>

definition sectors :: "u32 \<times> u32 \<Rightarrow> nat set" where
  "sectors e = {unat (fst e)..<unat (fst e) + unat (snd e)}"

abbreviation used_sectors :: "bitmap \<Rightarrow> nat set" where
  "used_sectors fm \<equiv> used_bits (bits_of fm)"

lemma free_map_allocate_spec:
  assumes "bitmap_inv fm"
  shows "\<exists>r fm'. free_map_allocate fm cnt = Ok (r, fm') \<and> bitmap_inv fm'
    \<and> length (bits_of fm') = length (bits_of fm)
    \<and> (case r of
         None \<Rightarrow> fm' = fm
           \<and> (\<forall>k. k + unat cnt \<le> length (bits_of fm) \<longrightarrow> {k..<k + unat cnt} \<inter> used_sectors fm \<noteq> {})
       | Some s \<Rightarrow> unat s + unat cnt \<le> length (bits_of fm) \<and> sectors (s, cnt) \<inter> used_sectors fm = {}
           \<and> used_sectors fm' = used_sectors fm \<union> sectors (s, cnt))"
proof -
  obtain idx fm' where r: "bitmap_scan_and_flip fm 0 cnt False = Ok (idx, fm')"
    using bitmap_scan_and_flip_spec [OF assms, of 0 cnt False] by auto
  from bm.take_group [OF assms r] r assms show ?thesis
    by (cases "idx = BITMAP_ERROR") (simp_all add: free_map_allocate_def sectors_def)
qed

lemma free_map_release_spec:
  assumes "bitmap_inv fm" "unat s + unat cnt \<le> length (bits_of fm)"
  shows "if sectors (s, cnt) \<subseteq> used_sectors fm
    then \<exists>fm'. free_map_release_bits fm s cnt = Ok fm' \<and> bitmap_inv fm'
      \<and> length (bits_of fm') = length (bits_of fm) \<and> used_sectors fm' = used_sectors fm - sectors (s, cnt)
    else free_map_release_bits fm s cnt = Panic"
  using bm.all_used [OF assms] bm.give_group [OF assms] by (auto simp: free_map_release_bits_def sectors_def)

section \<open>Clients that release what they allocated\<close>

datatype fm_op = FmAlloc u32 | FmRelease u32 u32

text \<open>
  Run a sequence of calls, keeping the extents handed out and not yet given back; a
  release of anything else is not made.
\<close>

fun fm_run :: "bitmap \<Rightarrow> (u32 \<times> u32) list \<Rightarrow> fm_op list \<Rightarrow> (bitmap \<times> (u32 \<times> u32) list) outcome" where
  "fm_run fm live [] = Ok (fm, live)"
| "fm_run fm live (FmAlloc cnt # ops) =
     bind (free_map_allocate fm cnt) (\<lambda>(r, fm).
     case r of None \<Rightarrow> fm_run fm live ops | Some s \<Rightarrow> fm_run fm ((s, cnt) # live) ops)"
| "fm_run fm live (FmRelease s cnt # ops) =
     (if (s, cnt) \<in> set live
      then bind (free_map_release_bits fm s cnt) (\<lambda>fm. fm_run fm (remove1 (s, cnt) live) ops)
      else fm_run fm live ops)"

text \<open>Pairwise disjoint extents.\<close>

fun disjoint_extents :: "(u32 \<times> u32) list \<Rightarrow> bool" where
  "disjoint_extents [] \<longleftrightarrow> True"
| "disjoint_extents (e # es) \<longleftrightarrow> list_all (\<lambda>f. sectors e \<inter> sectors f = {}) es \<and> disjoint_extents es"

definition fm_inv :: "nat set \<Rightarrow> nat \<Rightarrow> bitmap \<times> (u32 \<times> u32) list \<Rightarrow> bool" where
  "fm_inv reserved len s \<longleftrightarrow> (case s of (fm, live) \<Rightarrow>
     bitmap_inv fm \<and> length (bits_of fm) = len \<and> disjoint_extents live
     \<and> (\<forall>e\<in>set live. unat (fst e) + unat (snd e) \<le> len \<and> sectors e \<inter> reserved = {})
     \<and> used_sectors fm = reserved \<union> (\<Union>e\<in>set live. sectors e))"

lemma disjoint_extents_remove1:
  assumes "disjoint_extents es" "e \<in> set es"
  shows "disjoint_extents (remove1 e es) \<and> (\<Union>f\<in>set (remove1 e es). sectors f) = (\<Union>f\<in>set es. sectors f) - sectors e"
  using assms
proof (induction es)
  case (Cons f es)
  show ?case
  proof (cases "e = f")
    case True
    with Cons.prems show ?thesis by (auto simp: list_all_iff)
  next
    case False
    then have "sectors f \<inter> sectors e = {}" using Cons.prems by (auto simp: list_all_iff)
    with False Cons set_remove1_subset [of e es] show ?thesis by (auto simp: list_all_iff)
  qed
qed simp

lemma fm_inv_alloc:
  assumes "fm_inv R len (fm, live)"
  shows "\<exists>r fm'. free_map_allocate fm cnt = Ok (r, fm')
    \<and> fm_inv R len (fm', case r of None \<Rightarrow> live | Some s \<Rightarrow> (s, cnt) # live)"
proof -
  have inv: "bitmap_inv fm" and used: "used_sectors fm = R \<union> (\<Union>e\<in>set live. sectors e)"
    using assms by (simp_all add: fm_inv_def)
  from free_map_allocate_spec [OF inv, of cnt] obtain r fm' where
    r: "free_map_allocate fm cnt = Ok (r, fm')" "bitmap_inv fm'" "length (bits_of fm') = length (bits_of fm)"
      "case r of None \<Rightarrow> fm' = fm | Some s \<Rightarrow> unat s + unat cnt \<le> length (bits_of fm)
        \<and> sectors (s, cnt) \<inter> used_sectors fm = {} \<and> used_sectors fm' = used_sectors fm \<union> sectors (s, cnt)"
    by (auto split: option.splits)
  show ?thesis
  proof (cases r)
    case None
    with r assms show ?thesis by simp
  next
    case (Some s)
    then have d: "sectors (s, cnt) \<inter> R = {}" "\<forall>e\<in>set live. sectors (s, cnt) \<inter> sectors e = {}"
      using r(4) used by auto
    with Some r assms used show ?thesis
      by (auto simp: fm_inv_def list_all_iff)
  qed
qed

lemma fm_inv_release:
  assumes "fm_inv R len (fm, live)" "(s, cnt) \<in> set live"
  shows "\<exists>fm'. free_map_release_bits fm s cnt = Ok fm' \<and> fm_inv R len (fm', remove1 (s, cnt) live)"
proof -
  have h: "bitmap_inv fm" "unat s + unat cnt \<le> length (bits_of fm)" "sectors (s, cnt) \<subseteq> used_sectors fm"
    "sectors (s, cnt) \<inter> R = {}" "disjoint_extents live"
    using assms by (auto simp: fm_inv_def)
  note d = disjoint_extents_remove1 [OF h(5) assms(2)]
  from free_map_release_spec [OF h(1,2)] h(3) obtain fm' where
    "free_map_release_bits fm s cnt = Ok fm'" "bitmap_inv fm'" "length (bits_of fm') = length (bits_of fm)"
    "used_sectors fm' = used_sectors fm - sectors (s, cnt)"
    by auto
  moreover have "set (remove1 (s, cnt) live) \<subseteq> set live" by (rule set_remove1_subset)
  ultimately show ?thesis
    using assms h(4) d by (auto simp: fm_inv_def)
qed

lemma fm_run_inv:
  assumes "fm_inv R len (fm, live)"
  shows "\<exists>fm' live'. fm_run fm live ops = Ok (fm', live') \<and> fm_inv R len (fm', live')"
  using assms
proof (induction ops arbitrary: fm live)
  case (Cons op ops)
  show ?case
  proof (cases op)
    case (FmAlloc cnt)
    from fm_inv_alloc [OF Cons.prems, of cnt] obtain r fm' where
      "free_map_allocate fm cnt = Ok (r, fm')"
      "fm_inv R len (fm', case r of None \<Rightarrow> live | Some s \<Rightarrow> (s, cnt) # live)"
      by blast
    with Cons.IH FmAlloc show ?thesis by (cases r) auto
  next
    case (FmRelease s cnt)
    with fm_inv_release [OF Cons.prems, of s cnt] Cons.IH Cons.prems show ?thesis by auto
  qed
qed simp

lemma free_map_init_inv:
  assumes "2 \<le> unat n" "unat n + 31 < 2 ^ 32" "length storage = (unat n + 31) div 32"
  shows "\<exists>fm. free_map_init n True (Some storage) = Ok fm \<and> fm_inv {0, 1} (unat n) (fm, [])"
proof -
  let ?b = "\<lparr>bm_bit_cnt = n, bm_bits = storage\<rparr>"
  have "bitmap_inv ?b" using assms by (simp add: bitmap_inv_def)
  from bitmap_set_multiple_spec [OF this, of 0 n False] obtain fm where
    c: "bitmap_create n True (Some storage) = Ok (Some fm)" "bitmap_inv fm"
      "bits_of fm = set_run (bits_of ?b) 0 (unat n) False"
    by (auto simp: bitmap_create_def bitmap_set_all_def bitmap_size_def)
  have "length (bits_of fm) = unat n" by (simp only: c length_set_run) simp
  then have l: "bm_bit_cnt fm = n" by (simp add: word_unat_eq_iff)
  have "0 < n" "1 < n" using assms(1) by (simp_all add: word_less_nat_alt)
  moreover have "\<not> bit_at fm j" if "j < unat n" for j
    using that nth_bits_of [of j fm] c(3) by (simp add: l nth_set_run)
  ultimately have "used_sectors (bitmap_mark (bitmap_mark fm 0) 1) = {0, 1}"
    using c(2) assms(1) by (auto simp: used_bits_def nth_bits_of bit_at_mark l)
  with c l show ?thesis
    by (simp add: free_map_init_def fm_inv_def FREE_MAP_SECTOR_def ROOT_DIR_SECTOR_def)
qed

section \<open>Properties\<close>

text \<open>
  C6: starting from a freshly initialised free map, every sequence of
  \<open>free_map_allocate\<close> and of releases of extents it handed out runs without a failed
  assertion, and at its end the extents still handed out are pairwise disjoint, lie on
  the device, avoid the sectors of the free map and of the root directory, and
  together with these two sectors are exactly the sectors marked in use.
\<close>

theorem free_map_extents:
  assumes "2 \<le> unat n" "unat n + 31 < 2 ^ 32" "length storage = (unat n + 31) div 32"
  shows "\<exists>fm fm' live. free_map_init n True (Some storage) = Ok fm \<and> fm_run fm [] ops = Ok (fm', live)
    \<and> disjoint_extents live
    \<and> (\<forall>e\<in>set live. unat (fst e) + unat (snd e) \<le> unat n \<and> sectors e \<inter> {0, 1} = {})
    \<and> used_sectors fm' = {0, 1} \<union> (\<Union>e\<in>set live. sectors e)"
proof -
  from free_map_init_inv [OF assms] obtain fm where
    fm: "free_map_init n True (Some storage) = Ok fm" "fm_inv {0, 1} (unat n) (fm, [])" by blast
  from fm_run_inv [OF fm(2), of ops] fm(1) show ?thesis unfolding fm_inv_def by fastforce
qed

theorem free_map_extents_witness:
  "\<exists>fm fm' live. free_map_init 40 True (Some [7, 7]) = Ok fm
     \<and> fm_run fm [] [FmAlloc 3, FmAlloc 1, FmRelease 2 3, FmAlloc 2] = Ok (fm', live)
     \<and> disjoint_extents live"
proof -
  have h: "2 \<le> unat (40::u32)" "unat (40::u32) + 31 < 2 ^ 32"
      "length [7::u32, 7] = (unat (40::u32) + 31) div 32"
    by simp_all
  from free_map_extents [OF h, of "[FmAlloc 3, FmAlloc 1, FmRelease 2 3, FmAlloc 2]"]
  show ?thesis by blast
qed

end
