(* ===== verification/Bytes.thy ===== *)
theory Bytes
  imports Prelude
begin

text \<open>
  Memory as lists of bytes: the 32-bit little-endian words that the on-disk structures
  and tables of the file system are made of, and copying.
\<close>

unbundle bit_operations_syntax

section \<open>Words\<close>

definition word_of_bytes :: "u8 \<Rightarrow> u8 \<Rightarrow> u8 \<Rightarrow> u8 \<Rightarrow> u32" where
  "word_of_bytes a b c d =
     ucast a OR push_bit 8 (ucast b) OR push_bit 16 (ucast c) OR push_bit 24 (ucast d)"

definition bytes_of_word :: "u32 \<Rightarrow> bytes" where
  "bytes_of_word w = [ucast w, ucast (drop_bit 8 w), ucast (drop_bit 16 w), ucast (drop_bit 24 w)]"

text \<open>The \<open>k\<close>-th word of an array, read and written.\<close>

definition ld32 :: "bytes \<Rightarrow> nat \<Rightarrow> u32" where
  "ld32 m k = word_of_bytes (m ! (4 * k)) (m ! (4 * k + 1)) (m ! (4 * k + 2)) (m ! (4 * k + 3))"

definition st32 :: "bytes \<Rightarrow> nat \<Rightarrow> u32 \<Rightarrow> bytes" where
  "st32 m k w = take (4 * k) m @ bytes_of_word w @ drop (4 * k + 4) m"

lemma length_bytes_of_word [simp]: "length (bytes_of_word w) = 4"
  by (simp add: bytes_of_word_def)

lemma word_of_bytes_of_word:
  "word_of_bytes (ucast w) (ucast (drop_bit 8 w)) (ucast (drop_bit 16 w)) (ucast (drop_bit 24 w)) = w"
proof (rule bit_word_eqI)
  fix n
  assume "n < LENGTH(32)"
  then consider "n < 8" | "8 \<le> n" "n < 16" | "16 \<le> n" "n < 24" | "24 \<le> n" "n < 32" by fastforce
  then show "bit (word_of_bytes (ucast w) (ucast (drop_bit 8 w)) (ucast (drop_bit 16 w)) (ucast (drop_bit 24 w))) n
      = bit w n"
    by cases (auto simp: word_of_bytes_def bit_or_iff bit_push_bit_iff bit_ucast_iff bit_drop_bit_eq)
qed

lemma length_st32 [simp]: "4 * k + 4 \<le> length m \<Longrightarrow> length (st32 m k w) = length m"
  by (simp add: st32_def)

lemma nth_st32:
  assumes "4 * k + 4 \<le> length m"
  shows "st32 m k w ! i = (if 4 * k \<le> i \<and> i < 4 * k + 4 then bytes_of_word w ! (i - 4 * k) else m ! i)"
  using assms by (auto simp: st32_def nth_append)

lemma ld32_st32:
  assumes "4 * k + 4 \<le> length m"
  shows "ld32 (st32 m k w) j = (if j = k then w else ld32 m j)"
proof (cases "j = k")
  case True
  then show ?thesis
    using word_of_bytes_of_word [of w]
    by (simp add: ld32_def nth_st32 [OF assms] bytes_of_word_def numeral_eq_Suc)
next
  case False
  then have n: "st32 m k w ! (4 * j + r) = m ! (4 * j + r)" if "r < 4" for r
    using that by (subst nth_st32 [OF assms]) auto
  from n [of 0] n [of 1] n [of 2] n [of 3] False show ?thesis
    by (simp add: ld32_def)
qed

lemma bytes_of_word_of_bytes: "bytes_of_word (word_of_bytes a b c d) = [a, b, c, d]"
proof -
  have "ucast (drop_bit 0 (word_of_bytes a b c d)) = a" "ucast (drop_bit 8 (word_of_bytes a b c d)) = b"
      "ucast (drop_bit 16 (word_of_bytes a b c d)) = c" "ucast (drop_bit 24 (word_of_bytes a b c d)) = d"
    by (rule bit_word_eqI, auto simp: word_of_bytes_def bit_or_iff bit_push_bit_iff bit_ucast_iff bit_drop_bit_eq
        dest: bit_imp_le_length)+
  then show ?thesis by (simp add: bytes_of_word_def)
qed

lemma st32_ld32:
  assumes "4 * k + 4 \<le> length m"
  shows "st32 m k (ld32 m k) = m"
proof -
  have "take 4 (drop (4 * k) m) = [m ! (4 * k), m ! (4 * k + 1), m ! (4 * k + 2), m ! (4 * k + 3)]"
    using assms by (intro nth_equalityI) (auto simp: less_Suc_eq numeral_eq_Suc)
  then have "st32 m k (ld32 m k) = take (4 * k) m @ take 4 (drop (4 * k) m) @ drop 4 (drop (4 * k) m)"
    by (simp only: st32_def ld32_def bytes_of_word_of_bytes drop_drop) (simp add: add.commute)
  then show ?thesis by (simp only: append_take_drop_id)
qed

end
