(* ===== verification/Inode.thy ===== *)
theory Inode
  imports CacheStore FreeMap Bytes
begin

text \<open>
  The inode layer of \<open>filesys/inode.c\<close>: files as trees of sectors (123 direct, one
  indirect, one doubly indirect table) behind the buffer cache, with holes, and the
  table of open inodes.  This theory has the definitions; \<open>InodeMap\<close> and \<open>InodeData\<close>
  prove what they do.

  Positions and sizes, \<open>off_t\<close> in the code, are natural numbers: the callers pass none
  that is negative, and the largest position that the tables can map is below
  \<open>2 ^ 23\<close>, so that no sum leaves the 32-bit range before the lookup has failed.
\<close>

section \<open>The data\<close>

definition NUM_DIRECT :: nat where
  "NUM_DIRECT = 123"

definition NUM_INDIRECT :: nat where
  "NUM_INDIRECT = 128"

definition NUM_DOUBLE_INDIRECT :: nat where
  "NUM_DOUBLE_INDIRECT = 16384"

text \<open>
  The on-disk inode fills one sector, as 128 words: \<open>length\<close>, \<open>is_dir\<close>, \<open>magic\<close>, the
  direct table, \<open>indirect\<close> and \<open>double_indirect\<close>.
\<close>

definition W_length :: nat where
  "W_length = 0"

definition W_is_dir :: nat where
  "W_is_dir = 1"

definition W_direct :: nat where
  "W_direct = 3"

definition W_indirect :: nat where
  "W_indirect = 126"

definition W_double_indirect :: nat where
  "W_double_indirect = 127"

lemmas inode_disk_layout = W_length_def W_is_dir_def W_direct_def W_indirect_def W_double_indirect_def

record inode =
  i_sector :: u32
  i_open_cnt :: int
  i_removed :: bool
  i_deny_write_cnt :: int

text \<open>
  The state of the file system: the cache over the device, the free map and the file
  that stores it, the memory of inodes and the list \<open>open_inodes\<close>, front first.
  \<open>heap\<close> is the number of allocations that will still succeed.
\<close>

record fs =
  fs_cache :: cache
  fs_free_map :: bitmap
  free_map_inode :: "nat option"
  inodes :: "nat \<Rightarrow> inode"
  open_inodes :: "nat list"
  next_inode :: nat
  heap :: nat

text \<open>\<open>(block_sector_t) -1\<close>: no sector; \<open>-2\<close>: the device is full.\<close>

definition NO_SECTOR :: u32 where
  "NO_SECTOR = - 1"

definition NO_SPACE :: u32 where
  "NO_SPACE = - 2"

section \<open>Access to pinned blocks\<close>

definition word_at :: "fs \<Rightarrow> nat \<Rightarrow> nat \<Rightarrow> u32" where
  "word_at f b k = ld32 (cb_data (blocks (fs_cache f) b)) k"

definition set_word :: "fs \<Rightarrow> nat \<Rightarrow> nat \<Rightarrow> u32 \<Rightarrow> fs" where
  "set_word f b k w =
     f\<lparr>fs_cache := cache_store (fs_cache f) b (st32 (cb_data (blocks (fs_cache f) b)) k w)\<rparr>"

definition get_block :: "fs \<Rightarrow> u32 \<Rightarrow> bool \<Rightarrow> (nat \<times> fs) outcome" where
  "get_block f s e = bind (cache_get_block (fs_cache f) s e) (\<lambda>(b, c). Ok (b, f\<lparr>fs_cache := c\<rparr>))"

definition read_block :: "fs \<Rightarrow> nat \<Rightarrow> (bytes \<times> fs) outcome" where
  "read_block f b = bind (cache_read_block (fs_cache f) b) (\<lambda>(d, c). Ok (d, f\<lparr>fs_cache := c\<rparr>))"

definition put_block :: "fs \<Rightarrow> nat \<Rightarrow> fs outcome" where
  "put_block f b = bind (cache_put_block (fs_cache f) b) (\<lambda>c. Ok (f\<lparr>fs_cache := c\<rparr>))"

definition mark_block_dirty :: "fs \<Rightarrow> nat \<Rightarrow> fs" where
  "mark_block_dirty f b = f\<lparr>fs_cache := cache_mark_block_dirty (fs_cache f) b\<rparr>"

definition zero_block :: "fs \<Rightarrow> nat \<Rightarrow> fs" where
  "zero_block f b = f\<lparr>fs_cache := cache_zero_block (fs_cache f) b\<rparr>"

definition read_ahead :: "fs \<Rightarrow> u32 \<Rightarrow> fs outcome" where
  "read_ahead f s = bind (cache_read_ahead (fs_cache f) s) (\<lambda>c. Ok (f\<lparr>fs_cache := c\<rparr>))"

text \<open>\<open>free_map_allocate (1, &table[k])\<close> on the table in block \<open>b\<close>.\<close>

definition allocate_entry :: "fs \<Rightarrow> nat \<Rightarrow> nat \<Rightarrow> (bool \<times> fs) outcome" where
  "allocate_entry f b k =
     bind (free_map_allocate (fs_free_map f) 1) (\<lambda>(r, m).
     let f = f\<lparr>fs_free_map := m\<rparr> in
     case r of None \<Rightarrow> Ok (False, f) | Some s \<Rightarrow> Ok (True, set_word f b k s))"

section \<open>From positions to sectors\<close>

text \<open>\<open>data->length / BLOCK_SECTOR_SIZE\<close> of the inode in block \<open>b\<close>.\<close>

definition full_sectors :: "fs \<Rightarrow> nat \<Rightarrow> int" where
  "full_sectors f b = sint (word_at f b W_length) div 512"

definition lookup_direct_table :: "fs \<Rightarrow> nat \<Rightarrow> nat \<Rightarrow> bool \<Rightarrow> (u32 \<times> fs) outcome" where
  "lookup_direct_table f b mapping write =
     (let sector = word_at f b (W_direct + mapping) in
      bind (if \<not> write \<and> mapping < NUM_DIRECT - 1 \<and> int mapping + 1 < full_sectors f b
            then read_ahead f (word_at f b (W_direct + mapping + 1)) else Ok f) (\<lambda>f.
      if \<not> write \<and> sector = NO_SECTOR then Ok (NO_SECTOR, f)
      else if write \<and> sector = NO_SECTOR then
        bind (allocate_entry f b (W_direct + mapping)) (\<lambda>(ok, f).
        if \<not> ok then Ok (NO_SPACE, f) else Ok (word_at f b (W_direct + mapping), f))
      else Ok (sector, f)))"

text \<open>\<open>indirect_table[i] = -1\<close> for \<open>n\<close> entries.\<close>

primrec clear_table :: "nat \<Rightarrow> nat \<Rightarrow> fs \<Rightarrow> fs" where
  "clear_table b 0 f = f"
| "clear_table b (Suc i) f = set_word (clear_table b i f) b i NO_SECTOR"

definition access_indirect_block :: "fs \<Rightarrow> u32 \<Rightarrow> bool \<Rightarrow> (u32 \<times> fs) outcome" where
  "access_indirect_block f indirect write =
     (if \<not> write \<and> indirect = NO_SECTOR then Ok (NO_SECTOR, f)
      else if write \<and> indirect = NO_SECTOR then
        bind (free_map_allocate (fs_free_map f) 1) (\<lambda>(r, m).
        let f = f\<lparr>fs_free_map := m\<rparr> in
        case r of
          None \<Rightarrow> Ok (NO_SPACE, f)
        | Some indirect \<Rightarrow>
            bind (get_block f indirect True) (\<lambda>(b, f).
            bind (put_block (clear_table b NUM_INDIRECT (zero_block f b)) b) (\<lambda>f.
            Ok (indirect, f))))
      else Ok (indirect, f))"

text \<open>
  The last level, shared by the two indirect lookups: entry \<open>index\<close> of the table in
  sector \<open>indirect\<close>, for the inode in block \<open>ib\<close>.
\<close>

definition lookup_table :: "fs \<Rightarrow> nat \<Rightarrow> u32 \<Rightarrow> nat \<Rightarrow> nat \<Rightarrow> bool \<Rightarrow> (u32 \<times> fs) outcome" where
  "lookup_table f ib indirect mapping index write =
     bind (get_block f indirect write) (\<lambda>(b, f).
     bind (read_block f b) (\<lambda>(_, f).
     let sector = word_at f b index in
     bind (if \<not> write \<and> index < NUM_INDIRECT - 1 \<and> int mapping + 1 < full_sectors f ib
           then read_ahead f (word_at f b (index + 1)) else Ok f) (\<lambda>f.
     if \<not> write \<and> sector = NO_SECTOR then bind (put_block f b) (\<lambda>f. Ok (NO_SECTOR, f))
     else if write \<and> sector = NO_SECTOR then
       bind (allocate_entry f b index) (\<lambda>(ok, f).
       if \<not> ok then bind (put_block f b) (\<lambda>f. Ok (NO_SPACE, f))
       else let sector = word_at f b index
            in bind (put_block (mark_block_dirty f b) b) (\<lambda>f. Ok (sector, f)))
     else bind (put_block f b) (\<lambda>f. Ok (sector, f)))))"

definition lookup_indirect_table :: "fs \<Rightarrow> nat \<Rightarrow> nat \<Rightarrow> bool \<Rightarrow> (u32 \<times> fs) outcome" where
  "lookup_indirect_table f ib mapping write =
     bind (access_indirect_block f (word_at f ib W_indirect) write) (\<lambda>(indirect, f).
     if indirect = NO_SECTOR \<or> indirect = NO_SPACE then Ok (indirect, f)
     else lookup_table (set_word f ib W_indirect indirect) ib indirect mapping (mapping - NUM_DIRECT) write)"

definition lookup_double_indirect_table :: "fs \<Rightarrow> nat \<Rightarrow> nat \<Rightarrow> bool \<Rightarrow> (u32 \<times> fs) outcome" where
  "lookup_double_indirect_table f ib mapping write =
     bind (access_indirect_block f (word_at f ib W_double_indirect) write) (\<lambda>(double_indirect, f).
     if double_indirect = NO_SECTOR \<or> double_indirect = NO_SPACE then Ok (double_indirect, f)
     else
       bind (get_block (set_word f ib W_double_indirect double_indirect) double_indirect write) (\<lambda>(b, f).
       bind (read_block f b) (\<lambda>(_, f).
       let index = (mapping - NUM_DIRECT - NUM_INDIRECT) div NUM_INDIRECT in
       bind (access_indirect_block f (word_at f b index) write) (\<lambda>(indirect, f).
       if indirect = NO_SECTOR \<or> indirect = NO_SPACE then bind (put_block f b) (\<lambda>f. Ok (indirect, f))
       else
         let f = (if word_at f b index \<noteq> indirect
                  then mark_block_dirty (set_word f b index indirect) b else f)
         in bind (put_block f b) (\<lambda>f.
            lookup_table f ib indirect mapping ((mapping - NUM_DIRECT - NUM_INDIRECT) mod NUM_INDIRECT) write)))))"

definition byte_to_sector :: "fs \<Rightarrow> u32 \<Rightarrow> nat \<Rightarrow> bool \<Rightarrow> (u32 \<times> fs) outcome" where
  "byte_to_sector f isec pos write =
     bind (get_block f isec write) (\<lambda>(b, f).
     bind (read_block f b) (\<lambda>(_, f).
     let mapping = pos div BLOCK_SECTOR_SIZE in
     bind (if mapping < NUM_DIRECT then lookup_direct_table f b mapping write
           else if mapping < NUM_DIRECT + NUM_INDIRECT then lookup_indirect_table f b mapping write
           else if mapping < NUM_DIRECT + NUM_INDIRECT + NUM_DOUBLE_INDIRECT
                then lookup_double_indirect_table f b mapping write
           else Ok (NO_SECTOR, f)) (\<lambda>(sector, f).
     let f = (if sector \<noteq> NO_SECTOR \<and> sector \<noteq> NO_SPACE then mark_block_dirty f b else f)
     in bind (put_block f b) (\<lambda>f. Ok (sector, f)))))"

section \<open>Reading and writing\<close>

text \<open>One field of the on-disk inode.\<close>

definition inode_word :: "fs \<Rightarrow> u32 \<Rightarrow> nat \<Rightarrow> (u32 \<times> fs) outcome" where
  "inode_word f isec k =
     bind (get_block f isec False) (\<lambda>(b, f).
     bind (read_block f b) (\<lambda>(_, f).
     let w = word_at f b k
     in bind (put_block f b) (\<lambda>f. Ok (w, f))))"

definition inode_length :: "fs \<Rightarrow> u32 \<Rightarrow> (int \<times> fs) outcome" where
  "inode_length f isec = bind (inode_word f isec W_length) (\<lambda>(w, f). Ok (sint w, f))"

definition inode_is_dir :: "fs \<Rightarrow> u32 \<Rightarrow> (bool \<times> fs) outcome" where
  "inode_is_dir f isec = bind (inode_word f isec W_is_dir) (\<lambda>(w, f). Ok (w = 1, f))"

text \<open>
  The loop of \<open>inode_read_at\<close>; \<open>out\<close> is what has been stored at \<open>buffer\<close> so far, its
  length is \<open>bytes_read\<close>.
\<close>

function read_loop :: "fs \<Rightarrow> u32 \<Rightarrow> int \<Rightarrow> nat \<Rightarrow> nat \<Rightarrow> bytes \<Rightarrow> (bytes \<times> fs) outcome" where
  "read_loop f isec len sz offset out =
     (if sz = 0 then Ok (out, f)
      else
        bind (byte_to_sector f isec offset False) (\<lambda>(sector_idx, f).
        let sector_ofs = offset mod BLOCK_SECTOR_SIZE;
            chunk_size = min sz (min (nat (len - int offset)) (BLOCK_SECTOR_SIZE - sector_ofs))
        in if chunk_size = 0 then Ok (out, f)
           else
             bind (if sector_idx = NO_SECTOR then Ok (replicate chunk_size 0, f)
                   else
                     bind (get_block f sector_idx False) (\<lambda>(b, f).
                     bind (read_block f b) (\<lambda>(d, f).
                     bind (put_block f b) (\<lambda>f.
                     Ok (take chunk_size (drop sector_ofs d), f))))) (\<lambda>(d, f).
             read_loop f isec len (sz - chunk_size) (offset + chunk_size) (out @ d))))"
  by auto
termination
  by (relation "measure (\<lambda>(_, _, _, sz, _). sz)") auto

definition inode_read_at :: "fs \<Rightarrow> u32 \<Rightarrow> nat \<Rightarrow> nat \<Rightarrow> (bytes \<times> fs) outcome" where
  "inode_read_at f isec sz offset =
     bind (inode_length f isec) (\<lambda>(len, f).
     if int offset > len then Ok ([], f) else read_loop f isec len sz offset [])"

text \<open>
  The loop of \<open>inode_write_at\<close> returns the final \<open>offset\<close> and \<open>bytes_written\<close>; \<open>src\<close> is
  what is left of the buffer.
\<close>

function write_loop :: "fs \<Rightarrow> u32 \<Rightarrow> bytes \<Rightarrow> nat \<Rightarrow> nat \<Rightarrow> (nat \<times> nat \<times> fs) outcome" where
  "write_loop f isec src offset bytes_written =
     (if src = [] then Ok (offset, bytes_written, f)
      else
        bind (byte_to_sector f isec offset True) (\<lambda>(sector_idx, f).
        if sector_idx = NO_SPACE then Ok (offset, bytes_written, f)
        else
          let sector_ofs = offset mod BLOCK_SECTOR_SIZE;
              chunk_size = min (length src) (BLOCK_SECTOR_SIZE - sector_ofs);
              chunk = take chunk_size src
          in bind (get_block f sector_idx True) (\<lambda>(b, f).
             bind (if sector_ofs = 0 \<and> chunk_size = BLOCK_SECTOR_SIZE
                   then Ok (let f = zero_block f b
                            in f\<lparr>fs_cache := cache_store (fs_cache f) b chunk\<rparr>)
                   else bind (read_block f b) (\<lambda>(d, f).
                        Ok (f\<lparr>fs_cache := cache_store (fs_cache f) b (patch d sector_ofs chunk)\<rparr>))) (\<lambda>f.
             bind (put_block (mark_block_dirty f b) b) (\<lambda>f.
             write_loop f isec (drop chunk_size src) (offset + chunk_size) (bytes_written + chunk_size))))))"
  by auto
termination
  by (relation "measure (\<lambda>(_, _, src, _, _). length src)") (auto simp: BLOCK_SECTOR_SIZE_def)

text \<open>The update of the length behind the loop.\<close>

definition extend_length :: "fs \<Rightarrow> u32 \<Rightarrow> nat \<Rightarrow> fs outcome" where
  "extend_length f isec offset =
     bind (get_block f isec True) (\<lambda>(b, f).
     bind (read_block f b) (\<lambda>(_, f).
     let f = (if sint (word_at f b W_length) < int offset
              then mark_block_dirty (set_word f b W_length (of_nat offset)) b else f)
     in put_block f b))"

definition inode_write_at :: "fs \<Rightarrow> nat \<Rightarrow> bytes \<Rightarrow> nat \<Rightarrow> (nat \<times> fs) outcome" where
  "inode_write_at f ino src offset =
     (if i_deny_write_cnt (inodes f ino) \<noteq> 0 then Ok (0, f)
      else
        let isec = i_sector (inodes f ino) in
        bind (write_loop f isec src offset 0) (\<lambda>(offset, bytes_written, f).
        bind (extend_length f isec offset) (\<lambda>f. Ok (bytes_written, f))))"

declare read_loop.simps [simp del] write_loop.simps [simp del]

end
