(* ===== verification/InodeSlots.thy ===== *)
theory InodeSlots
  imports Inode
begin

text \<open>
  The tree of sectors of a file, read off a function \<open>v\<close> from sectors to contents.  A
  slot is a place that can name a sector: the tables and the data sectors.  A tree is
  well formed if no sector occurs in two slots and all of them are in use.  Growing a
  tree by one fresh sector changes one slot and nothing else.
\<close>

section \<open>Slots\<close>

definition MAX_SECTORS :: nat where
  "MAX_SECTORS = NUM_DIRECT + NUM_INDIRECT + NUM_DOUBLE_INDIRECT"

lemmas num_defs = NUM_DIRECT_def NUM_INDIRECT_def NUM_DOUBLE_INDIRECT_def MAX_SECTORS_def

datatype slot = SIndirect | SDouble | STable nat | SData nat

fun valid_slot :: "slot \<Rightarrow> bool" where
  "valid_slot SIndirect \<longleftrightarrow> True"
| "valid_slot SDouble \<longleftrightarrow> True"
| "valid_slot (STable k) \<longleftrightarrow> k < NUM_INDIRECT"
| "valid_slot (SData m) \<longleftrightarrow> m < MAX_SECTORS"

text \<open>Entry \<open>k\<close> of the table in sector \<open>t\<close>, if there is a table.\<close>

definition entry :: "(u32 \<Rightarrow> bytes) \<Rightarrow> u32 \<Rightarrow> nat \<Rightarrow> u32" where
  "entry v t k = (if t = NO_SECTOR then NO_SECTOR else ld32 (v t) k)"

definition tab1 :: "nat \<Rightarrow> nat" where
  "tab1 m = (m - NUM_DIRECT - NUM_INDIRECT) div NUM_INDIRECT"

definition tab2 :: "nat \<Rightarrow> nat" where
  "tab2 m = (m - NUM_DIRECT - NUM_INDIRECT) mod NUM_INDIRECT"

fun slot_of :: "(u32 \<Rightarrow> bytes) \<Rightarrow> u32 \<Rightarrow> slot \<Rightarrow> u32" where
  "slot_of v i SIndirect = ld32 (v i) W_indirect"
| "slot_of v i SDouble = ld32 (v i) W_double_indirect"
| "slot_of v i (STable k) = entry v (ld32 (v i) W_double_indirect) k"
| "slot_of v i (SData m) =
     (if m < NUM_DIRECT then ld32 (v i) (W_direct + m)
      else if m < NUM_DIRECT + NUM_INDIRECT then entry v (ld32 (v i) W_indirect) (m - NUM_DIRECT)
      else if m < MAX_SECTORS then entry v (entry v (ld32 (v i) W_double_indirect) (tab1 m)) (tab2 m)
      else NO_SECTOR)"

definition is_table :: "slot \<Rightarrow> bool" where
  "is_table s \<longleftrightarrow> (case s of SData _ \<Rightarrow> False | _ \<Rightarrow> True)"

definition tree_wf :: "(u32 \<Rightarrow> bytes) \<Rightarrow> u32 \<Rightarrow> nat set \<Rightarrow> u32 \<Rightarrow> bool" where
  "tree_wf v n used i \<longleftrightarrow>
     i < n \<and> unat i \<in> used \<and> unat n + 31 < 2 ^ 32
     \<and> (\<forall>a. valid_slot a \<and> slot_of v i a \<noteq> NO_SECTOR \<longrightarrow>
          slot_of v i a < n \<and> unat (slot_of v i a) \<in> used \<and> slot_of v i a \<noteq> i)
     \<and> (\<forall>a b. valid_slot a \<and> valid_slot b \<and> slot_of v i a \<noteq> NO_SECTOR \<and> slot_of v i a = slot_of v i b \<longrightarrow> a = b)"

definition tables :: "(u32 \<Rightarrow> bytes) \<Rightarrow> u32 \<Rightarrow> u32 set" where
  "tables v i = insert i {slot_of v i a | a. valid_slot a \<and> is_table a \<and> slot_of v i a \<noteq> NO_SECTOR}"

lemma NO_SECTOR_ge: "unat n + 31 < 2 ^ 32 \<Longrightarrow> s < n \<Longrightarrow> s \<noteq> NO_SECTOR \<and> s \<noteq> NO_SPACE"
proof -
  assume a: "unat n + 31 < 2 ^ 32" "s < n"
  have "unat (- 2 :: u32) = 4294967294" by simp
  with a show ?thesis
    by (auto simp: NO_SECTOR_def NO_SPACE_def word_less_nat_alt unat_minus1_u32)
qed

lemma tab_bounds:
  assumes "m < MAX_SECTORS" "\<not> m < NUM_DIRECT + NUM_INDIRECT"
  shows "tab1 m < NUM_INDIRECT" "tab2 m < NUM_INDIRECT"
  using assms by (auto simp: tab1_def tab2_def num_defs less_mult_imp_div_less)

lemma tab_inj:
  assumes "\<not> m < NUM_DIRECT + NUM_INDIRECT" "\<not> k < NUM_DIRECT + NUM_INDIRECT"
    "tab1 m = tab1 k" "tab2 m = tab2 k"
  shows "m = k"
proof -
  have "m - NUM_DIRECT - NUM_INDIRECT = k - NUM_DIRECT - NUM_INDIRECT"
    using assms(3,4) unfolding tab1_def tab2_def by (metis div_mult_mod_eq)
  with assms(1,2) show ?thesis by (simp add: num_defs)
qed

text \<open>The sectors of a well-formed tree that are tables are distinct from each other.\<close>

lemma tree_wfD:
  assumes "tree_wf v n used i" "valid_slot a" "slot_of v i a \<noteq> NO_SECTOR"
  shows "slot_of v i a < n" "unat (slot_of v i a) \<in> used" "slot_of v i a \<noteq> i"
  using assms by (auto simp: tree_wf_def)

lemma tree_wf_inj:
  assumes "tree_wf v n used i" "valid_slot a" "valid_slot b" "slot_of v i a = slot_of v i b"
    "slot_of v i a \<noteq> NO_SECTOR"
  shows "a = b"
  using assms by (auto simp: tree_wf_def)

lemma tree_wf_root: "tree_wf v n used i \<Longrightarrow> i < n \<and> unat i \<in> used \<and> unat n + 31 < 2 ^ 32"
  by (simp add: tree_wf_def)

section \<open>Growing\<close>

text \<open>
  One slot has been filled with a fresh sector \<open>s\<close>; only tables of the file and \<open>s\<close>
  itself have changed, and the first words of the inode have not.
\<close>

definition grow :: "(u32 \<Rightarrow> bytes) \<Rightarrow> u32 \<Rightarrow> slot \<Rightarrow> u32 \<Rightarrow> (u32 \<Rightarrow> bytes) \<Rightarrow> bool" where
  "grow v i a s v' \<longleftrightarrow> valid_slot a
     \<and> (\<forall>b. valid_slot b \<longrightarrow> slot_of v' i b = (if b = a then s else slot_of v i b))
     \<and> (\<forall>t. t \<notin> tables v i \<and> (t \<noteq> s \<or> \<not> is_table a) \<longrightarrow> v' t = v t)
     \<and> (\<forall>k<W_direct. ld32 (v' i) k = ld32 (v i) k)"

lemma grow_tree_wf:
  assumes wf: "tree_wf v n used i" and g: "grow v i a s v'" and s: "s < n" "unat s \<notin> used"
  shows "tree_wf v' n (insert (unat s) used) i"
proof -
  have eq: "slot_of v' i b = (if b = a then s else slot_of v i b)" if "valid_slot b" for b
    using g that by (simp add: grow_def)
  have ns: "s \<noteq> i" using s(2) tree_wf_root [OF wf] by auto
  have fresh: "slot_of v i b \<noteq> s" if "valid_slot b" "slot_of v i b \<noteq> NO_SECTOR" for b
    using tree_wfD(2) [OF wf that] s(2) by auto
  have "a1 = b1" if "valid_slot a1" "valid_slot b1" "slot_of v' i a1 \<noteq> NO_SECTOR" "slot_of v' i a1 = slot_of v' i b1"
    for a1 b1
    using that fresh [of a1] fresh [of b1] tree_wf_inj [OF wf, of a1 b1] by (auto simp: eq split: if_splits)
  moreover have "slot_of v' i b < n \<and> unat (slot_of v' i b) \<in> insert (unat s) used \<and> slot_of v' i b \<noteq> i"
    if "valid_slot b" "slot_of v' i b \<noteq> NO_SECTOR" for b
    using that tree_wfD [OF wf, of b] s(1) ns by (auto simp: eq split: if_splits)
  ultimately show ?thesis using tree_wf_root [OF wf] by (auto simp: tree_wf_def)
qed

lemma entry_upd: "t \<noteq> x \<Longrightarrow> entry (v(x := d)) t k = entry v t k"
  by (simp add: entry_def)

lemma entry_NO_SECTOR [simp]: "entry v NO_SECTOR k = NO_SECTOR"
  by (simp add: entry_def)

lemma tables_slot: "valid_slot a \<Longrightarrow> is_table a \<Longrightarrow> slot_of v i a \<noteq> NO_SECTOR \<Longrightarrow> slot_of v i a \<in> tables v i"
  by (auto simp: tables_def)

lemma root_in_tables [simp]: "i \<in> tables v i"
  by (simp add: tables_def)

lemma is_table_simps [simp]: "is_table SIndirect" "is_table SDouble" "is_table (STable k)" "\<not> is_table (SData m)"
  by (simp_all add: is_table_def)

text \<open>The tables of a well-formed tree, seen from its slots.\<close>

lemma table_facts:
  assumes wf: "tree_wf v n used i"
  defines "x \<equiv> ld32 (v i) W_indirect" and "y \<equiv> ld32 (v i) W_double_indirect"
  shows "x \<noteq> NO_SECTOR \<Longrightarrow> x \<noteq> i" "y \<noteq> NO_SECTOR \<Longrightarrow> y \<noteq> i" "x \<noteq> NO_SECTOR \<Longrightarrow> x \<noteq> y"
    "k < NUM_INDIRECT \<Longrightarrow> entry v y k \<noteq> NO_SECTOR \<Longrightarrow> entry v y k \<noteq> i \<and> entry v y k \<noteq> x \<and> entry v y k \<noteq> y"
    "k < NUM_INDIRECT \<Longrightarrow> j < NUM_INDIRECT \<Longrightarrow> entry v y k \<noteq> NO_SECTOR \<Longrightarrow> entry v y k = entry v y j \<Longrightarrow> k = j"
  using tree_wfD(3) [OF wf, of SIndirect] tree_wfD(3) [OF wf, of SDouble] tree_wfD(3) [OF wf, of "STable k"]
    tree_wf_inj [OF wf, of SIndirect SDouble] tree_wf_inj [OF wf, of "STable k" SIndirect]
    tree_wf_inj [OF wf, of "STable k" SDouble] tree_wf_inj [OF wf, of "STable k" "STable j"]
  by (auto simp: x_def y_def)

text \<open>Filling a direct slot.\<close>

lemma grow_direct:
  assumes wf: "tree_wf v n used i" and m: "m < NUM_DIRECT" and len: "length (v i) = 512"
  shows "grow v i (SData m) s (v(i := st32 (v i) (W_direct + m) s))"
proof -
  have ld: "ld32 (st32 (v i) (W_direct + m) s) k = (if k = W_direct + m then s else ld32 (v i) k)" for k
    using m len by (intro ld32_st32) (simp add: inode_disk_layout num_defs)
  let ?v = "v(i := st32 (v i) (W_direct + m) s)"
  have w: "ld32 (?v i) W_indirect = ld32 (v i) W_indirect" "ld32 (?v i) W_double_indirect = ld32 (v i) W_double_indirect"
    using m by (simp_all add: ld) (simp_all add: inode_disk_layout num_defs)
  have e1: "entry ?v (ld32 (v i) W_indirect) k = entry v (ld32 (v i) W_indirect) k"
    and e2: "entry ?v (ld32 (v i) W_double_indirect) k = entry v (ld32 (v i) W_double_indirect) k" for k
    using table_facts(1,2) [OF wf] by (auto simp: entry_def)
  have e3: "entry ?v (entry v (ld32 (v i) W_double_indirect) (tab1 k)) j
      = entry v (entry v (ld32 (v i) W_double_indirect) (tab1 k)) j"
    if "k < MAX_SECTORS" "\<not> k < NUM_DIRECT + NUM_INDIRECT" for k j
    using table_facts(4) [OF wf tab_bounds(1) [OF that]] by (auto simp: entry_def)
  have "slot_of ?v i b = (if b = SData m then s else slot_of v i b)" if "valid_slot b" for b
  proof (cases b)
    case (SData k)
    with that m show ?thesis
      by (simp only: slot_of.simps w e1 e2) (auto simp: ld e3)
  qed (use w e2 in \<open>simp_all only: slot_of.simps slot.distinct if_False\<close>)
  then show ?thesis
    using m by (auto simp: grow_def MAX_SECTORS_def ld)
qed

text \<open>A fresh sector is in no slot.\<close>

lemma fresh_facts:
  assumes wf: "tree_wf v n used i" and s: "s < n" "unat s \<notin> used"
  shows "s \<noteq> i" "s \<noteq> NO_SECTOR" "valid_slot a \<Longrightarrow> slot_of v i a \<noteq> s" "s \<notin> tables v i"
proof -
  show "s \<noteq> i" using s(2) tree_wf_root [OF wf] by auto
  show ns: "s \<noteq> NO_SECTOR" using NO_SECTOR_ge s(1) tree_wf_root [OF wf] by blast
  show sl: "slot_of v i a \<noteq> s" if "valid_slot a" for a
    using tree_wfD(2) [OF wf that] s(2) ns by (cases "slot_of v i a = NO_SECTOR") auto
  then show "s \<notin> tables v i" using \<open>s \<noteq> i\<close> by (auto simp: tables_def)
qed

definition blank_table :: "bytes \<Rightarrow> bool" where
  "blank_table d \<longleftrightarrow> (\<forall>k<NUM_INDIRECT. ld32 d k = NO_SECTOR)"

lemma index_bounds:
  "m < NUM_DIRECT + NUM_INDIRECT \<Longrightarrow> \<not> m < NUM_DIRECT \<Longrightarrow> m - NUM_DIRECT < NUM_INDIRECT"
  by simp

lemma word_slots:
  "m < NUM_DIRECT \<Longrightarrow> W_direct + m \<noteq> W_indirect \<and> W_direct + m \<noteq> W_double_indirect"
  "W_indirect \<noteq> W_double_indirect" "W_double_indirect \<noteq> W_indirect"
  "k < W_direct \<Longrightarrow> k \<noteq> W_indirect \<and> k \<noteq> W_double_indirect"
  by (auto simp: inode_disk_layout num_defs)

text \<open>Attaching a blank table to the inode.\<close>

lemma grow_indirect:
  assumes wf: "tree_wf v n used i" and x: "ld32 (v i) W_indirect = NO_SECTOR" and d: "blank_table d"
    and s: "s < n" "unat s \<notin> used" and len: "length (v i) = 512"
  shows "grow v i SIndirect s (v(s := d, i := st32 (v i) W_indirect s))"
proof -
  let ?v = "v(s := d, i := st32 (v i) W_indirect s)" and ?y = "ld32 (v i) W_double_indirect"
  note f = fresh_facts [OF wf s]
  have ld: "ld32 (?v i) k = (if k = W_indirect then s else ld32 (v i) k)" for k
    using len by (simp add: ld32_st32 inode_disk_layout)
  have sv: "?v s = d" using f(1) by simp
  have e2: "entry ?v ?y k = entry v ?y k" for k
    using table_facts(2) [OF wf] f(3) [of SDouble] by (auto simp: entry_def)
  have e3: "entry ?v (entry v ?y (tab1 k)) j = entry v (entry v ?y (tab1 k)) j"
    if "k < MAX_SECTORS" "\<not> k < NUM_DIRECT + NUM_INDIRECT" for k j
    using table_facts(4) [OF wf tab_bounds(1) [OF that]] f(3) [of "STable (tab1 k)"] tab_bounds(1) [OF that]
    by (auto simp: entry_def [of ?v] entry_def [of v "entry v ?y (tab1 k)"])
  have e1: "entry ?v s k = NO_SECTOR" if "k < NUM_INDIRECT" for k
    using d that by (simp only: entry_def sv) (simp add: blank_table_def)
  have "slot_of ?v i b = (if b = SIndirect then s else slot_of v i b)" if "valid_slot b" for b
  proof (cases b)
    case (SData k)
    then have sk: "slot_of ?v i b = (if k < NUM_DIRECT then ld32 (v i) (W_direct + k)
        else if k < NUM_DIRECT + NUM_INDIRECT then entry ?v s (k - NUM_DIRECT)
        else if k < MAX_SECTORS then entry ?v (entry v ?y (tab1 k)) (tab2 k) else NO_SECTOR)"
      using word_slots(1) [of k] by (simp only: slot_of.simps ld e2 word_slots(2,3) if_False if_True) auto
    show ?thesis
      unfolding sk using SData that e1 [of "k - NUM_DIRECT"] e3 [of k "tab2 k"] x index_bounds [of k] by auto
  qed (use word_slots e2 in \<open>simp_all only: slot_of.simps ld slot.distinct if_False if_True\<close>, simp_all)
  moreover have "\<forall>t. t \<notin> tables v i \<and> t \<noteq> s \<longrightarrow> ?v t = v t" by auto
  moreover have "\<forall>k<W_direct. ld32 (?v i) k = ld32 (v i) k" using word_slots(4) by (simp only: ld) auto
  ultimately show ?thesis by (simp add: grow_def)
qed

lemma grow_double:
  assumes wf: "tree_wf v n used i" and y: "ld32 (v i) W_double_indirect = NO_SECTOR" and d: "blank_table d"
    and s: "s < n" "unat s \<notin> used" and len: "length (v i) = 512"
  shows "grow v i SDouble s (v(s := d, i := st32 (v i) W_double_indirect s))"
proof -
  let ?v = "v(s := d, i := st32 (v i) W_double_indirect s)" and ?x = "ld32 (v i) W_indirect"
  note f = fresh_facts [OF wf s]
  have ld: "ld32 (?v i) k = (if k = W_double_indirect then s else ld32 (v i) k)" for k
    using len by (simp add: ld32_st32 inode_disk_layout)
  have sv: "?v s = d" using f(1) by simp
  have e1: "entry ?v ?x k = entry v ?x k" for k
    using table_facts(1) [OF wf] f(3) [of SIndirect] by (auto simp: entry_def)
  have e2: "entry ?v s k = NO_SECTOR" if "k < NUM_INDIRECT" for k
    using d that by (simp only: entry_def sv) (simp add: blank_table_def)
  have "slot_of ?v i b = (if b = SDouble then s else slot_of v i b)" if "valid_slot b" for b
  proof (cases b)
    case (STable k)
    with that e2 [of k] y show ?thesis by (simp only: slot_of.simps ld if_True) simp
  next
    case (SData k)
    then have sk: "slot_of ?v i b = (if k < NUM_DIRECT then ld32 (v i) (W_direct + k)
        else if k < NUM_DIRECT + NUM_INDIRECT then entry v ?x (k - NUM_DIRECT)
        else if k < MAX_SECTORS then entry ?v (entry ?v s (tab1 k)) (tab2 k) else NO_SECTOR)"
      using word_slots(1) [of k] by (simp only: slot_of.simps ld e1 word_slots(2,3) if_False if_True) auto
    show ?thesis
      unfolding sk using SData that e2 [OF tab_bounds(1) [of k]] y by auto
  qed (use word_slots in \<open>simp_all only: slot_of.simps ld slot.distinct if_False if_True\<close>, simp_all)
  moreover have "\<forall>t. t \<notin> tables v i \<and> t \<noteq> s \<longrightarrow> ?v t = v t" by auto
  moreover have "\<forall>k<W_direct. ld32 (?v i) k = ld32 (v i) k" using word_slots(4) by (simp only: ld) auto
  ultimately show ?thesis by (simp add: grow_def)
qed

text \<open>Attaching a blank table to the doubly indirect table.\<close>

lemma grow_table:
  assumes wf: "tree_wf v n used i" and k: "k < NUM_INDIRECT" and d: "blank_table d"
    and y: "ld32 (v i) W_double_indirect = y" "y \<noteq> NO_SECTOR" "ld32 (v y) k = NO_SECTOR"
    and s: "s < n" "unat s \<notin> used" and len: "length (v y) = 512"
  shows "grow v i (STable k) s (v(s := d, y := st32 (v y) k s))"
proof -
  let ?v = "v(s := d, y := st32 (v y) k s)" and ?x = "ld32 (v i) W_indirect"
  note f = fresh_facts [OF wf s] and t = table_facts [OF wf, unfolded y(1)]
  have i: "?v i = v i" using t(2) [OF y(2)] f(1) by auto
  have ys: "y \<noteq> s" using f(3) [of SDouble] y(1) by simp
  have ld: "ld32 (?v y) j = (if j = k then s else ld32 (v y) j)" for j
    using len k by (simp add: ld32_st32 num_defs)
  have sv: "?v s = d" using ys by simp
  have e1: "entry ?v ?x j = entry v ?x j" for j
    using t(3) f(3) [of SIndirect] by (auto simp: entry_def)
  have e2: "entry ?v y j = (if j = k then s else entry v y j)" for j
    using y(2) ld by (simp add: entry_def)
  have e3: "entry ?v s j = NO_SECTOR" if "j < NUM_INDIRECT" for j
    using d that by (simp only: entry_def sv) (simp add: blank_table_def)
  have e4: "entry ?v (entry v y (tab1 m)) j = entry v (entry v y (tab1 m)) j"
    if "m < MAX_SECTORS" "\<not> m < NUM_DIRECT + NUM_INDIRECT" for m j
    using t(4) [OF tab_bounds(1) [OF that]] f(3) [of "STable (tab1 m)"] tab_bounds(1) [OF that] y(1)
    by (auto simp: entry_def [of ?v] entry_def [of v "entry v y (tab1 m)"])
  have yk: "entry v y k = NO_SECTOR" using y(2,3) by (simp add: entry_def)
  have "slot_of ?v i b = (if b = STable k then s else slot_of v i b)" if "valid_slot b" for b
  proof (cases b)
    case (SData m)
    then have "slot_of ?v i b = (if m < NUM_DIRECT then ld32 (v i) (W_direct + m)
        else if m < NUM_DIRECT + NUM_INDIRECT then entry v ?x (m - NUM_DIRECT)
        else if m < MAX_SECTORS then entry ?v (if tab1 m = k then s else entry v y (tab1 m)) (tab2 m) else NO_SECTOR)"
      by (simp only: slot_of.simps i e1 y(1) e2)
    with SData that e3 [OF tab_bounds(2) [of m]] e4 [of m "tab2 m"] y(1) yk show ?thesis by auto
  qed (simp_all only: slot_of.simps i e1 y(1) e2, auto)
  moreover have "y \<in> tables v i" using tables_slot [of SDouble v i] y by simp
  then have "\<forall>t. t \<notin> tables v i \<and> t \<noteq> s \<longrightarrow> ?v t = v t" by auto
  ultimately show ?thesis using k i by (simp add: grow_def)
qed

text \<open>Filling a data slot of the indirect table, and of a second-level table.\<close>

lemma grow_indirect_data:
  assumes wf: "tree_wf v n used i" and m: "\<not> m < NUM_DIRECT" "m < NUM_DIRECT + NUM_INDIRECT"
    and x: "ld32 (v i) W_indirect = x" "x \<noteq> NO_SECTOR" and len: "length (v x) = 512"
  shows "grow v i (SData m) s (v(x := st32 (v x) (m - NUM_DIRECT) s))"
proof -
  let ?v = "v(x := st32 (v x) (m - NUM_DIRECT) s)" and ?y = "ld32 (v i) W_double_indirect"
  note t = table_facts [OF wf, unfolded x(1)]
  have i: "?v i = v i" using t(1) [OF x(2)] by auto
  have ld: "ld32 (?v x) j = (if j = m - NUM_DIRECT then s else ld32 (v x) j)" for j
    using len m by (simp add: ld32_st32 num_defs)
  have e1: "entry ?v x j = (if j = m - NUM_DIRECT then s else entry v x j)" for j
    using x(2) ld by (simp add: entry_def)
  have e2: "entry ?v ?y j = entry v ?y j" for j
    using t(3) [OF x(2)] by (auto simp: entry_def)
  have e4: "entry ?v (entry v ?y (tab1 k)) j = entry v (entry v ?y (tab1 k)) j"
    if "k < MAX_SECTORS" "\<not> k < NUM_DIRECT + NUM_INDIRECT" for k j
    using t(4) [OF tab_bounds(1) [OF that]] by (auto simp: entry_def [of ?v] entry_def [of v "entry v ?y (tab1 k)"])
  have "slot_of ?v i b = (if b = SData m then s else slot_of v i b)" if "valid_slot b" for b
  proof (cases b)
    case (SData k)
    then have sk: "slot_of ?v i b = (if k < NUM_DIRECT then ld32 (v i) (W_direct + k)
        else if k < NUM_DIRECT + NUM_INDIRECT then (if k - NUM_DIRECT = m - NUM_DIRECT then s else entry v x (k - NUM_DIRECT))
        else if k < MAX_SECTORS then entry ?v (entry v ?y (tab1 k)) (tab2 k) else NO_SECTOR)"
      by (simp only: slot_of.simps i e1 e2 x(1))
    show ?thesis unfolding sk using SData that e4 [of k "tab2 k"] x(1) m by auto
  qed (simp_all only: slot_of.simps i e2, simp_all)
  moreover have "x \<in> tables v i" using tables_slot [of SIndirect v i] x by simp
  then have "\<forall>t. t \<notin> tables v i \<longrightarrow> ?v t = v t" by auto
  ultimately show ?thesis using m i by (simp add: grow_def MAX_SECTORS_def)
qed

lemma grow_table_data:
  assumes wf: "tree_wf v n used i" and m: "\<not> m < NUM_DIRECT + NUM_INDIRECT" "m < MAX_SECTORS"
    and z: "entry v (ld32 (v i) W_double_indirect) (tab1 m) = z" "z \<noteq> NO_SECTOR" and len: "length (v z) = 512"
  shows "grow v i (SData m) s (v(z := st32 (v z) (tab2 m) s))"
proof -
  let ?v = "v(z := st32 (v z) (tab2 m) s)" and ?x = "ld32 (v i) W_indirect" and ?y = "ld32 (v i) W_double_indirect"
  note b = tab_bounds [OF m(2,1)]
  note t = table_facts [OF wf]
  have zz: "z \<noteq> i" "z \<noteq> ?x" "z \<noteq> ?y" using t(4) [OF b(1)] z by auto
  have i: "?v i = v i" using zz by auto
  have ld: "ld32 (?v z) j = (if j = tab2 m then s else ld32 (v z) j)" for j
    using len b(2) by (simp add: ld32_st32 num_defs)
  have e1: "entry ?v ?x j = entry v ?x j" "entry ?v ?y j = entry v ?y j" for j
    using zz by (auto simp: entry_def)
  have e4: "entry ?v (entry v ?y (tab1 k)) j
      = (if tab1 k = tab1 m \<and> j = tab2 m then s else entry v (entry v ?y (tab1 k)) j)"
    if "k < MAX_SECTORS" "\<not> k < NUM_DIRECT + NUM_INDIRECT" for k j
  proof (cases "tab1 k = tab1 m")
    case True
    then show ?thesis using z ld by (simp add: entry_def [of _ z])
  next
    case False
    then have "entry v ?y (tab1 k) \<noteq> z"
      using t(5) [OF b(1) tab_bounds(1) [OF that]] z by auto
    with False show ?thesis by (simp add: entry_upd)
  qed
  have "slot_of ?v i b = (if b = SData m then s else slot_of v i b)" if "valid_slot b" for b
  proof (cases b)
    case (SData k)
    then have sk: "slot_of ?v i b = (if k < NUM_DIRECT then ld32 (v i) (W_direct + k)
        else if k < NUM_DIRECT + NUM_INDIRECT then entry v ?x (k - NUM_DIRECT)
        else if k < MAX_SECTORS then entry ?v (entry v ?y (tab1 k)) (tab2 k) else NO_SECTOR)"
      by (simp only: slot_of.simps i e1)
    show ?thesis unfolding sk using SData that e4 [of k "tab2 k"] m tab_inj [of k m] by auto
  qed (simp_all only: slot_of.simps i e1, simp_all)
  moreover have "z \<in> tables v i" using tables_slot [of "STable (tab1 m)" v i] z b by simp
  then have "\<forall>t. t \<notin> tables v i \<longrightarrow> ?v t = v t" by auto
  ultimately show ?thesis using m i by (simp add: grow_def)
qed

end
