(* ===== verification/InodeMap.thy ===== *)
theory InodeMap
  imports InodeSlots
begin

text \<open>
  What the lookups of \<open>filesys/inode.c\<close> do to the tree of a file.  A state of the file
  system is summarised by the blocks that are pinned, the contents of the sectors and
  the free map; the predicate \<open>at\<close> relates the three to the state, and there is one
  rule for each access to a block.  The lookups are then run symbolically.
\<close>

section \<open>Summaries of states\<close>

text \<open>A pinned block that has been read, is dirty, or has been modified and not yet marked.\<close>

datatype mark = Same | Dirty | Unmarked

type_synonym pins = "nat \<rightharpoonup> bool \<times> u32 \<times> mark"

definition nsec :: "fs \<Rightarrow> u32" where
  "nsec f = b_size (fs_device (fs_cache f))"

abbreviation fview :: "fs \<Rightarrow> u32 \<Rightarrow> bytes" where
  "fview f \<equiv> cview (fs_cache f)"

definition pin_ok :: "cache \<Rightarrow> nat \<Rightarrow> bool \<times> u32 \<times> mark \<Rightarrow> bool" where
  "pin_ok c b p \<longleftrightarrow> (case p of (e, s, d) \<Rightarrow> b \<in> set (buffer_cache c) \<and> cb_sector (blocks c b) = s \<and> cb_valid (blocks c b)
     \<and> (d = Same \<longrightarrow> settled c b) \<and> (d = Dirty \<longrightarrow> cb_dirty (blocks c b)))"

definition pinned :: "pins \<Rightarrow> nat \<rightharpoonup> bool" where
  "pinned P b = map_option fst (P b)"

definition pins_ok :: "cache \<Rightarrow> pins \<Rightarrow> bool" where
  "pins_ok c P \<longleftrightarrow> cinv c (pinned P) \<and> (\<forall>b p. P b = Some p \<longrightarrow> pin_ok c b p)"

definition psecs :: "pins \<Rightarrow> u32 set" where
  "psecs P = {s. \<exists>b e d. P b = Some (e, s, d)}"

text \<open>\<open>f\<close> differs from \<open>f0\<close> in the cache and the free map only, and these are as given.\<close>

definition at :: "fs \<Rightarrow> fs \<Rightarrow> pins \<Rightarrow> (u32 \<Rightarrow> bytes) \<Rightarrow> bitmap \<Rightarrow> bool" where
  "at f0 f P v m \<longleftrightarrow> pins_ok (fs_cache f) P \<and> fview f = v \<and> fs_free_map f = m \<and> bitmap_inv m
     \<and> length (bits_of m) = unat (nsec f0) \<and> nsec f = nsec f0
     \<and> f = f0\<lparr>fs_cache := fs_cache f, fs_free_map := m\<rparr>"

lemma psecs_upd [simp]:
  "P b = None \<Longrightarrow> psecs (P(b \<mapsto> (e, s, d))) = insert s (psecs P)" "psecs Map.empty = {}"
  by (auto simp: psecs_def) (metis option.distinct(1))

lemma psecs_mark: "P b = Some (e, s, d) \<Longrightarrow> psecs (P(b \<mapsto> (e, s, d'))) = psecs P"
  by (auto simp: psecs_def split: if_splits) (metis option.inject prod.inject)

lemma pinned_simps [simp]:
  "pinned (P(b \<mapsto> (e, s, d))) = (pinned P)(b \<mapsto> e)" "pinned (P(b := None)) = (pinned P)(b := None)"
  "dom (pinned P) = dom P" "pinned Map.empty = Map.empty" "pinned P b = None \<longleftrightarrow> P b = None"
  by (auto simp: pinned_def fun_eq_iff)

lemma pinned_Some: "P b = Some (e, s, d) \<Longrightarrow> pinned P b = Some e"
  by (simp add: pinned_def)

lemma pinned_mark [simp]: "P b = Some (e, s, d) \<Longrightarrow> (pinned P)(b \<mapsto> e) = pinned P"
  by (auto simp: pinned_def fun_eq_iff)

lemma pin_ok_other:
  assumes "pin_ok c b p" "others_same i c c'" "b \<noteq> i"
  shows "pin_ok c' b p"
  using assms by (auto simp: pin_ok_def others_same_def split: prod.splits)

lemma pins_ok_step:
  assumes "pins_ok c P" "cinv c' ((pinned P)(i := map_option fst p))" "others_same i c c'"
    "\<And>q. p = Some q \<Longrightarrow> pin_ok c' i q"
  shows "pins_ok c' (P(i := p))"
proof -
  have "pinned (P(i := p)) = (pinned P)(i := map_option fst p)" by (auto simp: pinned_def fun_eq_iff)
  moreover have "pin_ok c' b q" if "P b = Some q" "b \<noteq> i" for b q
    using assms(1) that pin_ok_other [OF _ assms(3)] by (cases q) (simp add: pins_ok_def)
  ultimately show ?thesis
    using assms(2,4) by (simp add: pins_ok_def)
qed

lemma atD:
  assumes "at f0 f P v m"
  shows "pins_ok (fs_cache f) P" "cinv (fs_cache f) (pinned P)" "fview f = v" "fs_free_map f = m" "nsec f = nsec f0"
    "length (v s) = 512"
  using assms cview_length [of "fs_cache f" "pinned P" s] by (auto simp: at_def pins_ok_def BLOCK_SECTOR_SIZE_def)

lemma at_cache:
  assumes "at f0 f P v m" "pins_ok c P'" "cview c = v'" "b_size (fs_device c) = b_size (fs_device (fs_cache f))"
  shows "at f0 (f\<lparr>fs_cache := c\<rparr>) P' v' m"
  using assms by (cases f, cases f0) (simp add: at_def nsec_def)

lemma at_step:
  assumes a: "at f0 f P v m" and "cinv c' ((pinned P)(i := map_option fst p))" "cview c' = v'"
    "others_same i (fs_cache f) c'" "\<And>q. p = Some q \<Longrightarrow> pin_ok c' i q"
  shows "at f0 (f\<lparr>fs_cache := c'\<rparr>) (P(i := p)) v' m"
  using pins_ok_step [OF atD(1) [OF a]] assms by (intro at_cache [OF a]) (auto simp: others_same_def)

lemma at_pin:
  assumes "at f0 f P v m" "P b = Some (e, s, d)"
  shows "pin_ok (fs_cache f) b (e, s, d)" "pinned P b = Some e" "cb_sector (blocks (fs_cache f) b) = s"
    "cb_valid (blocks (fs_cache f) b)" "cb_data (blocks (fs_cache f) b) = v s" "s < nsec f0"
proof -
  show p: "pin_ok (fs_cache f) b (e, s, d)" using assms by (auto simp: at_def pins_ok_def)
  then show sec: "cb_sector (blocks (fs_cache f) b) = s" and val: "cb_valid (blocks (fs_cache f) b)"
    by (simp_all add: pin_ok_def)
  show e: "pinned P b = Some e" using assms(2) by (rule pinned_Some)
  show "cb_data (blocks (fs_cache f) b) = v s"
    using cview_pinned [OF atD(2) [OF assms(1)] e] sec val atD(3) [OF assms(1)] by simp
  show "s < nsec f0"
    using cinv_pinD(3) [OF atD(2) [OF assms(1)] e] sec atD(5) [OF assms(1)] by (simp add: block_ok_def nsec_def)
qed

lemma psecs_at:
  assumes "at f0 f P v m" "s \<notin> psecs P"
  shows "\<forall>b\<in>dom (pinned P). cb_sector (blocks (fs_cache f) b) \<noteq> s"
proof
  fix b
  assume "b \<in> dom (pinned P)"
  then obtain e t d where b: "P b = Some (e, t, d)" by auto
  with assms(2) have "t \<noteq> s" by (auto simp: psecs_def)
  with at_pin(3) [OF assms(1) b] show "cb_sector (blocks (fs_cache f) b) \<noteq> s" by simp
qed

section \<open>One rule for each access\<close>

text \<open>Pinning a block and reading it.\<close>

lemma at_get:
  assumes a: "at f0 f P v m" and "s < nsec f0" "s \<notin> psecs P" "card (dom P) < MAX_CACHE_SIZE"
  shows "\<exists>b c. get_block f s e = Ok (b, f\<lparr>fs_cache := c\<rparr>) \<and> P b = None \<and> cinv c ((pinned P)(b \<mapsto> e))
    \<and> cb_sector (blocks c b) = s \<and> cview c = v \<and> settled c b \<and> others_same b (fs_cache f) c"
proof -
  note d = atD [OF a]
  have "s < b_size (fs_device (fs_cache f))" using assms(2) d(5) by (simp add: nsec_def)
  from cache_get_block_spec [OF d(2) this psecs_at [OF a assms(3)], of e] assms(4) obtain b c where
    "cache_get_block (fs_cache f) s e = Ok (b, c)" "got (fs_cache f) (pinned P) s e b c" by auto
  then show ?thesis using d(3) by (auto simp: get_block_def got_def)
qed

lemma at_get_read:
  assumes a: "at f0 f P v m" and s: "s < nsec f0" "s \<notin> psecs P" "card (dom P) < MAX_CACHE_SIZE"
  shows "\<exists>b f1 f2. get_block f s e = Ok (b, f1) \<and> read_block f1 b = Ok (v s, f2) \<and> P b = None
    \<and> at f0 f2 (P(b \<mapsto> (e, s, Same))) v m"
proof -
  from at_get [OF a s, of e] obtain b c where
    1: "get_block f s e = Ok (b, f\<lparr>fs_cache := c\<rparr>)" "P b = None" "cinv c ((pinned P)(b \<mapsto> e))"
      "cb_sector (blocks c b) = s" "cview c = v" "settled c b" "others_same b (fs_cache f) c" by blast
  from cache_read_block_spec [OF 1(3), of b e] 1 obtain c' where
    2: "cache_read_block c b = Ok (v s, c')" "cinv c' ((pinned P)(b \<mapsto> e))" "cview c' = v" "cb_valid (blocks c' b)"
      "cb_sector (blocks c' b) = s" "settled c' b" "others_same b c c'" by auto
  have "b \<in> set (buffer_cache c')" using cinv_pinD(1) [OF 2(2), of b e] by simp
  then have "at f0 (f\<lparr>fs_cache := c'\<rparr>) (P(b := Some (e, s, Same))) v m"
    using 2 others_same_trans [OF 1(7) 2(7)] by (intro at_step [OF a]) (auto simp: pin_ok_def)
  then show ?thesis using 1 2(1) by (auto simp: read_block_def)
qed

text \<open>Pinning a block and clearing it.\<close>

lemma at_get_zero:
  assumes a: "at f0 f P v m" and s: "s < nsec f0" "s \<notin> psecs P" "card (dom P) < MAX_CACHE_SIZE"
  shows "\<exists>b f1. get_block f s True = Ok (b, f1) \<and> P b = None
    \<and> at f0 (zero_block f1 b) (P(b \<mapsto> (True, s, Dirty))) (v(s := replicate BLOCK_SECTOR_SIZE 0)) m"
proof -
  from at_get [OF a s, of True] obtain b c where
    1: "get_block f s True = Ok (b, f\<lparr>fs_cache := c\<rparr>)" "P b = None" "cinv c ((pinned P)(b \<mapsto> True))"
      "cb_sector (blocks c b) = s" "cview c = v" "others_same b (fs_cache f) c" by blast
  note z = cache_zero_block_spec [OF 1(3), of b, simplified]
  have "b \<in> set (buffer_cache (cache_zero_block c b))" using cinv_pinD(1) [OF z(1), of b True] by simp
  then have "at f0 (f\<lparr>fs_cache := cache_zero_block c b\<rparr>) (P(b := Some (True, s, Dirty)))
      (v(s := replicate BLOCK_SECTOR_SIZE 0)) m"
    using z 1(4,5) others_same_trans [OF 1(6) z(3)] by (intro at_step [OF a]) (auto simp: pin_ok_def)
  then show ?thesis using 1 by (auto simp: zero_block_def)
qed

text \<open>Storing into a block that is held exclusively.\<close>

definition touch :: "mark \<Rightarrow> mark" where
  "touch d = (if d = Dirty then Dirty else Unmarked)"

lemma touch_simps [simp]: "touch Dirty = Dirty" "touch Same = Unmarked" "touch Unmarked = Unmarked"
  by (simp_all add: touch_def)

lemma at_store:
  assumes a: "at f0 f P v m" and P: "P b = Some (True, s, k)" and d: "length d = BLOCK_SECTOR_SIZE"
  shows "at f0 (f\<lparr>fs_cache := cache_store (fs_cache f) b d\<rparr>) (P(b \<mapsto> (True, s, touch k))) (v(s := d)) m"
proof -
  note p = at_pin [OF a P]
  note c = cache_store_spec [OF atD(2) [OF a] p(2) p(4) d]
  have "b \<in> set (buffer_cache (cache_store (fs_cache f) b d))" using cinv_pinD(1) [OF c(1) p(2)] .
  then have "pin_ok (cache_store (fs_cache f) b d) b (True, s, touch k)"
    using c p by (cases k) (auto simp: pin_ok_def)
  moreover have "cview (cache_store (fs_cache f) b d) = v(s := d)"
    using c(2) atD(3) [OF a] p(3) by simp
  ultimately show ?thesis
    using c(1,3) P by (intro at_step [OF a]) auto
qed

lemma at_set_word:
  assumes a: "at f0 f P v m" and P: "P b = Some (True, s, d)" and k: "k < 128"
  shows "at f0 (set_word f b k w) (P(b \<mapsto> (True, s, touch d))) (v(s := st32 (v s) k w)) m"
  using at_store [OF a P, of "st32 (v s) k w"] at_pin(5) [OF a P] atD(6) [OF a, of s] k
  by (simp add: set_word_def BLOCK_SECTOR_SIZE_def)

lemma at_word_at: "at f0 f P v m \<Longrightarrow> P b = Some (e, s, d) \<Longrightarrow> word_at f b k = ld32 (v s) k"
  by (simp add: word_at_def at_pin(5))

lemma at_word: "at f0 f (P(b \<mapsto> (e, s, d))) v m \<Longrightarrow> word_at f b k = ld32 (v s) k"
  using at_word_at [of f0 f "P(b \<mapsto> (e, s, d))" v m b e s d k] by simp

lemma at_mark:
  assumes a: "at f0 f P v m" and P: "P b = Some (e, s, d)"
  shows "at f0 (mark_block_dirty f b) (P(b \<mapsto> (e, s, Dirty))) v m"
proof -
  note p = at_pin [OF a P]
  note c = cache_mark_block_dirty_spec [OF atD(2) [OF a] p(2) p(4)]
  have "cb_dirty (blocks (cache_mark_block_dirty (fs_cache f) b) b)" by (simp add: cache_mark_block_dirty_def)
  moreover have "b \<in> set (buffer_cache (cache_mark_block_dirty (fs_cache f) b))" using cinv_pinD(1) [OF c(1) p(2)] .
  ultimately show ?thesis
    unfolding mark_block_dirty_def using c p P atD(3) [OF a]
    by (intro at_step [OF a]) (auto simp: pin_ok_def)
qed

lemma at_put:
  assumes a: "at f0 f P v m" and P: "P b = Some (e, s, d)" "d \<noteq> Unmarked"
  shows "\<exists>f'. put_block f b = Ok f' \<and> at f0 f' (P(b := None)) v m"
proof -
  note p = at_pin [OF a P(1)]
  have "settled (fs_cache f) b" using p(1) P(2) by (cases d) (auto simp: pin_ok_def settled_def)
  from cache_put_block_spec [OF atD(2) [OF a] p(2) this] obtain c where
    c: "cache_put_block (fs_cache f) b = Ok c" "cinv c ((pinned P)(b := None))" "cview c = fview f"
      "others_same b (fs_cache f) c" by blast
  then have "at f0 (f\<lparr>fs_cache := c\<rparr>) (P(b := None)) v m"
    using atD(3) [OF a] by (intro at_step [OF a]) auto
  with c(1) show ?thesis by (simp add: put_block_def)
qed

lemma at_read_ahead:
  assumes a: "at f0 f P v m"
  shows "\<exists>f'. read_ahead f s = Ok f' \<and> at f0 f' P v m"
proof -
  note d = atD [OF a]
  from cache_read_ahead_spec [OF d(2), of s] obtain q where
    q: "cache_read_ahead (fs_cache f) s = Ok ((fs_cache f)\<lparr>read_queue := q\<rparr>)"
      "cinv ((fs_cache f)\<lparr>read_queue := q\<rparr>) (pinned P)" "cview ((fs_cache f)\<lparr>read_queue := q\<rparr>) = fview f"
    by blast
  have "pins_ok ((fs_cache f)\<lparr>read_queue := q\<rparr>) P"
    using q(2) d(1) by (auto simp: pins_ok_def pin_ok_def settled_def split: prod.splits)
  then have "at f0 (f\<lparr>fs_cache := (fs_cache f)\<lparr>read_queue := q\<rparr>\<rparr>) P v m"
    using q(3) d(3) by (intro at_cache [OF a]) auto
  with q(1) show ?thesis by (simp add: read_ahead_def)
qed

text \<open>The same rules for the block pinned last.\<close>

lemma at_mark_top:
  assumes "at f0 f (P(b \<mapsto> (e, s, d))) v m"
  shows "at f0 (mark_block_dirty f b) (P(b \<mapsto> (e, s, Dirty))) v m"
  using at_mark [OF assms, of b e s d] by simp

lemma at_put_top:
  assumes "at f0 f (P(b \<mapsto> (e, s, d))) v m" "d \<noteq> Unmarked" "P b = None"
  shows "\<exists>f'. put_block f b = Ok f' \<and> at f0 f' P v m"
  using at_put [OF assms(1), of b e s d] assms(2,3) by (simp add: fun_upd_idem)

lemma at_set_word_top:
  assumes "at f0 f (P(b \<mapsto> (True, s, d))) v m" "k < 128"
  shows "at f0 (set_word f b k w) (P(b \<mapsto> (True, s, touch d))) (v(s := st32 (v s) k w)) m"
  using at_set_word [OF assms(1), of b s d k w] assms(2) by simp

section \<open>Allocation\<close>

definition free_cnt :: "u32 \<Rightarrow> bitmap \<Rightarrow> nat" where
  "free_cnt n m = card ({..<unat n} - used_sectors m)"

text \<open>Sector \<open>s\<close> was free and has been taken.\<close>

definition taken :: "u32 \<Rightarrow> bitmap \<Rightarrow> u32 \<Rightarrow> bitmap \<Rightarrow> bool" where
  "taken n m s m' \<longleftrightarrow> s < n \<and> unat s \<notin> used_sectors m \<and> used_sectors m' = insert (unat s) (used_sectors m)"

lemma taken_free_cnt: "taken n m s m' \<Longrightarrow> free_cnt n m = Suc (free_cnt n m')"
proof -
  assume t: "taken n m s m'"
  then have "{..<unat n} - used_sectors m = insert (unat s) ({..<unat n} - used_sectors m')"
    "unat s \<notin> {..<unat n} - used_sectors m'"
    by (auto simp: taken_def word_less_nat_alt)
  then show ?thesis by (simp add: free_cnt_def)
qed

lemma at_alloc:
  assumes a: "at f0 f P v m"
  shows "if free_cnt (nsec f0) m = 0 then free_map_allocate (fs_free_map f) 1 = Ok (None, m)
    else \<exists>s m'. free_map_allocate (fs_free_map f) 1 = Ok (Some s, m') \<and> taken (nsec f0) m s m'
      \<and> at f0 (f\<lparr>fs_free_map := m'\<rparr>) P v m'"
proof -
  have m: "bitmap_inv m" "length (bits_of m) = unat (nsec f0)" "fs_free_map f = m" using a by (simp_all add: at_def)
  from free_map_allocate_spec [OF m(1), of 1, unfolded unsigned_1] obtain r m' where
    r: "free_map_allocate m 1 = Ok (r, m')" "bitmap_inv m'" "length (bits_of m') = length (bits_of m)"
      "case r of None \<Rightarrow> m' = m \<and> (\<forall>k. k + 1 \<le> length (bits_of m) \<longrightarrow> {k..<k + 1} \<inter> used_sectors m \<noteq> {})
       | Some s \<Rightarrow> unat s + 1 \<le> length (bits_of m) \<and> sectors (s, 1) \<inter> used_sectors m = {}
           \<and> used_sectors m' = used_sectors m \<union> sectors (s, 1)"
    by blast
  show ?thesis
  proof (cases r)
    case None
    with r(4) m(2) have "{..<unat (nsec f0)} - used_sectors m = {}" by auto
    with None r m(3) show ?thesis by (simp add: free_cnt_def)
  next
    case (Some s)
    with r(4) m(2) have t: "taken (nsec f0) m s m'" by (auto simp: taken_def sectors_def word_less_nat_alt)
    moreover have "at f0 (f\<lparr>fs_free_map := m'\<rparr>) P v m'"
      using a r(2,3) m(2) by (cases f, cases f0) (simp add: at_def nsec_def)
    ultimately show ?thesis using Some r(1) m(3) taken_free_cnt [OF t] by auto
  qed
qed

text \<open>Allocating an entry of a table that is held exclusively.\<close>

lemma at_allocate_entry:
  assumes a: "at f0 f P v m" and P: "P b = Some (True, t, d)" and k: "k < 128" and room: "0 < free_cnt (nsec f0) m"
  shows "\<exists>s m' f'. allocate_entry f b k = Ok (True, f') \<and> taken (nsec f0) m s m' \<and> word_at f' b k = s
    \<and> at f0 f' (P(b \<mapsto> (True, t, touch d))) (v(t := st32 (v t) k s)) m'"
proof -
  from at_alloc [OF a] room obtain s m' where
    s: "free_map_allocate (fs_free_map f) 1 = Ok (Some s, m')" "taken (nsec f0) m s m'" "at f0 (f\<lparr>fs_free_map := m'\<rparr>) P v m'"
    by (auto split: if_splits)
  note w = at_set_word [OF s(3) P k, of s]
  have "word_at (set_word (f\<lparr>fs_free_map := m'\<rparr>) b k s) b k = s"
    using at_word_at [OF w, of b] atD(6) [OF a, of t] k by (simp add: ld32_st32)
  with s w show ?thesis by (auto simp: allocate_entry_def Let_def)
qed

lemma at_allocate_entry_full:
  assumes a: "at f0 f P v m" and "free_cnt (nsec f0) m = 0"
  shows "allocate_entry f b k = Ok (False, f)"
  using at_alloc [OF a] assms(2) atD(4) [OF a] by (cases f) (simp add: allocate_entry_def Let_def)

text \<open>A fresh table.\<close>

lemma at_clear_table:
  assumes a: "at f0 f P v m" and P: "P b = Some (True, s, Dirty)" and "n \<le> 128"
  shows "\<exists>d. at f0 (clear_table b n f) P (v(s := d)) m \<and> (\<forall>k<n. ld32 d k = NO_SECTOR)"
  using assms(3)
proof (induction n)
  case 0
  from a have "at f0 (clear_table b 0 f) P (v(s := v s)) m" by simp
  then show ?case by blast
next
  case (Suc n)
  then obtain d where d: "at f0 (clear_table b n f) P (v(s := d)) m" "\<forall>k<n. ld32 d k = NO_SECTOR"
    using Suc_leD by blast
  have "P(b \<mapsto> (True, s, Dirty)) = P" using P by (simp add: fun_upd_idem)
  with at_set_word [OF d(1) P, of n NO_SECTOR] Suc.prems
  have "at f0 (clear_table b (Suc n) f) P (v(s := st32 d n NO_SECTOR)) m" by simp
  moreover have "length d = 512" using atD(6) [OF d(1), of s] by simp
  then have "\<forall>k<Suc n. ld32 (st32 d n NO_SECTOR) k = NO_SECTOR" using d(2) Suc.prems by (auto simp: ld32_st32)
  ultimately show ?case by blast
qed

lemma at_fresh_table:
  assumes a: "at f0 f P v m" and room: "0 < free_cnt (nsec f0) m"
    and P: "\<forall>t\<in>psecs P. unat t \<in> used_sectors m" "card (dom P) < MAX_CACHE_SIZE"
  shows "\<exists>s m' f' d. access_indirect_block f NO_SECTOR True = Ok (s, f') \<and> taken (nsec f0) m s m'
    \<and> at f0 f' P (v(s := d)) m' \<and> blank_table d"
proof -
  from at_alloc [OF a] room obtain s m' where
    s: "free_map_allocate (fs_free_map f) 1 = Ok (Some s, m')" "taken (nsec f0) m s m'" "at f0 (f\<lparr>fs_free_map := m'\<rparr>) P v m'"
    by (auto split: if_splits)
  have "s < nsec f0" "s \<notin> psecs P" using s(2) P(1) by (auto simp: taken_def)
  from at_get_zero [OF s(3) this P(2)] obtain b f1 where
    b: "get_block (f\<lparr>fs_free_map := m'\<rparr>) s True = Ok (b, f1)" "P b = None"
      "at f0 (zero_block f1 b) (P(b \<mapsto> (True, s, Dirty))) (v(s := replicate BLOCK_SECTOR_SIZE 0)) m'" by blast
  from at_clear_table [OF b(3), of b s NUM_INDIRECT] obtain d where
    d: "at f0 (clear_table b NUM_INDIRECT (zero_block f1 b)) (P(b \<mapsto> (True, s, Dirty))) (v(s := d)) m'" "blank_table d"
    by (simp add: NUM_INDIRECT_def blank_table_def) blast
  from at_put [OF d(1), of b] b(2) obtain f' where
    "put_block (clear_table b NUM_INDIRECT (zero_block f1 b)) b = Ok f'" "at f0 f' P (v(s := d)) m'"
    by (auto simp: fun_upd_idem)
  with s b d(2) show ?thesis by (auto simp: access_indirect_block_def Let_def)
qed

lemma at_fresh_table_full:
  assumes a: "at f0 f P v m" and "free_cnt (nsec f0) m = 0"
  shows "access_indirect_block f NO_SECTOR True = Ok (NO_SPACE, f)"
  using at_alloc [OF a] assms(2) atD(4) [OF a] by (cases f) (simp add: access_indirect_block_def Let_def)

lemma access_existing: "t \<noteq> NO_SECTOR \<Longrightarrow> access_indirect_block f t w = Ok (t, f)"
  by (simp add: access_indirect_block_def)

lemma access_hole: "access_indirect_block f NO_SECTOR False = Ok (NO_SECTOR, f)"
  by (simp add: access_indirect_block_def)

text \<open>Storing the word that is already there changes nothing.\<close>

lemma set_word_same:
  assumes a: "at f0 f P v m" and P: "P b = Some (e, s, d)" and "k < 128"
  shows "set_word f b k (ld32 (v s) k) = f"
proof -
  have "st32 (v s) k (ld32 (v s) k) = v s" using atD(6) [OF a, of s] assms(3) by (simp add: st32_ld32)
  with at_pin(5) [OF a P] have
    "cache_store (fs_cache f) b (st32 (cb_data (blocks (fs_cache f) b)) k (ld32 (v s) k)) = fs_cache f"
    by (cases "fs_cache f") (auto simp: cache_store_def)
  then show ?thesis by (cases f) (simp add: set_word_def)
qed

section \<open>Lookups that read\<close>

lemma at_maybe_ahead:
  assumes "at f0 f P v m"
  shows "\<exists>f'. (if c then read_ahead f s else Ok f) = Ok f' \<and> at f0 f' P v m"
  using at_read_ahead [OF assms, of s] assms by (cases c) auto

lemma lookup_direct_read:
  assumes a: "at f0 f P v m" and P: "P b = Some (e, i, d)"
  shows "\<exists>f'. lookup_direct_table f b k False = Ok (ld32 (v i) (W_direct + k), f') \<and> at f0 f' P v m"
proof -
  from at_maybe_ahead [OF a] obtain f' where
    "(if \<not> False \<and> k < NUM_DIRECT - 1 \<and> int k + 1 < full_sectors f b
      then read_ahead f (word_at f b (W_direct + k + 1)) else Ok f) = Ok f'" "at f0 f' P v m" by blast
  then show ?thesis
    using at_word_at [OF a P] by (auto simp: lookup_direct_table_def Let_def)
qed

lemma lookup_table_read:
  assumes a: "at f0 f P v m" and t: "t < nsec f0" "t \<notin> psecs P" "card (dom P) < MAX_CACHE_SIZE"
  shows "\<exists>f'. lookup_table f ib t k j False = Ok (ld32 (v t) j, f') \<and> at f0 f' P v m"
proof -
  from at_get_read [OF a t, of False] obtain b f1 f2 where
    g: "get_block f t False = Ok (b, f1)" "read_block f1 b = Ok (v t, f2)" "P b = None"
      "at f0 f2 (P(b \<mapsto> (False, t, Same))) v m" by blast
  from at_maybe_ahead [OF g(4)] obtain f3 where
    h: "(if \<not> False \<and> j < NUM_INDIRECT - 1 \<and> int k + 1 < full_sectors f2 ib
      then read_ahead f2 (word_at f2 b (j + 1)) else Ok f2) = Ok f3" "at f0 f3 (P(b \<mapsto> (False, t, Same))) v m" by blast
  from at_put [OF h(2), of b] g(3) obtain f4 where "put_block f3 b = Ok f4" "at f0 f4 P v m"
    by (auto simp: fun_upd_idem)
  moreover have "word_at f2 b j' = ld32 (v t) j'" for j' by (rule at_word [OF g(4)])
  ultimately show ?thesis using g h(1) by (auto simp: lookup_table_def Let_def)
qed

lemma one_pin [simp]: "Suc 0 < MAX_CACHE_SIZE" "0 < MAX_CACHE_SIZE"
  by (simp_all add: MAX_CACHE_SIZE_def)

lemma tree_slot:
  assumes "tree_wf v n U i" "valid_slot a" "slot_of v i a \<noteq> NO_SECTOR"
  shows "slot_of v i a < n" "slot_of v i a \<noteq> i" "slot_of v i a \<noteq> NO_SPACE"
  using tree_wfD [OF assms] NO_SECTOR_ge tree_wf_root [OF assms(1)] by blast+

lemma lookup_indirect_read:
  assumes a: "at f0 f [ib \<mapsto> (e, i, d)] v m" and wf: "tree_wf v (nsec f0) U i"
    and k: "\<not> k < NUM_DIRECT" "k < NUM_DIRECT + NUM_INDIRECT"
  shows "\<exists>f'. lookup_indirect_table f ib k False = Ok (slot_of v i (SData k), f') \<and> at f0 f' [ib \<mapsto> (e, i, d)] v m"
proof -
  let ?x = "ld32 (v i) W_indirect"
  have w: "word_at f ib W_indirect = ?x" by (rule at_word [OF a])
  show ?thesis
  proof (cases "?x = NO_SECTOR")
    case True
    with w k a show ?thesis by (simp add: lookup_indirect_table_def access_hole)
  next
    case False
    note t = tree_slot [OF wf, of SIndirect, simplified, OF False]
    have "set_word f ib W_indirect ?x = f" using set_word_same [OF a, of ib] by (simp add: inode_disk_layout)
    with lookup_table_read [OF a, of ?x ib k "k - NUM_DIRECT"] t False w k show ?thesis
      by (auto simp: lookup_indirect_table_def access_existing entry_def)
  qed
qed

lemmas lookup_double_tab = lookup_double_indirect_table_def [folded tab1_def tab2_def]

lemma lookup_double_read:
  assumes a: "at f0 f [ib \<mapsto> (e, i, d)] v m" and wf: "tree_wf v (nsec f0) U i"
    and k: "\<not> k < NUM_DIRECT + NUM_INDIRECT" "k < MAX_SECTORS"
  shows "\<exists>f'. lookup_double_indirect_table f ib k False = Ok (slot_of v i (SData k), f') \<and> at f0 f' [ib \<mapsto> (e, i, d)] v m"
proof -
  let ?y = "ld32 (v i) W_double_indirect" and ?P = "[ib \<mapsto> (e, i, d)]"
  have w: "word_at f ib W_double_indirect = ?y" by (rule at_word [OF a])
  have kk: "\<not> k < NUM_DIRECT" using k(1) by simp
  show ?thesis
  proof (cases "?y = NO_SECTOR")
    case True
    with w k kk a show ?thesis by (simp add: lookup_double_indirect_table_def access_hole)
  next
    case False
    note t = tree_slot [OF wf, of SDouble, simplified, OF False]
    have s: "set_word f ib W_double_indirect ?y = f" using set_word_same [OF a, of ib] by (simp add: inode_disk_layout)
    from at_get_read [OF a, of ?y False] t obtain b f1 f2 where
      g: "get_block f ?y False = Ok (b, f1)" "read_block f1 b = Ok (v ?y, f2)" "?P b = None"
        "at f0 f2 (?P(b \<mapsto> (False, ?y, Same))) v m" by auto
    from at_put [OF g(4), of b] g(3) obtain f3 where p: "put_block f2 b = Ok f3" "at f0 f3 ?P v m"
      by (auto simp: fun_upd_idem)
    let ?z = "ld32 (v ?y) (tab1 k)"
    have z: "word_at f2 b (tab1 k) = ?z" "slot_of v i (STable (tab1 k)) = ?z" using at_word [OF g(4)] False
      by (simp_all add: entry_def)
    have e: "slot_of v i (SData k) = entry v ?z (tab2 k)" using k kk False by (simp add: entry_def)
    show ?thesis
    proof (cases "?z = NO_SECTOR")
      case True
      with w False t s g p z(1) e show ?thesis
        by (simp add: lookup_double_tab access_existing access_hole Let_def)
    next
      case False
      note u = tree_slot [OF wf, of "STable (tab1 k)", unfolded z(2), OF _ False] tab_bounds [OF k(2,1)]
      from lookup_table_read [OF p(2), of ?z ib k "tab2 k"] u obtain f4 where
        "lookup_table f3 ib ?z k (tab2 k) False = Ok (ld32 (v ?z) (tab2 k), f4)" "at f0 f4 ?P v m" by auto
      with w \<open>?y \<noteq> NO_SECTOR\<close> t s g(1,2) p(1) z(1) u e False show ?thesis
        by (simp add: lookup_double_tab access_existing Let_def entry_def)
    qed
  qed
qed

text \<open>A lookup for reading finds the sector of the tree, and changes nothing.\<close>

lemma byte_to_sector_read:
  assumes a: "at f0 f Map.empty v m" and wf: "tree_wf v (nsec f0) U i"
  shows "\<exists>f'. byte_to_sector f i pos False = Ok (slot_of v i (SData (pos div 512)), f') \<and> at f0 f' Map.empty v m"
proof -
  let ?k = "pos div 512" and ?s = "slot_of v i (SData (pos div 512))"
  have "i < nsec f0" using tree_wf_root [OF wf] by simp
  from at_get_read [OF a this, of False] obtain b f1 f2 where
    g: "get_block f i False = Ok (b, f1)" "read_block f1 b = Ok (v i, f2)" "at f0 f2 [b \<mapsto> (False, i, Same)] v m" by auto
  have "\<exists>f'. (if ?k < NUM_DIRECT then lookup_direct_table f2 b ?k False
      else if ?k < NUM_DIRECT + NUM_INDIRECT then lookup_indirect_table f2 b ?k False
      else if ?k < NUM_DIRECT + NUM_INDIRECT + NUM_DOUBLE_INDIRECT then lookup_double_indirect_table f2 b ?k False
      else Ok (NO_SECTOR, f2)) = Ok (?s, f') \<and> at f0 f' [b \<mapsto> (False, i, Same)] v m"
    using lookup_direct_read [OF g(3), of b False i Same ?k] lookup_indirect_read [OF g(3) wf, of ?k]
      lookup_double_read [OF g(3) wf, of ?k] g(3)
    by (auto simp: MAX_SECTORS_def)
  then obtain f3 where f3: "(if ?k < NUM_DIRECT then lookup_direct_table f2 b ?k False
      else if ?k < NUM_DIRECT + NUM_INDIRECT then lookup_indirect_table f2 b ?k False
      else if ?k < NUM_DIRECT + NUM_INDIRECT + NUM_DOUBLE_INDIRECT then lookup_double_indirect_table f2 b ?k False
      else Ok (NO_SECTOR, f2)) = Ok (?s, f3)" "at f0 f3 [b \<mapsto> (False, i, Same)] v m" by blast
  let ?f = "if ?s \<noteq> NO_SECTOR \<and> ?s \<noteq> NO_SPACE then mark_block_dirty f3 b else f3"
  have "\<exists>d. at f0 ?f [b \<mapsto> (False, i, d)] v m \<and> d \<noteq> Unmarked"
  proof (cases "?s \<noteq> NO_SECTOR \<and> ?s \<noteq> NO_SPACE")
    case True
    then have "at f0 ?f [b \<mapsto> (False, i, Dirty)] v m" using at_mark_top [OF f3(2)] by presburger
    then show ?thesis by blast
  next
    case False
    then have "at f0 ?f [b \<mapsto> (False, i, Same)] v m" using f3(2) by presburger
    then show ?thesis by blast
  qed
  then obtain d where d: "at f0 ?f [b \<mapsto> (False, i, d)] v m" "d \<noteq> Unmarked" by blast
  from at_put_top [OF d] obtain f' where "put_block ?f b = Ok f'" "at f0 f' Map.empty v m" by auto
  then show ?thesis
    using g(1,2) f3(1) by (simp add: byte_to_sector_def BLOCK_SECTOR_SIZE_def Let_def del: slot_of.simps)
qed

end
