(* ===== verification/InodeGrow.thy ===== *)
theory InodeGrow
  imports InodeMap
begin

text \<open>
  Lookups of \<open>filesys/inode.c\<close> that write: they fill the slot of the position, and on
  the way there the tables that are missing.
\<close>

section \<open>Extensions of a tree\<close>

text \<open>
  The tree of \<open>i\<close> has been extended by \<open>c\<close> sectors: the data slots outside \<open>K\<close> and the
  first words of the inode are as before, and nothing but tables of the file changed.
\<close>

definition ext :: "u32 \<Rightarrow> u32 \<Rightarrow> nat set \<Rightarrow> nat \<Rightarrow> (u32 \<Rightarrow> bytes) \<Rightarrow> bitmap \<Rightarrow> (u32 \<Rightarrow> bytes) \<Rightarrow> bitmap \<Rightarrow> bool" where
  "ext n i K c v m v' m' \<longleftrightarrow> tree_wf v' n (used_sectors m') i \<and> used_sectors m \<subseteq> used_sectors m'
     \<and> free_cnt n m = free_cnt n m' + c
     \<and> (\<forall>j<MAX_SECTORS. j \<notin> K \<longrightarrow> slot_of v' i (SData j) = slot_of v i (SData j))
     \<and> (\<forall>k<W_direct. ld32 (v' i) k = ld32 (v i) k)
     \<and> tables v i \<subseteq> tables v' i \<and> (\<forall>t\<in>tables v' i. t \<in> tables v i \<or> unat t \<notin> used_sectors m)
     \<and> (\<forall>t. t \<notin> tables v' i \<longrightarrow> v' t = v t)"

lemma ext_refl: "tree_wf v n (used_sectors m) i \<Longrightarrow> ext n i {} 0 v m v m"
  by (simp add: ext_def)

lemma ext_trans:
  assumes "ext n i K c v m v1 m1" "ext n i L d v1 m1 v' m'"
  shows "ext n i (K \<union> L) (c + d) v m v' m'"
proof -
  have "v' t = v t" if "t \<notin> tables v' i" for t
    using that assms by (auto simp: ext_def subset_iff)
  with assms show ?thesis by (auto simp: ext_def simp del: slot_of.simps)
qed

lemma ext_trans0: "ext n i {} c v m v1 m1 \<Longrightarrow> ext n i L d v1 m1 v' m' \<Longrightarrow> ext n i L (c + d) v m v' m'"
  using ext_trans by fastforce

lemma tables_subset:
  assumes "\<And>b. valid_slot b \<Longrightarrow> is_table b \<Longrightarrow> slot_of v i b \<noteq> NO_SECTOR \<Longrightarrow> slot_of v i b \<in> T" "i \<in> T"
  shows "tables v i \<subseteq> T"
proof
  fix t
  assume "t \<in> tables v i"
  then consider "t = i" | b where "t = slot_of v i b" "valid_slot b" "is_table b" "slot_of v i b \<noteq> NO_SECTOR"
    by (auto simp: tables_def simp del: slot_of.simps)
  then show "t \<in> T" using assms by cases auto
qed

lemma grow_tables:
  assumes "grow v i a s v'" "slot_of v i a = NO_SECTOR" "s \<noteq> NO_SECTOR"
  shows "tables v' i = (if is_table a then insert s (tables v i) else tables v i)"
proof
  have va: "valid_slot a" using assms(1) by (simp add: grow_def)
  have eq: "slot_of v' i b = (if b = a then s else slot_of v i b)" if "valid_slot b" for b
    using assms(1) that by (simp add: grow_def del: slot_of.simps)
  have "slot_of v' i b \<in> (if is_table a then insert s (tables v i) else tables v i)"
    if "valid_slot b" "is_table b" "slot_of v' i b \<noteq> NO_SECTOR" for b
    using that tables_slot [of b v i] by (cases "b = a") (simp_all add: eq del: slot_of.simps)
  moreover have "i \<in> (if is_table a then insert s (tables v i) else tables v i)" by simp
  ultimately show "tables v' i \<subseteq> (if is_table a then insert s (tables v i) else tables v i)"
    by (rule tables_subset)
  have "slot_of v i b \<in> tables v' i" if "valid_slot b" "is_table b" "slot_of v i b \<noteq> NO_SECTOR" for b
  proof -
    have "slot_of v' i b = slot_of v i b" using that assms(2) eq [OF that(1)] by auto
    with that tables_slot [of b v' i] show ?thesis by simp
  qed
  moreover have "s \<in> tables v' i" if "is_table a"
    using tables_slot [of a v' i] eq [of a] va assms(3) that by (simp del: slot_of.simps)
  moreover from calculation(1) root_in_tables have "tables v i \<subseteq> tables v' i" by (rule tables_subset)
  ultimately show "(if is_table a then insert s (tables v i) else tables v i) \<subseteq> tables v' i" by simp
qed

lemma ext_grow:
  assumes wf: "tree_wf v n (used_sectors m) i" and g: "grow v i a s v'" and t: "taken n m s m'"
    and a: "slot_of v i a = NO_SECTOR"
  shows "ext n i (case a of SData k \<Rightarrow> {k} | _ \<Rightarrow> {}) 1 v m v' m'" "slot_of v' i a = s" "s < n"
proof -
  have s: "s < n" "unat s \<notin> used_sectors m" "used_sectors m' = insert (unat s) (used_sectors m)"
    using t by (simp_all add: taken_def)
  note f = fresh_facts [OF wf s(1,2)]
  note tab = grow_tables [OF g a f(2)]
  have "valid_slot a" using g by (simp add: grow_def)
  show "slot_of v' i a = s" using g by (simp add: grow_def del: slot_of.simps)
  have "slot_of v' i (SData j) = slot_of v i (SData j)" if "j < MAX_SECTORS" "SData j \<noteq> a" for j
    using g that by (simp add: grow_def del: slot_of.simps)
  moreover have "v' t = v t" if "t \<notin> tables v' i" for t
    using g that tab by (auto simp: grow_def simp del: slot_of.simps split: if_splits)
  ultimately show "ext n i (case a of SData k \<Rightarrow> {k} | _ \<Rightarrow> {}) 1 v m v' m'"
    using grow_tree_wf [OF wf g s(1,2)] s taken_free_cnt [OF t] g tab f(4)
    unfolding ext_def grow_def by (auto split: slot.splits if_splits simp del: slot_of.simps)
  show "s < n" by (rule s(1))
qed

section \<open>The phases of a lookup\<close>

text \<open>The table behind word \<open>w\<close> of the inode exists or is made.\<close>

lemma phase_root:
  assumes a: "at f0 f [ib \<mapsto> (True, i, d)] v m" and wf: "tree_wf v (nsec f0) (used_sectors m) i"
    and w: "w = W_indirect \<and> a = SIndirect \<or> w = W_double_indirect \<and> a = SDouble"
    and room: "0 < free_cnt (nsec f0) m"
  shows "\<exists>x f1 d' v' m' c. access_indirect_block f (word_at f ib w) True = Ok (x, f1)
    \<and> x \<noteq> NO_SECTOR \<and> x \<noteq> NO_SPACE \<and> x \<noteq> i \<and> x < nsec f0 \<and> ld32 (v' i) w = x
    \<and> at f0 (set_word f1 ib w x) [ib \<mapsto> (True, i, d')] v' m' \<and> ext (nsec f0) i {} c v m v' m' \<and> c \<le> 1"
proof -
  have sl: "slot_of u i a = ld32 (u i) w" "valid_slot a" for u using w by auto
  have w128: "w < 128" using w by (auto simp: inode_disk_layout)
  have x: "word_at f ib w = ld32 (v i) w" by (rule at_word [OF a])
  show ?thesis
  proof (cases "ld32 (v i) w = NO_SECTOR")
    case False
    have "set_word f ib w (ld32 (v i) w) = f" using set_word_same [OF a] w128 by simp
    with False x a ext_refl [OF wf] tree_slot [OF wf sl(2), unfolded sl(1), OF False] show ?thesis
      by (intro exI [of _ "ld32 (v i) w"] exI [of _ f] exI [of _ d] exI [of _ v] exI [of _ m] exI [of _ 0])
        (simp add: access_existing)
  next
    case True
    from at_fresh_table [OF a room] tree_wf_root [OF wf] obtain s m' f1 t where
      s: "access_indirect_block f NO_SECTOR True = Ok (s, f1)" "taken (nsec f0) m s m'"
        "at f0 f1 [ib \<mapsto> (True, i, d)] (v(s := t)) m'" "blank_table t" by auto
    have fr: "s < nsec f0" "unat s \<notin> used_sectors m" using s(2) by (simp_all add: taken_def)
    note f = fresh_facts [OF wf fr]
    let ?v = "v(s := t, i := st32 (v i) w s)"
    have at': "at f0 (set_word f1 ib w s) [ib \<mapsto> (True, i, touch d)] ?v m'"
      using at_set_word_top [OF s(3) w128, of s] f(1) by simp
    have g: "grow v i a s ?v"
      using w grow_indirect [OF wf _ s(4) fr] grow_double [OF wf _ s(4) fr] True atD(6) [OF a] by auto
    note e = ext_grow [OF wf g s(2), unfolded sl(1), OF True]
    have "(case a of SData k \<Rightarrow> {k} | _ \<Rightarrow> {}) = ({} :: nat set)" using w by auto
    with e at' s(1) x True f NO_SECTOR_ge [OF _ fr(1)] tree_wf_root [OF wf] show ?thesis
      by (intro exI [of _ s] exI [of _ f1] exI [of _ "touch d"] exI [of _ ?v] exI [of _ m'] exI [of _ 1]) simp
  qed
qed

text \<open>The second-level table behind entry \<open>k\<close> of the doubly indirect one exists or is made.\<close>

definition keep_table :: "fs \<Rightarrow> nat \<Rightarrow> nat \<Rightarrow> u32 \<Rightarrow> fs" where
  "keep_table f b k x = (if word_at f b k \<noteq> x then mark_block_dirty (set_word f b k x) b else f)"

lemma phase_table:
  assumes a: "at f0 f ([ib \<mapsto> (True, i, d)](b \<mapsto> (True, y, Same))) v m" and b: "b \<noteq> ib"
    and wf: "tree_wf v (nsec f0) (used_sectors m) i" and k: "k < NUM_INDIRECT"
    and y: "ld32 (v i) W_double_indirect = y" "y \<noteq> NO_SECTOR"
    and room: "0 < free_cnt (nsec f0) m"
  shows "\<exists>x f1 f2 v' m' c. access_indirect_block f (word_at f b k) True = Ok (x, f1)
    \<and> x \<noteq> NO_SECTOR \<and> x \<noteq> NO_SPACE \<and> x \<noteq> i \<and> x < nsec f0 \<and> ld32 (v' i) W_double_indirect = y \<and> entry v' y k = x
    \<and> put_block (keep_table f1 b k x) b = Ok f2
    \<and> at f0 f2 [ib \<mapsto> (True, i, d)] v' m' \<and> ext (nsec f0) i {} c v m v' m' \<and> c \<le> 1"
proof -
  have sl: "slot_of v i (STable k) = ld32 (v y) k" "valid_slot (STable k)" using y k by (simp_all add: entry_def)
  have k128: "k < 128" using k by (simp add: num_defs)
  have x: "word_at f b k = ld32 (v y) k" by (rule at_word [OF a])
  show ?thesis
  proof (cases "ld32 (v y) k = NO_SECTOR")
    case False
    from at_put_top [OF a] b obtain f2 where f2: "put_block f b = Ok f2" "at f0 f2 [ib \<mapsto> (True, i, d)] v m" by auto
    with False x ext_refl [OF wf] tree_slot [OF wf sl(2), unfolded sl(1), OF False] y show ?thesis
      by (intro exI [of _ "ld32 (v y) k"] exI [of _ f] exI [of _ f2] exI [of _ v] exI [of _ m] exI [of _ 0])
        (simp add: access_existing keep_table_def entry_def)
  next
    case True
    have ps: "psecs ([ib \<mapsto> (True, i, d)](b \<mapsto> (True, y, Same))) = {y, i}" using b by simp
    have "unat y \<in> used_sectors m" using tree_wfD(2) [OF wf, of SDouble] y by simp
    with tree_wf_root [OF wf] have "\<forall>t\<in>psecs ([ib \<mapsto> (True, i, d)](b \<mapsto> (True, y, Same))). unat t \<in> used_sectors m"
      unfolding ps by simp
    from at_fresh_table [OF a room this] b obtain s m' f1 t where
      s: "access_indirect_block f NO_SECTOR True = Ok (s, f1)" "taken (nsec f0) m s m'"
        "at f0 f1 ([ib \<mapsto> (True, i, d)](b \<mapsto> (True, y, Same))) (v(s := t)) m'" "blank_table t"
      by (auto simp: MAX_CACHE_SIZE_def)
    have fr: "s < nsec f0" "unat s \<notin> used_sectors m" using s(2) by (simp_all add: taken_def)
    note f = fresh_facts [OF wf fr]
    have ys: "y \<noteq> s" using f(3) [of SDouble] y(1) by simp
    let ?v = "v(s := t, y := st32 (v y) k s)"
    have "at f0 (set_word f1 b k s) ([ib \<mapsto> (True, i, d)](b \<mapsto> (True, y, Unmarked))) ?v m'"
      using at_set_word_top [OF s(3) k128, of s] ys by simp
    from at_put_top [OF at_mark_top [OF this]] b obtain f2 where
      f2: "put_block (mark_block_dirty (set_word f1 b k s) b) b = Ok f2" "at f0 f2 [ib \<mapsto> (True, i, d)] ?v m'" by auto
    have w1: "word_at f1 b k = NO_SECTOR" using at_word [OF s(3), of k] True ys by simp
    have g: "grow v i (STable k) s ?v"
      using grow_table [OF wf k s(4) y True fr] atD(6) [OF a] by simp
    note e = ext_grow [OF wf g s(2), unfolded sl(1), OF True]
    have iv: "?v i = v i" using f(1) table_facts(2) [OF wf] y by auto
    then have "entry ?v y k = s" using e(2) y by simp
    with iv e f2 s(1) x True f NO_SECTOR_ge [OF _ fr(1)] tree_wf_root [OF wf] w1 y show ?thesis
      by (intro exI [of _ s] exI [of _ f1] exI [of _ f2] exI [of _ ?v] exI [of _ m'] exI [of _ 1])
        (simp add: keep_table_def del: fun_upd_apply)
  qed
qed

text \<open>The data slot exists or is filled.\<close>

definition placed :: "u32 \<Rightarrow> u32 \<Rightarrow> nat \<Rightarrow> nat \<Rightarrow> u32 \<Rightarrow> (u32 \<Rightarrow> bytes) \<Rightarrow> bitmap \<Rightarrow> (u32 \<Rightarrow> bytes) \<Rightarrow> bitmap \<Rightarrow> bool" where
  "placed n i k c s v m v' m' \<longleftrightarrow> ext n i {k} c v m v' m' \<and> slot_of v' i (SData k) = s \<and> s < n
     \<and> (if slot_of v i (SData k) = NO_SECTOR then unat s \<notin> used_sectors m else s = slot_of v i (SData k))"

lemma placed_same:
  assumes "tree_wf v n (used_sectors m) i" "k < MAX_SECTORS" "slot_of v i (SData k) \<noteq> NO_SECTOR"
  shows "placed n i k 0 (slot_of v i (SData k)) v m v m"
  using assms tree_slot(1) [OF assms(1), of "SData k"] by (simp add: placed_def ext_def del: slot_of.simps)

lemma placed_grow:
  assumes wf: "tree_wf v n (used_sectors m) i" and g: "grow v i (SData k) s v'" and t: "taken n m s m'"
    and a: "slot_of v i (SData k) = NO_SECTOR"
  shows "placed n i k 1 s v m v' m'"
  using ext_grow [OF wf g t a] a t by (simp add: placed_def taken_def del: slot_of.simps)

lemma placed_after:
  assumes "ext n i {} c v m v1 m1" "placed n i k d s v1 m1 v' m'" "k < MAX_SECTORS"
  shows "placed n i k (c + d) s v m v' m'"
proof -
  have "slot_of v1 i (SData k) = slot_of v i (SData k)" "used_sectors m \<subseteq> used_sectors m1"
    using assms(1,3) by (simp_all add: ext_def del: slot_of.simps)
  with assms(2) ext_trans0 [OF assms(1)] show ?thesis by (auto simp: placed_def simp del: slot_of.simps split: if_splits)
qed

lemma lookup_direct_write:
  assumes a: "at f0 f [ib \<mapsto> (True, i, d)] v m" and wf: "tree_wf v (nsec f0) (used_sectors m) i"
    and k: "k < NUM_DIRECT" and room: "0 < free_cnt (nsec f0) m"
  shows "\<exists>s f' v' m' c d'. lookup_direct_table f ib k True = Ok (s, f') \<and> at f0 f' [ib \<mapsto> (True, i, d')] v' m'
    \<and> placed (nsec f0) i k c s v m v' m' \<and> c \<le> 3"
proof -
  have w: "word_at f ib (W_direct + k) = slot_of v i (SData k)" using at_word [OF a] k by simp
  have km: "k < MAX_SECTORS" "W_direct + k < 128" using k by (simp_all add: num_defs inode_disk_layout)
  show ?thesis
  proof (cases "slot_of v i (SData k) = NO_SECTOR")
    case False
    with placed_same [OF wf km(1) False] a w show ?thesis
      by (intro exI [of _ "slot_of v i (SData k)"] exI [of _ f] exI [of _ v] exI [of _ m] exI [of _ 0] exI [of _ d])
        (simp add: lookup_direct_table_def Let_def del: slot_of.simps)
  next
    case True
    from at_allocate_entry [OF a _ km(2) room, of ib i d] obtain s m' f' where
      s: "allocate_entry f ib (W_direct + k) = Ok (True, f')" "taken (nsec f0) m s m'"
        "word_at f' ib (W_direct + k) = s"
        "at f0 f' [ib \<mapsto> (True, i, touch d)] (v(i := st32 (v i) (W_direct + k) s)) m'" by auto
    note p = placed_grow [OF wf grow_direct [OF wf k atD(6) [OF a]] s(2) True]
    with True s w show ?thesis
      by (intro exI [of _ s] exI [of _ f'] exI [of _ "v(i := st32 (v i) (W_direct + k) s)"] exI [of _ m'] exI [of _ 1]
          exI [of _ "touch d"]) (simp add: lookup_direct_table_def Let_def del: slot_of.simps)
  qed
qed

lemma lookup_table_write:
  assumes a: "at f0 f [ib \<mapsto> (True, i, d)] v m" and wf: "tree_wf v (nsec f0) (used_sectors m) i"
    and km: "k < MAX_SECTORS" and j: "j < NUM_INDIRECT" and t: "t < nsec f0" "t \<noteq> i"
    and sl: "slot_of v i (SData k) = ld32 (v t) j"
    and g: "\<And>s. grow v i (SData k) s (v(t := st32 (v t) j s))"
    and room: "0 < free_cnt (nsec f0) m"
  shows "\<exists>s f' v' m' c. lookup_table f ib t k j True = Ok (s, f') \<and> at f0 f' [ib \<mapsto> (True, i, d)] v' m'
    \<and> placed (nsec f0) i k c s v m v' m' \<and> c \<le> 1"
proof -
  let ?P = "[ib \<mapsto> (True, i, d)]"
  from at_get_read [OF a t(1), of True] t(2) obtain b f1 f2 where
    r: "get_block f t True = Ok (b, f1)" "read_block f1 b = Ok (v t, f2)" "?P b = None"
      "at f0 f2 (?P(b \<mapsto> (True, t, Same))) v m" by auto
  have w: "word_at f2 b j = slot_of v i (SData k)" unfolding sl by (rule at_word [OF r(4)])
  have j128: "j < 128" using j by (simp add: num_defs)
  show ?thesis
  proof (cases "slot_of v i (SData k) = NO_SECTOR")
    case False
    from at_put_top [OF r(4)] r(3) obtain f3 where "put_block f2 b = Ok f3" "at f0 f3 ?P v m" by auto
    with placed_same [OF wf km False] r w False show ?thesis
      by (intro exI [of _ "slot_of v i (SData k)"] exI [of _ f3] exI [of _ v] exI [of _ m] exI [of _ 0])
        (simp add: lookup_table_def Let_def del: slot_of.simps)
  next
    case True
    from at_allocate_entry [OF r(4) _ j128 room, of b t Same] obtain s m' f3 where
      s: "allocate_entry f2 b j = Ok (True, f3)" "taken (nsec f0) m s m'" "word_at f3 b j = s"
        "at f0 f3 (?P(b \<mapsto> (True, t, Unmarked))) (v(t := st32 (v t) j s)) m'" by auto
    from at_put_top [OF at_mark_top [OF s(4)]] r(3) obtain f4 where
      f4: "put_block (mark_block_dirty f3 b) b = Ok f4" "at f0 f4 ?P (v(t := st32 (v t) j s)) m'" by auto
    with placed_grow [OF wf g s(2) True] r s(1,3) w True show ?thesis
      by (intro exI [of _ s] exI [of _ f4] exI [of _ "v(t := st32 (v t) j s)"] exI [of _ m'] exI [of _ 1])
        (simp add: lookup_table_def Let_def del: slot_of.simps)
  qed
qed

lemma ext_facts:
  assumes "ext n i {} c v m v' m'" "c \<le> 1" "Suc r \<le> free_cnt n m"
  shows "tree_wf v' n (used_sectors m') i" "r \<le> free_cnt n m'"
  using assms by (auto simp: ext_def)

lemma lookup_indirect_write:
  assumes a: "at f0 f [ib \<mapsto> (True, i, d)] v m" and wf: "tree_wf v (nsec f0) (used_sectors m) i"
    and k: "\<not> k < NUM_DIRECT" "k < NUM_DIRECT + NUM_INDIRECT" and room: "2 \<le> free_cnt (nsec f0) m"
  shows "\<exists>s f' v' m' c d'. lookup_indirect_table f ib k True = Ok (s, f') \<and> at f0 f' [ib \<mapsto> (True, i, d')] v' m'
    \<and> placed (nsec f0) i k c s v m v' m' \<and> c \<le> 3"
proof -
  from phase_root [OF a wf, of W_indirect SIndirect] room obtain x f1 d1 v1 m1 c where
    1: "access_indirect_block f (word_at f ib W_indirect) True = Ok (x, f1)"
      "x \<noteq> NO_SECTOR" "x \<noteq> NO_SPACE" "x \<noteq> i" "x < nsec f0" "ld32 (v1 i) W_indirect = x"
      "at f0 (set_word f1 ib W_indirect x) [ib \<mapsto> (True, i, d1)] v1 m1" "ext (nsec f0) i {} c v m v1 m1" "c \<le> 1"
    by auto
  note e = ext_facts [OF 1(8,9), of 1]
  have km: "k < MAX_SECTORS" using k by (simp add: num_defs)
  have "slot_of v1 i (SData k) = ld32 (v1 x) (k - NUM_DIRECT)" using k 1(2,6) by (simp add: entry_def)
  from lookup_table_write [OF 1(7) e(1) km index_bounds [OF k(2,1)] 1(5,4) this
      grow_indirect_data [OF e(1) k 1(6,2) atD(6) [OF 1(7)]]] e(2) room
  obtain s f' v' m' c' where
    "lookup_table (set_word f1 ib W_indirect x) ib x k (k - NUM_DIRECT) True = Ok (s, f')"
    "at f0 f' [ib \<mapsto> (True, i, d1)] v' m'" "placed (nsec f0) i k c' s v1 m1 v' m'" "c' \<le> 1"
    by auto
  with 1(1-3) placed_after [OF 1(8) _ km, of c' s v' m'] 1(9) show ?thesis
    by (intro exI [of _ s] exI [of _ f'] exI [of _ v'] exI [of _ m'] exI [of _ "c + c'"] exI [of _ d1])
      (simp add: lookup_indirect_table_def)
qed

lemma lookup_double_write:
  assumes a: "at f0 f [ib \<mapsto> (True, i, d)] v m" and wf: "tree_wf v (nsec f0) (used_sectors m) i"
    and k: "\<not> k < NUM_DIRECT + NUM_INDIRECT" "k < MAX_SECTORS" and room: "3 \<le> free_cnt (nsec f0) m"
  shows "\<exists>s f' v' m' c d'. lookup_double_indirect_table f ib k True = Ok (s, f') \<and> at f0 f' [ib \<mapsto> (True, i, d')] v' m'
    \<and> placed (nsec f0) i k c s v m v' m' \<and> c \<le> 3"
proof -
  from phase_root [OF a wf, of W_double_indirect SDouble] room obtain y f1 d1 v1 m1 c1 where
    1: "access_indirect_block f (word_at f ib W_double_indirect) True = Ok (y, f1)"
      "y \<noteq> NO_SECTOR" "y \<noteq> NO_SPACE" "y \<noteq> i" "y < nsec f0" "ld32 (v1 i) W_double_indirect = y"
      "at f0 (set_word f1 ib W_double_indirect y) [ib \<mapsto> (True, i, d1)] v1 m1" "ext (nsec f0) i {} c1 v m v1 m1" "c1 \<le> 1"
    by auto
  note e1 = ext_facts [OF 1(8,9), of 2]
  note kb = tab_bounds [OF k(2,1)]
  from at_get_read [OF 1(7,5), of True] 1(4) obtain b f2 f3 where
    g: "get_block (set_word f1 ib W_double_indirect y) y True = Ok (b, f2)" "read_block f2 b = Ok (v1 y, f3)" "b \<noteq> ib"
      "at f0 f3 ([ib \<mapsto> (True, i, d1)](b \<mapsto> (True, y, Same))) v1 m1" by (auto split: if_splits)
  from phase_table [OF g(4,3) e1(1) kb(1) 1(6,2)] e1(2) room obtain x f4 f5 v2 m2 c2 where
    2: "access_indirect_block f3 (word_at f3 b (tab1 k)) True = Ok (x, f4)"
      "x \<noteq> NO_SECTOR" "x \<noteq> NO_SPACE" "x \<noteq> i" "x < nsec f0" "ld32 (v2 i) W_double_indirect = y" "entry v2 y (tab1 k) = x"
      "put_block (keep_table f4 b (tab1 k) x) b = Ok f5"
      "at f0 f5 [ib \<mapsto> (True, i, d1)] v2 m2" "ext (nsec f0) i {} c2 v1 m1 v2 m2" "c2 \<le> 1"
    by auto
  note e2 = ext_facts [OF 2(10,11), of 1]
  have sl: "slot_of v2 i (SData k) = ld32 (v2 x) (tab2 k)" using k 2(2,6,7) by (simp add: entry_def [of _ x])
  have z: "entry v2 (ld32 (v2 i) W_double_indirect) (tab1 k) = x" using 2(6,7) by simp
  from lookup_table_write [OF 2(9) e2(1) k(2) kb(2) 2(5,4) sl
      grow_table_data [OF e2(1) k z 2(2) atD(6) [OF 2(9)]]] e1(2) e2(2) room
  obtain s f' v' m' c' where
    3: "lookup_table f5 ib x k (tab2 k) True = Ok (s, f')"
    "at f0 f' [ib \<mapsto> (True, i, d1)] v' m'" "placed (nsec f0) i k c' s v2 m2 v' m'" "c' \<le> 1"
    by auto
  have "lookup_double_indirect_table f ib k True = Ok (s, f')"
    using 1(1-3) g(1,2) 2(1-3) 2(8) 3(1) by (simp add: lookup_double_tab Let_def keep_table_def)
  moreover have "placed (nsec f0) i k (c1 + (c2 + c')) s v m v' m'"
    by (rule placed_after [OF 1(8) placed_after [OF 2(10) 3(3) k(2)] k(2)])
  moreover have "c1 + (c2 + c') \<le> 3" using 1(9) 2(11) 3(4) by simp
  ultimately show ?thesis using 3(2) by blast
qed

text \<open>A lookup for writing puts a sector behind the position.\<close>

lemma byte_to_sector_write:
  assumes a: "at f0 f Map.empty v m" and wf: "tree_wf v (nsec f0) (used_sectors m) i"
    and k: "k = pos div 512" "k < MAX_SECTORS" and room: "3 \<le> free_cnt (nsec f0) m"
  shows "\<exists>s f' v' m' c. byte_to_sector f i pos True = Ok (s, f') \<and> at f0 f' Map.empty v' m'
    \<and> placed (nsec f0) i k c s v m v' m' \<and> c \<le> 3"
proof -
  have "i < nsec f0" using tree_wf_root [OF wf] by simp
  from at_get_read [OF a this, of True] obtain b f1 f2 where
    g: "get_block f i True = Ok (b, f1)" "read_block f1 b = Ok (v i, f2)" "at f0 f2 [b \<mapsto> (True, i, Same)] v m" by auto
  let ?look = "if k < NUM_DIRECT then lookup_direct_table f2 b k True
      else if k < NUM_DIRECT + NUM_INDIRECT then lookup_indirect_table f2 b k True
      else if k < NUM_DIRECT + NUM_INDIRECT + NUM_DOUBLE_INDIRECT then lookup_double_indirect_table f2 b k True
      else Ok (NO_SECTOR, f2)"
  have "\<exists>s f' v' m' c d'. ?look = Ok (s, f') \<and> at f0 f' [b \<mapsto> (True, i, d')] v' m'
      \<and> placed (nsec f0) i k c s v m v' m' \<and> c \<le> 3"
  proof -
    consider "k < NUM_DIRECT" | "\<not> k < NUM_DIRECT" "k < NUM_DIRECT + NUM_INDIRECT" | "\<not> k < NUM_DIRECT + NUM_INDIRECT" by blast
    then show ?thesis
    proof cases
      case 1
      with lookup_direct_write [OF g(3) wf 1] room show ?thesis by simp
    next
      case 2
      with lookup_indirect_write [OF g(3) wf 2] room show ?thesis by simp
    next
      case 3
      with lookup_double_write [OF g(3) wf 3 k(2) room] k(2) show ?thesis by (simp add: MAX_SECTORS_def)
    qed
  qed
  then obtain s f3 v' m' c d' where r: "?look = Ok (s, f3)" "at f0 f3 [b \<mapsto> (True, i, d')] v' m'"
      "placed (nsec f0) i k c s v m v' m'" "c \<le> 3" by blast
  have s: "s \<noteq> NO_SECTOR" "s \<noteq> NO_SPACE"
    using r(3) NO_SECTOR_ge tree_wf_root [OF wf] unfolding placed_def by blast+
  from at_put_top [OF at_mark_top [OF r(2)]] obtain f' where
    f': "put_block (mark_block_dirty f3 b) b = Ok f'" "at f0 f' Map.empty v' m'" by auto
  have "byte_to_sector f i pos True = bind ?look (\<lambda>(sector, f). bind (put_block
      (if sector \<noteq> NO_SECTOR \<and> sector \<noteq> NO_SPACE then mark_block_dirty f b else f) b) (\<lambda>f. Ok (sector, f)))"
    unfolding k(1) using g(1,2) by (simp add: byte_to_sector_def BLOCK_SECTOR_SIZE_def Let_def split del: if_split)
  then have "byte_to_sector f i pos True = Ok (s, f')" unfolding r(1) using s f'(1) by simp
  with f'(2) r(3,4) show ?thesis by blast
qed

section \<open>Lookups on a full device\<close>

lemma lookup_table_full:
  assumes a: "at f0 f [ib \<mapsto> (True, i, d)] v m" and t: "t < nsec f0" "t \<noteq> i" and j: "ld32 (v t) j = NO_SECTOR"
    and full: "free_cnt (nsec f0) m = 0"
  shows "\<exists>f'. lookup_table f ib t k j True = Ok (NO_SPACE, f') \<and> at f0 f' [ib \<mapsto> (True, i, d)] v m"
proof -
  let ?P = "[ib \<mapsto> (True, i, d)]"
  from at_get_read [OF a t(1), of True] t(2) obtain b f1 f2 where
    r: "get_block f t True = Ok (b, f1)" "read_block f1 b = Ok (v t, f2)" "?P b = None"
      "at f0 f2 (?P(b \<mapsto> (True, t, Same))) v m" by auto
  have "word_at f2 b j = NO_SECTOR" using at_word [OF r(4), of j] j by simp
  moreover from at_put_top [OF r(4)] r(3) obtain f3 where "put_block f2 b = Ok f3" "at f0 f3 ?P v m" by auto
  ultimately show ?thesis
    using r(1,2) at_allocate_entry_full [OF r(4) full] by (simp add: lookup_table_def Let_def)
qed

lemma lookup_indirect_full:
  assumes a: "at f0 f [ib \<mapsto> (True, i, d)] v m" and wf: "tree_wf v (nsec f0) U i"
    and k: "\<not> k < NUM_DIRECT" "k < NUM_DIRECT + NUM_INDIRECT" and s: "slot_of v i (SData k) = NO_SECTOR"
    and full: "free_cnt (nsec f0) m = 0"
  shows "\<exists>f'. lookup_indirect_table f ib k True = Ok (NO_SPACE, f') \<and> at f0 f' [ib \<mapsto> (True, i, d)] v m"
proof -
  let ?x = "ld32 (v i) W_indirect"
  have w: "word_at f ib W_indirect = ?x" by (rule at_word [OF a])
  show ?thesis
  proof (cases "?x = NO_SECTOR")
    case True
    with w a show ?thesis by (simp add: lookup_indirect_table_def at_fresh_table_full [OF a full])
  next
    case False
    note t = tree_slot [OF wf, of SIndirect, simplified, OF False]
    have "set_word f ib W_indirect ?x = f" using set_word_same [OF a, of ib] by (simp add: inode_disk_layout)
    with lookup_table_full [OF a t(1,2) _ full, of "k - NUM_DIRECT" k] t False w k s show ?thesis
      by (simp add: lookup_indirect_table_def access_existing entry_def)
  qed
qed

lemma lookup_double_full:
  assumes a: "at f0 f [ib \<mapsto> (True, i, d)] v m" and wf: "tree_wf v (nsec f0) U i"
    and k: "\<not> k < NUM_DIRECT + NUM_INDIRECT" "k < MAX_SECTORS" and s: "slot_of v i (SData k) = NO_SECTOR"
    and full: "free_cnt (nsec f0) m = 0"
  shows "\<exists>f'. lookup_double_indirect_table f ib k True = Ok (NO_SPACE, f') \<and> at f0 f' [ib \<mapsto> (True, i, d)] v m"
proof -
  let ?y = "ld32 (v i) W_double_indirect" and ?P = "[ib \<mapsto> (True, i, d)]"
  have w: "word_at f ib W_double_indirect = ?y" by (rule at_word [OF a])
  show ?thesis
  proof (cases "?y = NO_SECTOR")
    case True
    with w a show ?thesis by (simp add: lookup_double_indirect_table_def at_fresh_table_full [OF a full])
  next
    case False
    note t = tree_slot [OF wf, of SDouble, simplified, OF False]
    have sw: "set_word f ib W_double_indirect ?y = f" using set_word_same [OF a, of ib] by (simp add: inode_disk_layout)
    from at_get_read [OF a, of ?y True] t obtain b f1 f2 where
      g: "get_block f ?y True = Ok (b, f1)" "read_block f1 b = Ok (v ?y, f2)" "?P b = None"
        "at f0 f2 (?P(b \<mapsto> (True, ?y, Same))) v m" by auto
    from at_put_top [OF g(4)] g(3) obtain f3 where p: "put_block f2 b = Ok f3" "at f0 f3 ?P v m" by auto
    let ?z = "ld32 (v ?y) (tab1 k)"
    have z: "word_at f2 b (tab1 k) = ?z" "slot_of v i (STable (tab1 k)) = ?z" using at_word [OF g(4)] False
      by (simp_all add: entry_def)
    show ?thesis
    proof (cases "?z = NO_SECTOR")
      case True
      with w False t sw g p z(1) show ?thesis
        by (simp add: lookup_double_tab access_existing at_fresh_table_full [OF g(4) full] Let_def)
    next
      case nz: False
      note u = tree_slot [OF wf, of "STable (tab1 k)", unfolded z(2), OF _ nz] tab_bounds [OF k(2,1)]
      have "ld32 (v ?z) (tab2 k) = NO_SECTOR" using s k False nz by (simp add: entry_def)
      from lookup_table_full [OF p(2) _ _ this full, of k] u obtain f4 where
        "lookup_table f3 ib ?z k (tab2 k) True = Ok (NO_SPACE, f4)" "at f0 f4 ?P v m" by auto
      with w False t sw g(1,2) p(1) z(1) u nz show ?thesis
        by (simp add: lookup_double_tab access_existing Let_def)
    qed
  qed
qed

lemma byte_to_sector_full:
  assumes a: "at f0 f Map.empty v m" and wf: "tree_wf v (nsec f0) U i"
    and k: "k = pos div 512" "k < MAX_SECTORS" and s: "slot_of v i (SData k) = NO_SECTOR"
    and full: "free_cnt (nsec f0) m = 0"
  shows "\<exists>f'. byte_to_sector f i pos True = Ok (NO_SPACE, f') \<and> at f0 f' Map.empty v m"
proof -
  have "i < nsec f0" using tree_wf_root [OF wf] by simp
  from at_get_read [OF a this, of True] obtain b f1 f2 where
    g: "get_block f i True = Ok (b, f1)" "read_block f1 b = Ok (v i, f2)" "at f0 f2 [b \<mapsto> (True, i, Same)] v m" by auto
  let ?look = "if k < NUM_DIRECT then lookup_direct_table f2 b k True
      else if k < NUM_DIRECT + NUM_INDIRECT then lookup_indirect_table f2 b k True
      else if k < NUM_DIRECT + NUM_INDIRECT + NUM_DOUBLE_INDIRECT then lookup_double_indirect_table f2 b k True
      else Ok (NO_SECTOR, f2)"
  have "k < NUM_DIRECT \<Longrightarrow> lookup_direct_table f2 b k True = Ok (NO_SPACE, f2)"
    using at_allocate_entry_full [OF g(3) full] at_word [OF g(3), of "W_direct + k"] s
    by (simp add: lookup_direct_table_def Let_def)
  with lookup_indirect_full [OF g(3) wf _ _ s full] lookup_double_full [OF g(3) wf _ k(2) s full] g(3) k(2)
  have "\<exists>f3. ?look = Ok (NO_SPACE, f3) \<and> at f0 f3 [b \<mapsto> (True, i, Same)] v m"
    by (cases "k < NUM_DIRECT"; cases "k < NUM_DIRECT + NUM_INDIRECT") (simp_all add: MAX_SECTORS_def)
  then obtain f3 where r: "?look = Ok (NO_SPACE, f3)" "at f0 f3 [b \<mapsto> (True, i, Same)] v m" by blast
  from at_put_top [OF r(2)] obtain f' where f': "put_block f3 b = Ok f'" "at f0 f' Map.empty v m" by auto
  have "byte_to_sector f i pos True = bind ?look (\<lambda>(sector, f). bind (put_block
      (if sector \<noteq> NO_SECTOR \<and> sector \<noteq> NO_SPACE then mark_block_dirty f b else f) b) (\<lambda>f. Ok (sector, f)))"
    unfolding k(1) using g(1,2) by (simp add: byte_to_sector_def BLOCK_SECTOR_SIZE_def Let_def split del: if_split)
  then have "byte_to_sector f i pos True = Ok (NO_SPACE, f')" unfolding r(1) using f'(1) by simp
  with f'(2) show ?thesis by blast
qed

end
