(* ===== verification/InodeData.thy ===== *)
theory InodeData
  imports InodeGrow
begin

text \<open>
  Reading and writing of files, \<open>inode_read_at\<close> and \<open>inode_write_at\<close> of
  \<open>filesys/inode.c\<close>, against the bytes of a file as a function of the position.
\<close>

section \<open>The bytes of a file\<close>

definition fbyte :: "(u32 \<Rightarrow> bytes) \<Rightarrow> u32 \<Rightarrow> nat \<Rightarrow> u8" where
  "fbyte v i p = (let s = slot_of v i (SData (p div 512)) in if s = NO_SECTOR then 0 else v s ! (p mod 512))"

definition flength :: "(u32 \<Rightarrow> bytes) \<Rightarrow> u32 \<Rightarrow> int" where
  "flength v i = sint (ld32 (v i) W_length)"

text \<open>The part of a file that lies within one sector.\<close>

lemma in_sector:
  fixes p ofs :: nat
  assumes "ofs \<le> p" "p < ofs + (512 - ofs mod 512)"
  shows "p div 512 = ofs div 512" "p mod 512 = ofs mod 512 + (p - ofs)"
proof -
  have "p = 512 * (ofs div 512) + (ofs mod 512 + (p - ofs))" using assms(1) by simp
  moreover have "ofs mod 512 + (p - ofs) < 512" using assms by linarith
  ultimately show "p div 512 = ofs div 512" "p mod 512 = ofs mod 512 + (p - ofs)"
    by (metis div_mult_self4 div_less mod_mult_self4 mod_less add.right_neutral add.commute zero_neq_numeral)+
qed

lemma chunk_bytes:
  assumes "c \<le> 512 - ofs mod 512" "length (v s) = 512" "s = slot_of v i (SData (ofs div 512))"
  shows "map (fbyte v i) [ofs..<ofs + c] = (if s = NO_SECTOR then replicate c 0 else take c (drop (ofs mod 512) (v s)))"
proof (rule nth_equalityI)
  show "length (map (fbyte v i) [ofs..<ofs + c])
      = length (if s = NO_SECTOR then replicate c 0 else take c (drop (ofs mod 512) (v s)))"
    using assms by simp
  fix k
  assume "k < length (map (fbyte v i) [ofs..<ofs + c])"
  then have k: "k < c" by simp
  with in_sector [of ofs "ofs + k"] assms(1) have "(ofs + k) div 512 = ofs div 512" "(ofs + k) mod 512 = ofs mod 512 + k"
    by simp_all
  with k assms show "map (fbyte v i) [ofs..<ofs + c] ! k
      = (if s = NO_SECTOR then replicate c 0 else take c (drop (ofs mod 512) (v s))) ! k"
    by (simp add: fbyte_def Let_def del: slot_of.simps)
qed

section \<open>Reading\<close>

lemma inode_word_spec:
  assumes a: "at f0 f Map.empty v m" and i: "i < nsec f0"
  shows "\<exists>f'. inode_word f i k = Ok (ld32 (v i) k, f') \<and> at f0 f' Map.empty v m"
proof -
  from at_get_read [OF a i, of False] obtain b f1 f2 where
    g: "get_block f i False = Ok (b, f1)" "read_block f1 b = Ok (v i, f2)" "at f0 f2 [b \<mapsto> (False, i, Same)] v m" by auto
  from at_put_top [OF g(3)] obtain f' where "put_block f2 b = Ok f'" "at f0 f' Map.empty v m" by auto
  with g at_word [OF g(3), of k] show ?thesis by (simp add: inode_word_def Let_def)
qed

lemma read_sector:
  assumes a: "at f0 f Map.empty v m" and s: "s < nsec f0"
  shows "\<exists>b f1 f2 f3. get_block f s False = Ok (b, f1) \<and> read_block f1 b = Ok (v s, f2) \<and> put_block f2 b = Ok f3
    \<and> at f0 f3 Map.empty v m"
proof -
  from at_get_read [OF a s, of False] obtain b f1 f2 where
    g: "get_block f s False = Ok (b, f1)" "read_block f1 b = Ok (v s, f2)" "at f0 f2 [b \<mapsto> (False, s, Same)] v m" by auto
  with at_put_top [OF g(3)] show ?thesis by auto
qed

lemma tree_data:
  assumes "tree_wf v n U i" "slot_of v i (SData k) \<noteq> NO_SECTOR"
  shows "k < MAX_SECTORS" "slot_of v i (SData k) < n"
proof -
  show k: "k < MAX_SECTORS" using assms(2) by (auto simp: num_defs split: if_splits)
  then show "slot_of v i (SData k) < n" using tree_slot(1) [OF assms(1), of "SData k"] assms(2) by (simp del: slot_of.simps)
qed

text \<open>One round of the loop: a hole reads as zeros.\<close>

lemma read_chunk:
  assumes a: "at f0 f Map.empty v m" and wf: "tree_wf v (nsec f0) U i"
    and c: "c \<le> 512 - ofs mod 512" and s: "s = slot_of v i (SData (ofs div 512))"
  shows "\<exists>f'. (if s = NO_SECTOR then Ok (replicate c 0, f)
      else bind (get_block f s False) (\<lambda>(b, f). bind (read_block f b) (\<lambda>(d, f). bind (put_block f b) (\<lambda>f.
        Ok (take c (drop (ofs mod 512) d), f))))) = Ok (map (fbyte v i) [ofs..<ofs + c], f') \<and> at f0 f' Map.empty v m"
proof (cases "s = NO_SECTOR")
  case True
  with a chunk_bytes [OF c atD(6) [OF a] s] show ?thesis by simp
next
  case False
  then have "s < nsec f0" using tree_data(2) [OF wf] s by blast
  from read_sector [OF a this] False chunk_bytes [OF c atD(6) [OF a] s] show ?thesis by auto
qed

lemma read_loop_spec:
  assumes "at f0 f Map.empty v m" "tree_wf v (nsec f0) U i"
  shows "\<exists>f'. read_loop f i len sz ofs out = Ok (out @ map (fbyte v i) [ofs..<min (ofs + sz) (nat len)], f')
    \<and> at f0 f' Map.empty v m"
  using assms(1)
proof (induction sz arbitrary: f ofs out rule: less_induct)
  case (less sz)
  define s where "s = slot_of v i (SData (ofs div 512))"
  define c where "c = min sz (min (nat (len - int ofs)) (512 - ofs mod 512))"
  from byte_to_sector_read [OF less.prems assms(2), of ofs] obtain f1 where
    1: "byte_to_sector f i ofs False = Ok (s, f1)" "at f0 f1 Map.empty v m" unfolding s_def by blast
  have "c \<le> 512 - ofs mod 512" by (simp add: c_def)
  from read_chunk [OF 1(2) assms(2) this s_def] obtain f2 where
    2: "(if s = NO_SECTOR then Ok (replicate c 0, f1)
      else bind (get_block f1 s False) (\<lambda>(b, f). bind (read_block f b) (\<lambda>(d, f). bind (put_block f b) (\<lambda>f.
        Ok (take c (drop (ofs mod 512) d), f))))) = Ok (map (fbyte v i) [ofs..<ofs + c], f2)"
      "at f0 f2 Map.empty v m" by blast
  have eq: "read_loop f i len sz ofs out = (if sz = 0 then Ok (out, f) else if c = 0 then Ok (out, f1)
      else read_loop f2 i len (sz - c) (ofs + c) (out @ map (fbyte v i) [ofs..<ofs + c]))"
    by (subst read_loop.simps)
      (simp only: 1(1) 2(1) bind.simps prod.case Let_def BLOCK_SECTOR_SIZE_def c_def [symmetric])
  consider "sz = 0" | "sz \<noteq> 0" "c = 0" | "sz \<noteq> 0" "c \<noteq> 0" by blast
  then show ?case
  proof cases
    case 1
    with less.prems show ?thesis unfolding eq by simp
  next
    case 2
    then have "nat len \<le> ofs" by (auto simp: c_def min_def split: if_splits)
    with 2 \<open>at f0 f1 Map.empty v m\<close> show ?thesis unfolding eq by simp
  next
    case 3
    then have le: "c \<le> sz" "ofs + c \<le> nat len" by (auto simp: c_def min_def split: if_splits)
    have "[ofs..<ofs + c] @ [ofs + c..<min (ofs + c + (sz - c)) (nat len)] = [ofs..<min (ofs + sz) (nat len)]"
      using le upt_add_eq_append [of ofs "ofs + c" "min (ofs + sz) (nat len) - (ofs + c)"] by simp
    moreover have "sz - c < sz" using 3 by simp
    ultimately show ?thesis
      using less.IH [OF _ 2(2), of "sz - c" "ofs + c" "out @ map (fbyte v i) [ofs..<ofs + c]"] 3
      by (simp only: eq if_False append_assoc map_append [symmetric])
  qed
qed

lemma inode_read_at_spec:
  assumes a: "at f0 f Map.empty v m" and wf: "tree_wf v (nsec f0) U i"
  shows "\<exists>f'. inode_read_at f i sz ofs = Ok (map (fbyte v i) [ofs..<min (ofs + sz) (nat (flength v i))], f')
    \<and> at f0 f' Map.empty v m"
proof -
  have "i < nsec f0" using tree_wf_root [OF wf] by simp
  from inode_word_spec [OF a this, of W_length] obtain f1 where
    1: "inode_length f i = Ok (flength v i, f1)" "at f0 f1 Map.empty v m" by (auto simp: inode_length_def flength_def)
  show ?thesis
  proof (cases "int ofs > flength v i")
    case True
    with 1 show ?thesis by (simp add: inode_read_at_def)
  next
    case False
    with 1(1) read_loop_spec [OF 1(2) wf, of "flength v i" sz ofs "[]"] show ?thesis by (simp add: inode_read_at_def)
  qed
qed

section \<open>Changes that keep the tree\<close>

lemma slot_of_cong:
  assumes wf: "tree_wf v n U i" and w: "\<forall>k. W_direct \<le> k \<and> k < 128 \<longrightarrow> ld32 (v' i) k = ld32 (v i) k"
    and t: "\<forall>t\<in>tables v i. t \<noteq> i \<longrightarrow> v' t = v t" and b: "valid_slot b"
  shows "slot_of v' i b = slot_of v i b"
proof -
  have ld: "ld32 (v' i) W_indirect = ld32 (v i) W_indirect" "ld32 (v' i) W_double_indirect = ld32 (v i) W_double_indirect"
      "m < NUM_DIRECT \<Longrightarrow> ld32 (v' i) (W_direct + m) = ld32 (v i) (W_direct + m)" for m
    using w by (simp_all add: inode_disk_layout num_defs)
  have e: "entry v' (slot_of v i a) k = entry v (slot_of v i a) k" if "valid_slot a" "is_table a" for a k
    using tables_slot [OF that, of v i] tree_wfD(3) [OF wf that(1)] t by (auto simp: entry_def)
  note e1 = e [of SIndirect, simplified] and e2 = e [of SDouble, simplified]
  have e3: "entry v' (entry v (ld32 (v i) W_double_indirect) (tab1 m)) k = entry v (entry v (ld32 (v i) W_double_indirect) (tab1 m)) k"
    if "m < MAX_SECTORS" "\<not> m < NUM_DIRECT + NUM_INDIRECT" for m k
    using e [of "STable (tab1 m)"] tab_bounds(1) [OF that] by simp
  show ?thesis
    using b by (cases b) (simp_all only: slot_of.simps ld(1,2) e1 e2, auto simp: ld(3) e3)
qed

declare slot_of.simps [simp del]

lemma tree_wf_cong:
  assumes "tree_wf v n U i" "\<And>b. valid_slot b \<Longrightarrow> slot_of v' i b = slot_of v i b"
  shows "tree_wf v' n U i" "tables v' i = tables v i"
proof -
  show "tree_wf v' n U i"
    using assms unfolding tree_wf_def by auto
  have "tables v' i \<subseteq> tables v i" "tables v i \<subseteq> tables v' i"
    using assms(2) tables_slot [of _ v i] tables_slot [of _ v' i]
    by (intro tables_subset; simp)+
  then show "tables v' i = tables v i" by simp
qed

lemma data_not_table:
  assumes "tree_wf v n U i" "k < MAX_SECTORS" "slot_of v i (SData k) \<noteq> NO_SECTOR"
  shows "slot_of v i (SData k) \<notin> tables v i"
proof
  assume "slot_of v i (SData k) \<in> tables v i"
  then consider "slot_of v i (SData k) = i"
    | b where "slot_of v i (SData k) = slot_of v i b" "valid_slot b" "is_table b"
    by (auto simp: tables_def)
  then show False
  proof cases
    case 1
    with tree_wfD(3) [OF assms(1), of "SData k"] assms(2,3) show False by simp
  next
    case 2
    with tree_wf_inj [OF assms(1), of "SData k" b] assms(2,3) have "b = SData k" by simp
    with 2 show False by simp
  qed
qed

section \<open>What a write does\<close>

definition file_sectors :: "(u32 \<Rightarrow> bytes) \<Rightarrow> u32 \<Rightarrow> u32 set" where
  "file_sectors v i = tables v i \<union> {slot_of v i (SData k) | k. slot_of v i (SData k) \<noteq> NO_SECTOR}"

text \<open>
  The bytes at the positions in \<open>B\<close> are now \<open>g\<close>.  Elsewhere the file is as it was, but
  for positions that had no sector and now share one with \<open>B\<close>: these show what the
  sector contained before.  Used sectors that are not the file's are untouched.
\<close>

definition wrote :: "u32 \<Rightarrow> u32 \<Rightarrow> nat set \<Rightarrow> (nat \<Rightarrow> u8) \<Rightarrow> (u32 \<Rightarrow> bytes) \<Rightarrow> bitmap \<Rightarrow> (u32 \<Rightarrow> bytes) \<Rightarrow> bitmap \<Rightarrow> bool" where
  "wrote n i B g v m v' m' \<longleftrightarrow>
     tree_wf v' n (used_sectors m') i \<and> used_sectors m \<subseteq> used_sectors m'
     \<and> (\<forall>k<W_direct. ld32 (v' i) k = ld32 (v i) k)
     \<and> (\<forall>j. slot_of v' i (SData j) \<noteq> slot_of v i (SData j) \<longrightarrow>
          slot_of v i (SData j) = NO_SECTOR \<and> unat (slot_of v' i (SData j)) \<notin> used_sectors m)
     \<and> (\<forall>p\<in>B. slot_of v' i (SData (p div 512)) \<noteq> NO_SECTOR \<and> fbyte v' i p = g p)
     \<and> (\<forall>p. p \<notin> B \<longrightarrow> fbyte v' i p =
          (if slot_of v' i (SData (p div 512)) = slot_of v i (SData (p div 512)) then fbyte v i p
           else v (slot_of v' i (SData (p div 512))) ! (p mod 512)))
     \<and> file_sectors v i \<subseteq> file_sectors v' i \<and> file_sectors v' i \<subseteq> file_sectors v i \<union> {t. unat t \<notin> used_sectors m}
     \<and> (\<forall>t. t \<notin> file_sectors v' i \<longrightarrow> v' t = v t)"

lemma file_sectors_used:
  assumes "tree_wf v n U i" "t \<in> file_sectors v i"
  shows "unat t \<in> U"
proof -
  have "valid_slot b \<Longrightarrow> slot_of v i b \<noteq> NO_SECTOR \<Longrightarrow> unat (slot_of v i b) \<in> U" for b using tree_wfD(2) [OF assms(1)] .
  moreover have "slot_of v i (SData k) \<noteq> NO_SECTOR \<Longrightarrow> valid_slot (SData k)" for k using tree_data(1) [OF assms(1)] by simp
  ultimately show ?thesis
    using assms(2) tree_wf_root [OF assms(1)] by (auto simp: file_sectors_def tables_def)
qed

lemma wrote_refl: "tree_wf v n (used_sectors m) i \<Longrightarrow> wrote n i {} g v m v m"
  by (simp add: wrote_def)

lemma wrote_trans:
  assumes w1: "wrote n i B g v m v1 m1" and w2: "wrote n i B' g v1 m1 v' m'"
  shows "wrote n i (B \<union> B') g v m v' m'"
proof -
  let ?s = "\<lambda>v j. slot_of v i (SData j)"
  have wf1: "tree_wf v1 n (used_sectors m1) i" and u: "used_sectors m \<subseteq> used_sectors m1"
    and h1: "\<And>j. ?s v1 j \<noteq> ?s v j \<Longrightarrow> ?s v j = NO_SECTOR \<and> unat (?s v1 j) \<notin> used_sectors m"
    and b1: "\<And>p. p \<in> B \<Longrightarrow> ?s v1 (p div 512) \<noteq> NO_SECTOR \<and> fbyte v1 i p = g p"
    and o1: "\<And>p. p \<notin> B \<Longrightarrow> fbyte v1 i p =
      (if ?s v1 (p div 512) = ?s v (p div 512) then fbyte v i p else v (?s v1 (p div 512)) ! (p mod 512))"
    and k1: "\<And>t. t \<notin> file_sectors v1 i \<Longrightarrow> v1 t = v t"
    using w1 unfolding wrote_def by blast+
  have h2: "\<And>j. ?s v' j \<noteq> ?s v1 j \<Longrightarrow> ?s v1 j = NO_SECTOR \<and> unat (?s v' j) \<notin> used_sectors m1"
    and b2: "\<And>p. p \<in> B' \<Longrightarrow> ?s v' (p div 512) \<noteq> NO_SECTOR \<and> fbyte v' i p = g p"
    and o2: "\<And>p. p \<notin> B' \<Longrightarrow> fbyte v' i p =
      (if ?s v' (p div 512) = ?s v1 (p div 512) then fbyte v1 i p else v1 (?s v' (p div 512)) ! (p mod 512))"
    using w2 unfolding wrote_def by blast+
  have slots: "?s v j = NO_SECTOR \<and> unat (?s v' j) \<notin> used_sectors m" if "?s v' j \<noteq> ?s v j" for j
    using h1 [of j] h2 [of j] that u by (cases "?s v' j = ?s v1 j"; cases "?s v1 j = ?s v j") auto
  have new: "?s v' (p div 512) \<noteq> NO_SECTOR \<and> fbyte v' i p = g p" if "p \<in> B \<union> B'" for p
    using that b1 [of p] b2 [of p] o2 [of p] h2 [of "p div 512"] by (cases "p \<in> B'") (auto split: if_splits)
  have "v1 (?s v' j) = v (?s v' j)" if "?s v' j \<noteq> ?s v1 j" for j
    using k1 h2 [OF that] file_sectors_used [OF wf1] by blast
  then have old: "fbyte v' i p = (if ?s v' (p div 512) = ?s v (p div 512) then fbyte v i p else v (?s v' (p div 512)) ! (p mod 512))"
    if "p \<notin> B \<union> B'" for p
    using that o1 [of p] o2 [of p] h1 [of "p div 512"] h2 [of "p div 512"]
    by (cases "?s v' (p div 512) = ?s v1 (p div 512)"; cases "?s v1 (p div 512) = ?s v (p div 512)")
      auto
  show ?thesis
    using w1 w2 u slots new old unfolding wrote_def by auto
qed

lemma SData_bound: "slot_of v i (SData k) \<noteq> NO_SECTOR \<Longrightarrow> k < MAX_SECTORS"
  by (auto simp: slot_of.simps num_defs split: if_splits)

lemma file_sectors_eq:
  assumes "tables v' i = tables v i" "\<And>k. slot_of v' i (SData k) = slot_of v i (SData k)"
  shows "file_sectors v' i = file_sectors v i"
  using assms by (simp add: file_sectors_def)

lemma file_sectors_subset:
  assumes "tables v i \<subseteq> T" "\<And>k. slot_of v i (SData k) \<noteq> NO_SECTOR \<Longrightarrow> slot_of v i (SData k) \<in> T"
  shows "file_sectors v i \<subseteq> T"
  using assms by (auto simp: file_sectors_def)

lemma file_sectors_data: "slot_of v i (SData k) \<noteq> NO_SECTOR \<Longrightarrow> slot_of v i (SData k) \<in> file_sectors v i"
  by (auto simp: file_sectors_def)

text \<open>Placing a sector shows its old contents.\<close>

lemma placed_wrote:
  assumes p: "placed n i k c s v m v1 m1" and wf: "tree_wf v n (used_sectors m) i"
  shows "wrote n i {} g v m v1 m1"
proof -
  let ?s = "\<lambda>v j. slot_of v i (SData j)"
  have e: "tree_wf v1 n (used_sectors m1) i" "used_sectors m \<subseteq> used_sectors m1"
      "\<forall>j<MAX_SECTORS. j \<noteq> k \<longrightarrow> ?s v1 j = ?s v j" "\<forall>k<W_direct. ld32 (v1 i) k = ld32 (v i) k"
      "tables v i \<subseteq> tables v1 i" "\<forall>t\<in>tables v1 i. t \<in> tables v i \<or> unat t \<notin> used_sectors m"
      "\<forall>t. t \<notin> tables v1 i \<longrightarrow> v1 t = v t"
    and s: "?s v1 k = s" "if ?s v k = NO_SECTOR then unat s \<notin> used_sectors m else s = ?s v k"
    using p by (simp_all add: placed_def ext_def)
  have other: "?s v1 j = ?s v j" if "j \<noteq> k" for j
    using e(3) that SData_bound [of v i j] SData_bound [of v1 i j] by metis
  have h: "?s v j = NO_SECTOR \<and> unat (?s v1 j) \<notin> used_sectors m" if "?s v1 j \<noteq> ?s v j" for j
    using that other [of j] s by (cases "j = k") (auto split: if_splits)
  have cont: "v1 (?s v1 j) = v (?s v1 j)" if "?s v1 j \<noteq> NO_SECTOR" for j
    using e(7) data_not_table [OF e(1) SData_bound [OF that] that] by blast
  have "fbyte v1 i p = (if ?s v1 (p div 512) = ?s v (p div 512) then fbyte v i p else v (?s v1 (p div 512)) ! (p mod 512))" for p
    using h [of "p div 512"] cont [of "p div 512"] other [of "p div 512"] s
    by (auto simp: fbyte_def Let_def)
  moreover have "file_sectors v i \<subseteq> file_sectors v1 i"
  proof (rule file_sectors_subset)
    show "tables v i \<subseteq> file_sectors v1 i" using e(5) by (auto simp: file_sectors_def)
    show "?s v j \<in> file_sectors v1 i" if "?s v j \<noteq> NO_SECTOR" for j
      using h [of j] that file_sectors_data [of v1 i j] by (cases "?s v1 j = ?s v j") auto
  qed
  moreover have "file_sectors v1 i \<subseteq> file_sectors v i \<union> {t. unat t \<notin> used_sectors m}"
  proof (rule file_sectors_subset)
    show "tables v1 i \<subseteq> file_sectors v i \<union> {t. unat t \<notin> used_sectors m}" using e(6) by (auto simp: file_sectors_def)
    show "?s v1 j \<in> file_sectors v i \<union> {t. unat t \<notin> used_sectors m}" if "?s v1 j \<noteq> NO_SECTOR" for j
      using h [of j] that file_sectors_data [of v i j] by (cases "?s v1 j = ?s v j") auto
  qed
  moreover have "\<forall>t. t \<notin> file_sectors v1 i \<longrightarrow> v1 t = v t" using e(7) by (simp add: file_sectors_def)
  ultimately show ?thesis using e h unfolding wrote_def by blast
qed

text \<open>Patching a sector of the file.\<close>

lemma patch_wrote:
  assumes wf: "tree_wf v n (used_sectors m) i" and s: "slot_of v i (SData (ofs div 512)) = s" "s \<noteq> NO_SECTOR"
    and c: "ofs mod 512 + length chunk \<le> 512" and len: "length (v s) = 512"
    and g: "\<And>k. k < length chunk \<Longrightarrow> g (ofs + k) = chunk ! k"
  shows "wrote n i {ofs..<ofs + length chunk} g v m (v(s := patch (v s) (ofs mod 512) chunk)) m"
proof -
  let ?v = "v(s := patch (v s) (ofs mod 512) chunk)"
  have st: "s \<notin> tables v i" using data_not_table [OF wf, of "ofs div 512"] s SData_bound [of v i "ofs div 512"] by simp
  have sl: "slot_of ?v i b = slot_of v i b" if "valid_slot b" for b
    using st by (intro slot_of_cong [OF wf _ _ that]) auto
  have sd: "slot_of ?v i (SData j) = slot_of v i (SData j)" for j
    using sl [of "SData j"] SData_bound [of v i j] SData_bound [of ?v i j]
    by (cases "j < MAX_SECTORS") (simp, metis)
  note t = tree_wf_cong [OF wf, of ?v, OF sl]
  have hit: "slot_of v i (SData j) = s \<longleftrightarrow> j = ofs div 512" for j
    using tree_wf_inj [OF wf, of "SData j" "SData (ofs div 512)"] s SData_bound [of v i j] SData_bound [of v i "ofs div 512"]
    by auto
  have byte: "fbyte ?v i p = (if p div 512 = ofs div 512 then patch (v s) (ofs mod 512) chunk ! (p mod 512) else fbyte v i p)" for p
    using hit [of "p div 512"] s by (auto simp: fbyte_def sd Let_def)
  have out: "fbyte ?v i p = fbyte v i p" if "p \<notin> {ofs..<ofs + length chunk}" for p
  proof (cases "p div 512 = ofs div 512")
    case True
    then have "p mod 512 < ofs mod 512 \<or> ofs mod 512 + length chunk \<le> p mod 512"
      using that by (metis atLeastLessThan_iff div_mult_mod_eq not_le add_less_cancel_left add.assoc)
    moreover have "p mod 512 < 512" by simp
    ultimately have "patch (v s) (ofs mod 512) chunk ! (p mod 512) = v s ! (p mod 512)"
      using len c by (auto simp: patch_def nth_append)
    with True s show ?thesis by (simp add: byte) (simp add: fbyte_def Let_def)
  qed (simp add: byte)
  moreover have "fbyte ?v i p = g p \<and> slot_of ?v i (SData (p div 512)) \<noteq> NO_SECTOR" if "p \<in> {ofs..<ofs + length chunk}" for p
  proof -
    from that obtain q where q: "p = ofs + q" "q < length chunk"
      by (auto simp: le_iff_add)
    with in_sector [of ofs p] c have d: "p div 512 = ofs div 512" "p mod 512 = ofs mod 512 + q" by auto
    have "patch (v s) (ofs mod 512) chunk ! (ofs mod 512 + q) = chunk ! q"
      using q(2) len c by (simp add: patch_def nth_append)
    with d g [OF q(2)] q s show ?thesis by (simp only: byte sd) simp
  qed
  moreover have "ld32 (?v i) k = ld32 (v i) k" for k using st by auto
  moreover have "s \<in> file_sectors v i" using s by (auto simp: file_sectors_def)
  then have "\<forall>t. t \<notin> file_sectors v i \<longrightarrow> ?v t = v t" by auto
  ultimately show ?thesis
    using t file_sectors_eq [OF t(2) sd] unfolding wrote_def sd by simp
qed

section \<open>Writing\<close>

text \<open>One round of the loop, on a sector that is there.\<close>

lemma write_sector:
  assumes a: "at f0 f Map.empty v m" and s: "s < nsec f0" and c: "so + length chunk \<le> 512"
  shows "\<exists>b f1 f2 f3. get_block f s True = Ok (b, f1)
    \<and> (if so = 0 \<and> length chunk = BLOCK_SECTOR_SIZE
       then Ok (let f = zero_block f1 b in f\<lparr>fs_cache := cache_store (fs_cache f) b chunk\<rparr>)
       else bind (read_block f1 b) (\<lambda>(d, f). Ok (f\<lparr>fs_cache := cache_store (fs_cache f) b (patch d so chunk)\<rparr>))) = Ok f2
    \<and> put_block (mark_block_dirty f2 b) b = Ok f3 \<and> at f0 f3 Map.empty (v(s := patch (v s) so chunk)) m"
proof (cases "so = 0 \<and> length chunk = BLOCK_SECTOR_SIZE")
  case True
  then have full: "so = 0" "length chunk = 512" by (simp_all add: BLOCK_SECTOR_SIZE_def)
  from at_get_zero [OF a s] obtain b f1 where
    g: "get_block f s True = Ok (b, f1)" "at f0 (zero_block f1 b) [b \<mapsto> (True, s, Dirty)] (v(s := replicate BLOCK_SECTOR_SIZE 0)) m"
    by auto
  let ?f = "(zero_block f1 b)\<lparr>fs_cache := cache_store (fs_cache (zero_block f1 b)) b chunk\<rparr>"
  have "patch (v s) so chunk = chunk" using full atD(6) [OF a, of s] by (simp add: patch_def)
  then have "at f0 ?f [b \<mapsto> (True, s, Dirty)] (v(s := patch (v s) so chunk)) m"
    using at_store [OF g(2), of b s Dirty chunk] True by simp
  from at_put_top [OF at_mark_top [OF this]] True g(1) show ?thesis by (auto simp: Let_def)
next
  case False
  from at_get_read [OF a s, of True] obtain b f1 f2 where
    g: "get_block f s True = Ok (b, f1)" "read_block f1 b = Ok (v s, f2)" "at f0 f2 [b \<mapsto> (True, s, Same)] v m" by auto
  have "length (patch (v s) so chunk) = BLOCK_SECTOR_SIZE" using c atD(6) [OF a, of s] by (simp add: BLOCK_SECTOR_SIZE_def)
  from at_store [OF g(3) _ this, of b s Same]
  have "at f0 (f2\<lparr>fs_cache := cache_store (fs_cache f2) b (patch (v s) so chunk)\<rparr>) [b \<mapsto> (True, s, Unmarked)]
      (v(s := patch (v s) so chunk)) m" by simp
  from at_put_top [OF at_mark_top [OF this]] False g(1,2) show ?thesis by auto
qed

text \<open>The number of sectors a range of positions touches.\<close>

definition span :: "nat \<Rightarrow> nat \<Rightarrow> nat" where
  "span ofs len = (if len = 0 then 0 else (ofs + len + 511) div 512 - ofs div 512)"

lemma span_step:
  assumes "c = min len (512 - ofs mod 512)" and that: "c < len"
  shows "span ofs len = Suc (span (ofs + c) (len - c))"
proof -
  have c: "c = 512 - ofs mod 512" using assms(1) that by simp
  have "ofs + c = 512 * (ofs div 512 + 1)" using c by (simp add: minus_mod_eq_mult_div [symmetric] algebra_simps)
  then have "(ofs + c) div 512 = ofs div 512 + 1" by simp
  moreover have "ofs + c + (len - c) = ofs + len" using that by simp
  moreover have "ofs div 512 + 1 < (ofs + len + 511) div 512 + 1"
  proof -
    have "512 * (ofs div 512 + 1) \<le> ofs + len + 511" using \<open>ofs + c = _\<close> that by simp
    then have "ofs div 512 + 1 \<le> (ofs + len + 511) div 512" by (simp add: less_eq_div_iff_mult_less_eq)
    then show ?thesis by simp
  qed
  ultimately show ?thesis using that by (simp add: span_def Suc_diff_Suc)
qed

lemma span_pos: "0 < len \<Longrightarrow> 0 < span ofs len"
proof -
  assume len: "0 < len"
  then have "(ofs + 512) div 512 \<le> (ofs + len + 511) div 512" by (intro div_le_mono) simp
  then have "ofs div 512 < (ofs + len + 511) div 512" by linarith
  with len show ?thesis by (simp add: span_def)
qed

lemma write_loop_spec:
  assumes "at f0 f Map.empty v m" "tree_wf v (nsec f0) (used_sectors m) i"
    "ofs + length src \<le> 512 * MAX_SECTORS" "3 * span ofs (length src) \<le> free_cnt (nsec f0) m"
    "\<And>k. k < length src \<Longrightarrow> g (ofs + k) = src ! k"
  shows "\<exists>f' v' m'. write_loop f i src ofs w = Ok (ofs + length src, w + length src, f') \<and> at f0 f' Map.empty v' m'
    \<and> wrote (nsec f0) i {ofs..<ofs + length src} g v m v' m'"
  using assms
proof (induction "length src" arbitrary: f v m src ofs w rule: less_induct)
  case less
  show ?case
  proof (cases "src = []")
    case True
    with less.prems show ?thesis by (subst write_loop.simps) (auto intro!: exI [of _ v] exI [of _ m] wrote_refl)
  next
    case False
    define c where "c = min (length src) (512 - ofs mod 512)"
    define k where "k = ofs div 512"
    have c: "0 < c" "c \<le> length src" "c \<le> 512 - ofs mod 512" using False by (simp_all add: c_def)
    have "ofs < MAX_SECTORS * 512" using less.prems(3) False by (cases src) auto
    then have km: "k < MAX_SECTORS" by (simp add: k_def less_mult_imp_div_less)
    have room: "3 \<le> free_cnt (nsec f0) m" using less.prems(4) span_pos [of "length src" ofs] False by simp
    from byte_to_sector_write [OF less.prems(1,2) k_def km room] obtain s f1 v1 m1 e where
      1: "byte_to_sector f i ofs True = Ok (s, f1)" "at f0 f1 Map.empty v1 m1" "placed (nsec f0) i k e s v m v1 m1" "e \<le> 3"
      by blast
    note w1 = placed_wrote [OF 1(3) less.prems(2), of g]
    have wf1: "tree_wf v1 (nsec f0) (used_sectors m1) i" and s: "s < nsec f0" "slot_of v1 i (SData k) = s"
      and fr: "free_cnt (nsec f0) m = free_cnt (nsec f0) m1 + e"
      using 1(3) by (simp_all add: placed_def ext_def)
    have ns: "s \<noteq> NO_SECTOR" "s \<noteq> NO_SPACE" using NO_SECTOR_ge [OF _ s(1)] tree_wf_root [OF wf1] by auto
    have cl: "ofs mod 512 + length (take c src) \<le> 512" using c by simp
    from write_sector [OF 1(2) s(1) cl] obtain b f2 f3 f4 where
      2: "get_block f1 s True = Ok (b, f2)"
        "(if ofs mod 512 = 0 \<and> length (take c src) = BLOCK_SECTOR_SIZE
         then Ok (let f = zero_block f2 b in f\<lparr>fs_cache := cache_store (fs_cache f) b (take c src)\<rparr>)
         else bind (read_block f2 b) (\<lambda>(d, f). Ok (f\<lparr>fs_cache := cache_store (fs_cache f) b (patch d (ofs mod 512) (take c src))\<rparr>)))
         = Ok f3"
        "put_block (mark_block_dirty f3 b) b = Ok f4"
        "at f0 f4 Map.empty (v1(s := patch (v1 s) (ofs mod 512) (take c src))) m1" by blast
    let ?v2 = "v1(s := patch (v1 s) (ofs mod 512) (take c src))"
    have lt: "length (take c src) = c" using c by simp
    have "wrote (nsec f0) i {ofs..<ofs + c} g v1 m1 ?v2 m1"
      using patch_wrote [OF wf1 s(2) [unfolded k_def] ns(1) cl atD(6) [OF 1(2)], of g] less.prems(5) c(2) unfolding lt by simp
    from wrote_trans [OF w1 this] have w2: "wrote (nsec f0) i {ofs..<ofs + c} g v m ?v2 m1" by simp
    have eq: "write_loop f i src ofs w = write_loop f4 i (drop c src) (ofs + c) (w + c)"
      using False ns(2)
      by (subst write_loop.simps)
        (simp only: if_False 1(1) bind.simps prod.case Let_def BLOCK_SECTOR_SIZE_def c_def [symmetric] 2(1)
          2(2) [unfolded lt Let_def BLOCK_SECTOR_SIZE_def] 2(3))
    have len: "length (drop c src) < length src" "ofs + c + length (drop c src) = ofs + length src"
      "w + c + length (drop c src) = w + length src" using c by simp_all
    have "3 * span (ofs + c) (length (drop c src)) \<le> free_cnt (nsec f0) m1"
    proof (cases "c < length src")
      case True
      then show ?thesis using span_step [OF c_def True] less.prems(4) fr 1(4) by simp
    next
      case False
      then show ?thesis by (simp add: span_def)
    qed
    moreover have "tree_wf ?v2 (nsec f0) (used_sectors m1) i" using w2 by (simp add: wrote_def)
    moreover have "g (ofs + c + j) = drop c src ! j" if "j < length (drop c src)" for j
      using less.prems(5) [of "c + j"] that by (simp add: add.assoc)
    ultimately obtain f' v' m' where
      r: "write_loop f4 i (drop c src) (ofs + c) (w + c) = Ok (ofs + length src, w + length src, f')"
        "at f0 f' Map.empty v' m'" "wrote (nsec f0) i {ofs + c..<ofs + length src} g ?v2 m1 v' m'"
      using less.hyps [OF len(1) 2(4), of "ofs + c" "w + c"] less.prems(3) unfolding len(2,3) by blast
    have "{ofs..<ofs + c} \<union> {ofs + c..<ofs + length src} = {ofs..<ofs + length src}" using c by auto
    with wrote_trans [OF w2 r(3)] r(1,2) eq show ?thesis by auto
  qed
qed

end
