(* ===== verification/InodeFile.thy ===== *)
theory InodeFile
  imports InodeData
begin

text \<open>
  The contract of \<open>inode_read_at\<close> and \<open>inode_write_at\<close>: what a write returns and leaves
  behind, for the file written, for other files, and on a full device.
\<close>

section \<open>The state between operations\<close>

definition fs_ok :: "fs \<Rightarrow> u32 \<Rightarrow> bool" where
  "fs_ok f i \<longleftrightarrow> at f f Map.empty (fview f) (fs_free_map f)
     \<and> tree_wf (fview f) (nsec f) (used_sectors (fs_free_map f)) i"

lemma fs_okD:
  assumes "fs_ok f i"
  shows "at f f Map.empty (fview f) (fs_free_map f)" "tree_wf (fview f) (nsec f) (used_sectors (fs_free_map f)) i"
    "i < nsec f" "length (fview f s) = 512"
proof -
  show a: "at f f Map.empty (fview f) (fs_free_map f)" and "tree_wf (fview f) (nsec f) (used_sectors (fs_free_map f)) i"
    using assms by (simp_all add: fs_ok_def)
  then show "i < nsec f" using tree_wf_root by blast
  show "length (fview f s) = 512" by (rule atD(6) [OF a])
qed

lemma at_self: "at f0 f P v m \<Longrightarrow> at f f P (fview f) (fs_free_map f)"
  unfolding at_def by (cases f) auto

lemma at_fs_ok:
  assumes "at f0 f Map.empty v m" "tree_wf v (nsec f0) (used_sectors m) i"
  shows "fs_ok f i" "fview f = v" "fs_free_map f = m" "nsec f = nsec f0" "inodes f = inodes f0"
proof -
  have "inodes f = inodes (f0\<lparr>fs_cache := fs_cache f, fs_free_map := m\<rparr>)"
    using assms(1) unfolding at_def by metis
  then show "inodes f = inodes f0" by simp
qed (use assms at_self [OF assms(1)] in \<open>auto simp: fs_ok_def at_def\<close>)

section \<open>The length\<close>

definition longer :: "(u32 \<Rightarrow> bytes) \<Rightarrow> u32 \<Rightarrow> nat \<Rightarrow> u32 \<Rightarrow> bytes" where
  "longer v i ofs = (if flength v i < int ofs then v(i := st32 (v i) W_length (of_nat ofs)) else v)"

lemma extend_length_spec:
  assumes a: "at f0 f Map.empty v m" and i: "i < nsec f0"
  shows "\<exists>f'. extend_length f i ofs = Ok f' \<and> at f0 f' Map.empty (longer v i ofs) m"
proof -
  from at_get_read [OF a i, of True] obtain b f1 f2 where
    g: "get_block f i True = Ok (b, f1)" "read_block f1 b = Ok (v i, f2)" "at f0 f2 [b \<mapsto> (True, i, Same)] v m" by auto
  have w: "sint (word_at f2 b W_length) = flength v i" using at_word [OF g(3)] by (simp add: flength_def)
  show ?thesis
  proof (cases "flength v i < int ofs")
    case True
    have "at f0 (set_word f2 b W_length (of_nat ofs)) [b \<mapsto> (True, i, Unmarked)] (longer v i ofs) m"
      using at_set_word_top [OF g(3), of W_length "of_nat ofs"] True by (simp add: W_length_def longer_def)
    from at_put_top [OF at_mark_top [OF this]] g w True show ?thesis by (auto simp: extend_length_def Let_def)
  next
    case False
    with at_put_top [OF g(3)] g w show ?thesis by (auto simp: extend_length_def Let_def longer_def)
  qed
qed

lemma longer_tree:
  assumes wf: "tree_wf v n U i" and len: "length (v i) = 512" and ofs: "ofs < 2 ^ 31"
  shows "tree_wf (longer v i ofs) n U i" "file_sectors (longer v i ofs) i = file_sectors v i"
    "fbyte (longer v i ofs) i p = fbyte v i p" "flength (longer v i ofs) i = max (flength v i) (int ofs)"
    "t \<noteq> i \<Longrightarrow> longer v i ofs t = v t" "slot_of (longer v i ofs) i (SData k) = slot_of v i (SData k)"
proof -
  have ld: "ld32 (longer v i ofs i) k = (if k = W_length \<and> flength v i < int ofs then of_nat ofs else ld32 (v i) k)" for k
    using len by (auto simp: longer_def ld32_st32 W_length_def)
  show oth: "longer v i ofs t = v t" if "t \<noteq> i" for t using that by (simp add: longer_def)
  have sl: "slot_of (longer v i ofs) i b = slot_of v i b" if "valid_slot b" for b
    using oth by (intro slot_of_cong [OF wf _ _ that]) (auto simp: ld inode_disk_layout)
  show sd: "slot_of (longer v i ofs) i (SData k) = slot_of v i (SData k)" for k
    using sl [of "SData k"] SData_bound [of v i k] SData_bound [of "longer v i ofs" i k]
    by (cases "k < MAX_SECTORS") (simp, metis)
  note t = tree_wf_cong [OF wf, of "longer v i ofs", OF sl]
  show "tree_wf (longer v i ofs) n U i" by (rule t(1)) auto
  show "file_sectors (longer v i ofs) i = file_sectors v i" by (rule file_sectors_eq [OF t(2) sd]) auto
  have "slot_of v i (SData k) \<noteq> NO_SECTOR \<Longrightarrow> slot_of v i (SData k) \<noteq> i" for k
    using tree_wfD(3) [OF wf, of "SData k"] SData_bound [of v i k] by simp
  then show "fbyte (longer v i ofs) i p = fbyte v i p" by (simp add: fbyte_def sd Let_def oth)
  have "sint (of_nat ofs :: u32) = int ofs"
    using ofs by (simp add: signed_of_nat signed_take_bit_int_eq_self)
  then show "flength (longer v i ofs) i = max (flength v i) (int ofs)"
    by (auto simp: flength_def ld)
qed

section \<open>The contract of a write\<close>

lemma inode_write_at_spec:
  assumes ok: "fs_ok f i" and i: "i_sector (inodes f ino) = i" "i_deny_write_cnt (inodes f ino) = 0"
    and fits: "ofs + length src \<le> 512 * MAX_SECTORS" "3 * span ofs (length src) \<le> free_cnt (nsec f) (fs_free_map f)"
    and g: "\<And>k. k < length src \<Longrightarrow> g (ofs + k) = src ! k"
  shows "\<exists>f' v'. inode_write_at f ino src ofs = Ok (length src, f') \<and> fs_ok f' i \<and> inodes f' = inodes f \<and> nsec f' = nsec f
    \<and> wrote (nsec f) i {ofs..<ofs + length src} g (fview f) (fs_free_map f) v' (fs_free_map f')
    \<and> length (v' i) = 512 \<and> fview f' = longer v' i (ofs + length src)"
proof -
  note d = fs_okD [OF ok]
  from write_loop_spec [OF d(1,2) fits g, of 0] obtain f1 v' m' where
    1: "write_loop f i src ofs 0 = Ok (ofs + length src, length src, f1)" "at f f1 Map.empty v' m'"
      "wrote (nsec f) i {ofs..<ofs + length src} g (fview f) (fs_free_map f) v' m'" by auto
  from extend_length_spec [OF 1(2) d(3), of "ofs + length src"] obtain f' where
    2: "extend_length f1 i (ofs + length src) = Ok f'" "at f f' Map.empty (longer v' i (ofs + length src)) m'" by blast
  have wf: "tree_wf v' (nsec f) (used_sectors m') i" using 1(3) by (simp add: wrote_def)
  have lt: "ofs + length src < 2 ^ 31" using fits(1) by (simp add: num_defs)
  note r = at_fs_ok [OF 2(2) longer_tree(1) [OF wf atD(6) [OF 1(2)] lt]]
  have "inode_write_at f ino src ofs = Ok (length src, f')"
    using 1(1) 2(1) i by (simp add: inode_write_at_def)
  with r 1(3) atD(6) [OF 1(2)] show ?thesis by blast
qed

text \<open>The same in terms of the contents before and after.\<close>

definition written :: "fs \<Rightarrow> u32 \<Rightarrow> nat \<Rightarrow> bytes \<Rightarrow> fs \<Rightarrow> bool" where
  "written f i ofs src f' \<longleftrightarrow> fs_ok f' i \<and> inodes f' = inodes f \<and> nsec f' = nsec f
     \<and> flength (fview f') i = max (flength (fview f) i) (int (ofs + length src))
     \<and> (\<forall>p. ofs \<le> p \<and> p < ofs + length src \<longrightarrow>
          fbyte (fview f') i p = src ! (p - ofs) \<and> slot_of (fview f') i (SData (p div 512)) \<noteq> NO_SECTOR)
     \<and> (\<forall>p. \<not> (ofs \<le> p \<and> p < ofs + length src) \<longrightarrow> fbyte (fview f') i p =
          (let s = slot_of (fview f') i (SData (p div 512)) in
           if s = slot_of (fview f) i (SData (p div 512)) then fbyte (fview f) i p else fview f s ! (p mod 512)))
     \<and> (\<forall>k. slot_of (fview f') i (SData k) \<noteq> slot_of (fview f) i (SData k) \<longrightarrow>
          slot_of (fview f) i (SData k) = NO_SECTOR
          \<and> unat (slot_of (fview f') i (SData k)) \<notin> used_sectors (fs_free_map f))
     \<and> used_sectors (fs_free_map f) \<subseteq> used_sectors (fs_free_map f')
     \<and> (\<forall>t. unat t \<in> used_sectors (fs_free_map f) \<and> t \<notin> file_sectors (fview f) i \<longrightarrow> fview f' t = fview f t)"

lemma inode_write_at_written:
  assumes ok: "fs_ok f i" and i: "i_sector (inodes f ino) = i" "i_deny_write_cnt (inodes f ino) = 0"
    and fits: "ofs + length src \<le> 512 * MAX_SECTORS" "3 * span ofs (length src) \<le> free_cnt (nsec f) (fs_free_map f)"
  shows "\<exists>f'. inode_write_at f ino src ofs = Ok (length src, f') \<and> written f i ofs src f'"
proof -
  from inode_write_at_spec [OF ok i fits, of "\<lambda>p. src ! (p - ofs)"] obtain f' v' where
    1: "inode_write_at f ino src ofs = Ok (length src, f')" "fs_ok f' i" "inodes f' = inodes f" "nsec f' = nsec f"
    "wrote (nsec f) i {ofs..<ofs + length src} (\<lambda>p. src ! (p - ofs)) (fview f) (fs_free_map f) v' (fs_free_map f')"
    "length (v' i) = 512" "fview f' = longer v' i (ofs + length src)" by auto
  have wf: "tree_wf v' (nsec f) (used_sectors (fs_free_map f')) i" using 1(5) by (simp add: wrote_def)
  have lt: "ofs + length src < 2 ^ 31" using fits(1) by (simp add: num_defs)
  note l = longer_tree [OF wf 1(6) lt]
  have "flength v' i = flength (fview f) i" using 1(5) by (simp add: wrote_def flength_def inode_disk_layout)
  moreover have "longer v' i (ofs + length src) t = fview f t"
    if "unat t \<in> used_sectors (fs_free_map f)" "t \<notin> file_sectors (fview f) i" for t
  proof -
    have "t \<noteq> i" using that by (auto simp: file_sectors_def)
    moreover have "t \<notin> file_sectors v' i" using 1(5) that by (auto simp: wrote_def)
    then have "v' t = fview f t" using 1(5) by (simp add: wrote_def)
    ultimately show ?thesis using l(5) by simp
  qed
  ultimately have "written f i ofs src f'"
    using 1(2-5) unfolding written_def 1(7) l(3,4,6) wrote_def Let_def by auto
  with 1(1) show ?thesis by blast
qed

lemma inode_read_fs_ok:
  assumes "fs_ok f i"
  shows "\<exists>f'. inode_read_at f i sz ofs = Ok (map (fbyte (fview f) i) [ofs..<min (ofs + sz) (nat (flength (fview f) i))], f')
    \<and> fs_ok f' i \<and> fview f' = fview f"
proof -
  note d = fs_okD [OF assms]
  from inode_read_at_spec [OF d(1,2), of sz ofs] obtain f' where
    r: "inode_read_at f i sz ofs = Ok (map (fbyte (fview f) i) [ofs..<min (ofs + sz) (nat (flength (fview f) i))], f')"
      "at f f' Map.empty (fview f) (fs_free_map f)" by blast
  from at_fs_ok [OF r(2) d(2)] r(1) show ?thesis by blast
qed

lemma map_fbyte_range:
  assumes "\<And>k. k < length src \<Longrightarrow> fbyte v i (ofs + k) = src ! k"
  shows "map (fbyte v i) [ofs..<ofs + length src] = src"
  using assms by (intro nth_equalityI) auto

text \<open>A file none of whose sectors changes is as before.\<close>

lemma tree_wf_frame:
  assumes wf: "tree_wf v n U j" and same: "\<And>t. t \<in> file_sectors v j \<Longrightarrow> v' t = v t" and U: "U \<subseteq> U'"
  shows "tree_wf v' n U' j" "fbyte v' j p = fbyte v j p" "flength v' j = flength v j"
proof -
  have j: "v' j = v j" by (rule same) (simp add: file_sectors_def)
  have sl: "slot_of v' j b = slot_of v j b" if "valid_slot b" for b
    using same j by (intro slot_of_cong [OF wf _ _ that]) (auto simp: file_sectors_def)
  have sd: "slot_of v' j (SData k) = slot_of v j (SData k)" for k
    using sl [of "SData k"] SData_bound [of v j k] SData_bound [of v' j k]
    by (cases "k < MAX_SECTORS") (simp, metis)
  have "tree_wf v' n U j" by (rule tree_wf_cong(1) [OF wf sl])
  with U show "tree_wf v' n U' j" by (auto simp: tree_wf_def)
  show "flength v' j = flength v j" by (simp add: flength_def j)
  show "fbyte v' j p = fbyte v j p"
    using same [OF file_sectors_data, of "p div 512"] by (simp add: fbyte_def sd Let_def)
qed

section \<open>A small file system\<close>

definition blank_inode :: bytes where
  "blank_inode = replicate 12 0 @ replicate 500 255"

definition small_disk :: block where
  "small_disk = \<lparr>b_name = ''hda'', b_type = BLOCK_FILESYS, b_size = 40,
     b_media = (\<lambda>_. replicate 512 7)(2 := blank_inode, 3 := blank_inode), b_read_cnt = 0, b_write_cnt = 0\<rparr>"

definition small_fs :: "u32 \<Rightarrow> cache \<Rightarrow> fs" where
  "small_fs w c = \<lparr>fs_cache = c, fs_free_map = \<lparr>bm_bit_cnt = 40, bm_bits = [w, w]\<rparr>, free_map_inode = None,
     inodes = (\<lambda>k. \<lparr>i_sector = of_nat k + 2, i_open_cnt = 1, i_removed = False, i_deny_write_cnt = 0\<rparr>),
     open_inodes = [0, 1], next_inode = 2, heap = 0\<rparr>"

definition small_boot :: "cache outcome" where
  "small_boot = cache_init (\<lambda>_. Some (replicate 512 9)) (Some (replicate 65 0)) small_disk"

lemma blank_inode_words: "length blank_inode = 512" "k < 3 \<Longrightarrow> ld32 blank_inode k = 0"
    "3 \<le> k \<Longrightarrow> k < 128 \<Longrightarrow> ld32 blank_inode k = NO_SECTOR"
  by (simp_all add: blank_inode_def ld32_def nth_append word_of_bytes_def NO_SECTOR_def)

lemma blank_tree:
  assumes "v i = blank_inode" "i < n" "unat i \<in> U" "unat n + 31 < 2 ^ 32"
  shows "tree_wf v n U i" "slot_of v i (SData k) = NO_SECTOR" "flength v i = 0" "file_sectors v i = {i}"
proof -
  have s: "slot_of v i b = NO_SECTOR" if "valid_slot b" for b
    using that assms(1) by (cases b) (auto simp: slot_of.simps blank_inode_words inode_disk_layout num_defs)
  show k: "slot_of v i (SData k) = NO_SECTOR" for k
    using s [of "SData k"] SData_bound [of v i k] by auto
  show "tree_wf v n U i" using s assms by (auto simp: tree_wf_def)
  show "flength v i = 0" using assms(1) by (simp add: flength_def blank_inode_words W_length_def)
  show "file_sectors v i = {i}" using s by (auto simp: file_sectors_def tables_def k)
qed

lemma small_fs_ok:
  assumes "w = 15 \<or> w = - 1"
  shows "\<exists>c. small_boot = Ok c \<and> fs_ok (small_fs w c) 2 \<and> fs_ok (small_fs w c) 3 \<and> nsec (small_fs w c) = 40
    \<and> fview (small_fs w c) = (\<lambda>_. replicate 512 7)(2 := blank_inode, 3 := blank_inode)"
proof -
  have d: "device_ok small_disk" by (simp add: device_ok_def small_disk_def blank_inode_words BLOCK_SECTOR_SIZE_def)
  have "length (replicate 512 9 :: bytes) = BLOCK_SECTOR_SIZE" "length (replicate 65 0 :: u32 list) = 65"
    by (simp_all add: BLOCK_SECTOR_SIZE_def)
  from cache_init_spec [OF refl this d] obtain c where
    c: "small_boot = Ok c" "cinv c Map.empty" "cview c = b_media small_disk" "fs_device c = small_disk"
    by (auto simp: small_boot_def)
  have v: "cview c 2 = blank_inode" "cview c 3 = blank_inode" using c(3) by (simp_all add: small_disk_def)
  have inv: "bitmap_inv (fs_free_map (small_fs w c))" "length (bits_of (fs_free_map (small_fs w c))) = 40"
    by (simp_all add: small_fs_def bitmap_inv_def)
  have "bits_of \<lparr>bm_bit_cnt = 40, bm_bits = [15, 15]\<rparr> ! 2 \<and> bits_of \<lparr>bm_bit_cnt = 40, bm_bits = [15, 15]\<rparr> ! 3"
      "bits_of \<lparr>bm_bit_cnt = 40, bm_bits = [- 1, - 1]\<rparr> ! 2 \<and> bits_of \<lparr>bm_bit_cnt = 40, bm_bits = [- 1, - 1]\<rparr> ! 3"
    by code_simp+
  with assms inv(2) have used: "2 \<in> used_sectors (fs_free_map (small_fs w c))" "3 \<in> used_sectors (fs_free_map (small_fs w c))"
    by (auto simp: used_bits_def small_fs_def)
  have n: "nsec (small_fs w c) = 40" using c(4) by (simp add: nsec_def small_fs_def small_disk_def)
  have "at (small_fs w c) (small_fs w c) Map.empty (cview c) (fs_free_map (small_fs w c))"
    using c(2) inv n by (simp add: at_def pins_ok_def) (simp add: small_fs_def)
  moreover have "fs_cache (small_fs w c) = c" by (simp add: small_fs_def)
  ultimately have "fs_ok (small_fs w c) 2 \<and> fs_ok (small_fs w c) 3"
    using blank_tree(1) [of "cview c" 2 40 "used_sectors (fs_free_map (small_fs w c))"]
      blank_tree(1) [of "cview c" 3 40 "used_sectors (fs_free_map (small_fs w c))"] v used n
    by (simp add: fs_ok_def)
  then show ?thesis using c(1,3) n by (auto simp: small_disk_def small_fs_def)
qed

lemma small_fs_simps [simp]:
  "i_sector (inodes (small_fs w c) k) = of_nat k + 2" "i_deny_write_cnt (inodes (small_fs w c) k) = 0"
  "fs_cache (small_fs w c) = c"
  by (simp_all add: small_fs_def)

lemma small_free: "3 \<le> free_cnt 40 (fs_free_map (small_fs 15 c))" "free_cnt 40 (fs_free_map (small_fs (- 1) c)) = 0"
proof -
  have b: "bits_of \<lparr>bm_bit_cnt = 40, bm_bits = [15, 15]\<rparr> = replicate 4 True @ replicate 28 False @ replicate 4 True @ replicate 4 False"
    "bits_of \<lparr>bm_bit_cnt = 40, bm_bits = [- 1, - 1]\<rparr> = replicate 40 True"
    by code_simp+
  have "{4, 5, 6} \<subseteq> {..<unat (40::u32)} - used_sectors (fs_free_map (small_fs 15 c))"
    by (simp add: small_fs_def b used_bits_def nth_append)
  from card_mono [OF _ this] show "3 \<le> free_cnt 40 (fs_free_map (small_fs 15 c))" by (simp add: free_cnt_def)
  have "{..<unat (40::u32)} - used_sectors (fs_free_map (small_fs (- 1) c)) = {}"
    by (auto simp: small_fs_def b used_bits_def)
  then show "free_cnt 40 (fs_free_map (small_fs (- 1) c)) = 0" by (simp only: free_cnt_def card.empty)
qed

section \<open>Properties\<close>

text \<open>
  C1: what is written can be read back.  A write that stays below the largest file
  size, on a device with room for every sector it touches and for the tables on the
  way, returns the number of bytes given; the file system is well formed afterwards;
  the length is the maximum of the old one and the end of the write; and a read of the
  same range gives the bytes back.
\<close>

theorem inode_write_then_read:
  assumes "fs_ok f i" "i_sector (inodes f ino) = i" "i_deny_write_cnt (inodes f ino) = 0"
    and "ofs + length src \<le> 512 * MAX_SECTORS" "3 * span ofs (length src) \<le> free_cnt (nsec f) (fs_free_map f)"
  shows "\<exists>f' f''. inode_write_at f ino src ofs = Ok (length src, f') \<and> fs_ok f' i
    \<and> flength (fview f') i = max (flength (fview f) i) (int (ofs + length src))
    \<and> inode_read_at f' i (length src) ofs = Ok (src, f'')"
proof -
  from inode_write_at_written [OF assms] obtain f' where
    w: "inode_write_at f ino src ofs = Ok (length src, f')" "written f i ofs src f'" by blast
  then have ok: "fs_ok f' i" and l: "flength (fview f') i = max (flength (fview f) i) (int (ofs + length src))"
    by (simp_all add: written_def)
  have "min (ofs + length src) (nat (flength (fview f') i)) = ofs + length src" unfolding l by linarith
  moreover have "map (fbyte (fview f') i) [ofs..<ofs + length src] = src"
    using w(2) by (intro map_fbyte_range) (simp add: written_def)
  ultimately show ?thesis using inode_read_fs_ok [OF ok, of "length src" ofs] w(1) ok l by auto
qed

theorem inode_write_then_read_witness:
  "\<exists>c f' f''. small_boot = Ok c \<and> inode_write_at (small_fs 15 c) 0 [1, 2, 3] 700 = Ok (3, f')
     \<and> inode_read_at f' 2 3 700 = Ok ([1, 2, 3], f'')"
proof -
  obtain c where c: "small_boot = Ok c" "fs_ok (small_fs 15 c) 2" "nsec (small_fs 15 c) = 40"
    using small_fs_ok [of 15] by auto
  have h: "i_sector (inodes (small_fs 15 c) 0) = 2" "i_deny_write_cnt (inodes (small_fs 15 c) 0) = 0"
      "700 + length [1 :: u8, 2, 3] \<le> 512 * MAX_SECTORS"
      "3 * span 700 (length [1 :: u8, 2, 3]) \<le> free_cnt (nsec (small_fs 15 c)) (fs_free_map (small_fs 15 c))"
    using small_free(1) [of c] by (simp_all add: num_defs span_def c(3))
  from inode_write_then_read [OF c(2) h] c(1) show ?thesis by (auto simp: numeral_3_eq_3)
qed

text \<open>
  C10: a read returns the bytes of the file: from the sectors of the tree, zero where
  the file has a hole, nothing past the end of the file; and it changes nothing.
\<close>

theorem inode_read_returns_file:
  assumes "fs_ok f i"
  shows "\<exists>f'. inode_read_at f i sz ofs = Ok (map (fbyte (fview f) i) [ofs..<min (ofs + sz) (nat (flength (fview f) i))], f')
    \<and> fs_ok f' i \<and> fview f' = fview f"
  using inode_read_fs_ok [OF assms] .

theorem inode_read_returns_file_witness:
  "\<exists>c f'. small_boot = Ok c \<and> inode_read_at (small_fs 15 c) 2 100 0 = Ok ([], f')"
proof -
  obtain c where c: "small_boot = Ok c" "fs_ok (small_fs 15 c) 2"
      "fview (small_fs 15 c) = (\<lambda>_. replicate 512 7)(2 := blank_inode, 3 := blank_inode)"
    using small_fs_ok [of 15] by auto
  have "flength (fview (small_fs 15 c)) 2 = 0" unfolding c(3) by (simp add: flength_def blank_inode_words W_length_def)
  with inode_read_returns_file [OF c(2), of 100 0] c(1) show ?thesis by auto
qed



text \<open>
  C18: sectors that a write adds to a file are not cleared.  If the sector of the first
  byte written is new, then the positions before it in the same sector, which were a
  hole and read as zero, afterwards read as what a sector that was free held on the
  device: the contents of deleted files come back.
\<close>

theorem inode_write_shows_stale:
  assumes "fs_ok f i" "i_sector (inodes f ino) = i" "i_deny_write_cnt (inodes f ino) = 0"
    and "ofs + length src \<le> 512 * MAX_SECTORS" "3 * span ofs (length src) \<le> free_cnt (nsec f) (fs_free_map f)"
    and "src \<noteq> []" "slot_of (fview f) i (SData (ofs div 512)) = NO_SECTOR" "p div 512 = ofs div 512" "p < ofs"
  shows "\<exists>f' s f''. inode_write_at f ino src ofs = Ok (length src, f') \<and> unat s \<notin> used_sectors (fs_free_map f)
    \<and> inode_read_at f' i 1 p = Ok ([fview f s ! (p mod 512)], f'')"
proof -
  from inode_write_at_written [OF assms(1-5)] obtain f' where
    w: "inode_write_at f ino src ofs = Ok (length src, f')" "written f i ofs src f'" by blast
  let ?s = "slot_of (fview f') i (SData (ofs div 512))"
  have "ofs < ofs + length src" using assms(6) by simp
  with w(2) have "?s \<noteq> NO_SECTOR" by (auto simp: written_def)
  then have s: "?s \<noteq> slot_of (fview f) i (SData (ofs div 512))" using assms(7) by simp
  with w(2) have fr: "unat ?s \<notin> used_sectors (fs_free_map f)" by (simp add: written_def)
  have b: "fbyte (fview f') i p = fview f ?s ! (p mod 512)"
    using w(2) s assms(8,9) by (simp add: written_def Let_def)
  have "int ofs \<le> flength (fview f') i" using w(2) by (simp add: written_def)
  then have m: "min (p + 1) (nat (flength (fview f') i)) = Suc p" using assms(9) by linarith
  have "fs_ok f' i" using w(2) by (simp add: written_def)
  from inode_read_fs_ok [OF this, of 1 p, unfolded m] b w(1) fr show ?thesis by auto
qed

theorem inode_write_shows_stale_witness:
  "\<exists>c f' f''. small_boot = Ok c \<and> inode_write_at (small_fs 15 c) 0 [1, 2, 3] 700 = Ok (3, f')
     \<and> inode_read_at f' 2 1 600 = Ok ([7], f'')"
proof -
  obtain c where c: "small_boot = Ok c" "fs_ok (small_fs 15 c) 2" "nsec (small_fs 15 c) = 40"
      "fview (small_fs 15 c) = (\<lambda>_. replicate 512 7)(2 := blank_inode, 3 := blank_inode)" "fs_ok (small_fs 15 c) 3"
    using small_fs_ok [of 15] by auto
  have h: "i_sector (inodes (small_fs 15 c) 0) = 2" "i_deny_write_cnt (inodes (small_fs 15 c) 0) = 0"
      "700 + length [1 :: u8, 2, 3] \<le> 512 * MAX_SECTORS"
      "3 * span 700 (length [1 :: u8, 2, 3]) \<le> free_cnt (nsec (small_fs 15 c)) (fs_free_map (small_fs 15 c))"
      "[1 :: u8, 2, 3] \<noteq> []" "(600 :: nat) div 512 = 700 div 512" "(600 :: nat) < 700"
    using small_free(1) [of c] by (simp_all add: num_defs span_def c(3))
  have "slot_of (fview (small_fs 15 c)) 2 (SData (700 div 512)) = NO_SECTOR"
    unfolding c(4) by (rule blank_tree(2) [where n = 40 and U = "{2}"]) simp_all
  from inode_write_shows_stale [OF c(2) h(1-5) this h(6,7)] obtain f' s f'' where
    r: "inode_write_at (small_fs 15 c) 0 [1, 2, 3] 700 = Ok (3, f')" "unat s \<notin> used_sectors (fs_free_map (small_fs 15 c))"
      "inode_read_at f' 2 1 600 = Ok ([fview (small_fs 15 c) s ! (600 mod 512)], f'')" by (auto simp: numeral_3_eq_3)
  have "s \<noteq> 2" "s \<noteq> 3"
    using r(2) fs_okD(2) [OF c(2)] fs_okD(2) [OF c(5)] tree_wf_root by blast+
  then have "fview (small_fs 15 c) s ! (600 mod 512) = 7" unfolding c(4) by simp
  with r(1,3) c(1) show ?thesis by auto
qed

text \<open>
  C19: a write on a full device.  If the first byte needs a sector and none is free, the
  write returns 0 and stores nothing, yet the length of the file grows up to the
  position of the write.
\<close>

theorem inode_write_device_full:
  assumes "fs_ok f i" "i_sector (inodes f ino) = i" "i_deny_write_cnt (inodes f ino) = 0"
    and "src \<noteq> []" "ofs < 512 * MAX_SECTORS" "slot_of (fview f) i (SData (ofs div 512)) = NO_SECTOR"
    and "free_cnt (nsec f) (fs_free_map f) = 0"
  shows "\<exists>f'. inode_write_at f ino src ofs = Ok (0, f') \<and> fs_ok f' i
    \<and> (\<forall>p. fbyte (fview f') i p = fbyte (fview f) i p)
    \<and> flength (fview f') i = max (flength (fview f) i) (int ofs)"
proof -
  note d = fs_okD [OF assms(1)]
  have k: "ofs div 512 < MAX_SECTORS" using assms(5) by (simp add: less_mult_imp_div_less mult.commute)
  from byte_to_sector_full [OF d(1,2) refl k assms(6,7)] obtain f1 where
    1: "byte_to_sector f i ofs True = Ok (NO_SPACE, f1)" "at f f1 Map.empty (fview f) (fs_free_map f)" by blast
  from extend_length_spec [OF 1(2) d(3), of ofs] obtain f' where
    2: "extend_length f1 i ofs = Ok f'" "at f f' Map.empty (longer (fview f) i ofs) (fs_free_map f)" by blast
  have lt: "ofs < 2 ^ 31" using assms(5) by (simp add: num_defs)
  note l = longer_tree [OF d(2,4) lt]
  note r = at_fs_ok [OF 2(2) l(1)]
  have "write_loop f i src ofs 0 = Ok (ofs, 0, f1)" using 1(1) assms(4) by (subst write_loop.simps) simp
  with 2(1) assms(2,3) have "inode_write_at f ino src ofs = Ok (0, f')" by (simp add: inode_write_at_def)
  with r l show ?thesis by auto
qed

theorem inode_write_device_full_witness:
  "\<exists>c f'. small_boot = Ok c \<and> inode_write_at (small_fs (- 1) c) 0 [1, 2, 3] 700 = Ok (0, f')
     \<and> flength (fview f') 2 = 700"
proof -
  obtain c where c: "small_boot = Ok c" "fs_ok (small_fs (- 1) c) 2" "nsec (small_fs (- 1) c) = 40"
      "fview (small_fs (- 1) c) = (\<lambda>_. replicate 512 7)(2 := blank_inode, 3 := blank_inode)"
    using small_fs_ok [of "- 1"] by auto
  have h: "i_sector (inodes (small_fs (- 1) c) 0) = 2" "i_deny_write_cnt (inodes (small_fs (- 1) c) 0) = 0"
      "[1 :: u8, 2, 3] \<noteq> []" "(700 :: nat) < 512 * MAX_SECTORS"
      "free_cnt (nsec (small_fs (- 1) c)) (fs_free_map (small_fs (- 1) c)) = 0"
    using small_free(2) [of c] by (simp_all add: num_defs c(3))
  have "slot_of (fview (small_fs (- 1) c)) 2 (SData (700 div 512)) = NO_SECTOR" "flength (fview (small_fs (- 1) c)) 2 = 0"
    unfolding c(4) by (rule blank_tree(2,3) [where n = 40 and U = "{2}"]; simp)+
  with inode_write_device_full [OF c(2) h(1-4) _ h(5)] c(1) show ?thesis by auto
qed

end
