(* ===== verification/InodeTable.thy ===== *)
theory InodeTable
  imports InodeFile
begin

text \<open>
  The rest of \<open>filesys/inode.c\<close>: creating inodes, the table of open inodes, deleting
  files; and what \<open>filesys/free-map.c\<close> and \<open>lib/kernel/bitmap.c\<close> need of files.  The
  file behind the free map is named by its inode, \<open>free_map_inode\<close>; a null pointer that
  is followed is a panic.
\<close>

section \<open>The free map on disk\<close>

definition bytes_of_words :: "u32 list \<Rightarrow> bytes" where
  "bytes_of_words ws = concat (map bytes_of_word ws)"

definition words_of_bytes :: "bytes \<Rightarrow> u32 list" where
  "words_of_bytes d = map (ld32 d) [0..<length d div 4]"

definition bitmap_file_size :: "bitmap \<Rightarrow> u32" where
  "bitmap_file_size b = byte_cnt (bm_bit_cnt b)"

definition bitmap_write :: "fs \<Rightarrow> nat \<Rightarrow> (bool \<times> fs) outcome" where
  "bitmap_write f ino =
     (let b = fs_free_map f; sz = unat (byte_cnt (bm_bit_cnt b)) in
      bind (inode_write_at f ino (take sz (bytes_of_words (bm_bits b))) 0) (\<lambda>(n, f).
      Ok (n = sz, f)))"

definition bitmap_read :: "fs \<Rightarrow> nat \<Rightarrow> (bool \<times> fs) outcome" where
  "bitmap_read f ino =
     (let b = fs_free_map f in
      if 0 < bm_bit_cnt b then
        let sz = unat (byte_cnt (bm_bit_cnt b)) in
        bind (inode_read_at f (i_sector (inodes f ino)) sz 0) (\<lambda>(d, f).
        let ws = words_of_bytes (patch (bytes_of_words (bm_bits b)) 0 d);
            l = unat (elem_cnt (bm_bit_cnt b)) - 1
        in Ok (length d = sz, f\<lparr>fs_free_map := b\<lparr>bm_bits := ws[l := ws ! l AND last_mask b]\<rparr>\<rparr>))
      else Ok (True, f))"

definition free_map_release :: "fs \<Rightarrow> u32 \<Rightarrow> u32 \<Rightarrow> fs outcome" where
  "free_map_release f sector cnt =
     bind (free_map_release_bits (fs_free_map f) sector cnt) (\<lambda>m.
     let f = f\<lparr>fs_free_map := m\<rparr> in
     case free_map_inode f of
       None \<Rightarrow> Panic
     | Some ino \<Rightarrow> bind (bitmap_write f ino) (\<lambda>(_, f). Ok f))"

section \<open>The table of open inodes\<close>

definition inode_init :: "fs \<Rightarrow> fs" where
  "inode_init f = f\<lparr>open_inodes := []\<rparr>"

definition upd_inode :: "nat \<Rightarrow> (inode \<Rightarrow> inode) \<Rightarrow> fs \<Rightarrow> fs" where
  "upd_inode k g f = f\<lparr>inodes := (inodes f)(k := g (inodes f k))\<rparr>"

definition inode_reopen :: "fs \<Rightarrow> nat option \<Rightarrow> nat option \<times> fs" where
  "inode_reopen f ino =
     (case ino of
        None \<Rightarrow> (None, f)
      | Some k \<Rightarrow> (ino, upd_inode k (\<lambda>i. i\<lparr>i_open_cnt := i_open_cnt i + 1\<rparr>) f))"

definition inode_get_inumber :: "fs \<Rightarrow> nat \<Rightarrow> u32" where
  "inode_get_inumber f k = i_sector (inodes f k)"

text \<open>\<open>None\<close>: no memory.\<close>

definition inode_open :: "fs \<Rightarrow> u32 \<Rightarrow> (nat option \<times> fs) outcome" where
  "inode_open f sector =
     (case List.find (\<lambda>k. i_sector (inodes f k) = sector) (open_inodes f) of
        Some k \<Rightarrow> Ok (inode_reopen f (Some k))
      | None \<Rightarrow>
          if heap f = 0 then Ok (None, f)
          else
            let k = next_inode f;
                f = f\<lparr>heap := heap f - 1, next_inode := k + 1, open_inodes := k # open_inodes f,
                      inodes := (inodes f)(k := \<lparr>i_sector = sector, i_open_cnt = 1, i_removed = False, i_deny_write_cnt = 0\<rparr>)\<rparr>
            in bind (get_block f sector False) (\<lambda>(b, f).
               bind (read_block f b) (\<lambda>(_, f).
               bind (put_block f b) (\<lambda>f. Ok (Some k, f)))))"

definition inode_remove :: "fs \<Rightarrow> nat option \<Rightarrow> fs outcome" where
  "inode_remove f ino =
     (case ino of None \<Rightarrow> Panic | Some k \<Rightarrow> Ok (upd_inode k (\<lambda>i. i\<lparr>i_removed := True\<rparr>) f))"

definition inode_is_removed :: "fs \<Rightarrow> nat \<Rightarrow> bool" where
  "inode_is_removed f k = i_removed (inodes f k)"

definition inode_deny_write :: "fs \<Rightarrow> nat \<Rightarrow> fs outcome" where
  "inode_deny_write f k =
     (let f = upd_inode k (\<lambda>i. i\<lparr>i_deny_write_cnt := i_deny_write_cnt i + 1\<rparr>) f
      in assert (i_deny_write_cnt (inodes f k) \<le> i_open_cnt (inodes f k)) (Ok f))"

definition inode_allow_write :: "fs \<Rightarrow> nat \<Rightarrow> fs outcome" where
  "inode_allow_write f k =
     assert (0 < i_deny_write_cnt (inodes f k))
     (assert (i_deny_write_cnt (inodes f k) \<le> i_open_cnt (inodes f k))
     (Ok (upd_inode k (\<lambda>i. i\<lparr>i_deny_write_cnt := i_deny_write_cnt i - 1\<rparr>) f)))"

section \<open>Closing and deleting\<close>

lemma inode_length_bound: "inode_length f i = Ok (len, f') \<Longrightarrow> len < 2 ^ 31"
  using sint_less [of "_ :: u32"] by (auto simp: inode_length_def bind_eq_Ok split: prod.splits)

text \<open>The loop over the data sectors in \<open>inode_close\<close>.\<close>

function release_data :: "fs \<Rightarrow> u32 \<Rightarrow> nat \<Rightarrow> fs outcome" where
  "release_data f isec pos =
     bind (inode_length f isec) (\<lambda>(len, f).
     if int pos < len then
       bind (byte_to_sector f isec pos False) (\<lambda>(sector, f).
       bind (if sector \<noteq> NO_SECTOR then free_map_release f sector 1 else Ok f) (\<lambda>f.
       release_data f isec (pos + BLOCK_SECTOR_SIZE)))
     else Ok f)"
  by auto
termination
  by (relation "measure (\<lambda>(_, _, pos). 2 ^ 31 - pos)")
    (auto simp: BLOCK_SECTOR_SIZE_def dest!: inode_length_bound)

declare release_data.simps [simp del]

text \<open>The loop over the doubly indirect table in block \<open>b\<close>, \<open>n\<close> entries from \<open>k\<close> on.\<close>

fun release_entries :: "fs \<Rightarrow> nat \<Rightarrow> nat \<Rightarrow> nat \<Rightarrow> fs outcome" where
  "release_entries f b k 0 = Ok f"
| "release_entries f b k (Suc n) =
     bind (if word_at f b k \<noteq> NO_SECTOR then free_map_release f (word_at f b k) 1 else Ok f) (\<lambda>f.
     release_entries f b (k + 1) n)"

definition release_tables :: "fs \<Rightarrow> u32 \<Rightarrow> fs outcome" where
  "release_tables f isec =
     bind (get_block f isec True) (\<lambda>(b, f).
     bind (read_block f b) (\<lambda>(_, f).
     bind (if word_at f b W_indirect \<noteq> NO_SECTOR then free_map_release f (word_at f b W_indirect) 1 else Ok f) (\<lambda>f.
     bind (if word_at f b W_double_indirect \<noteq> NO_SECTOR then
             bind (get_block f (word_at f b W_double_indirect) True) (\<lambda>(db, f).
             bind (read_block f db) (\<lambda>(_, f).
             bind (release_entries f db 0 NUM_INDIRECT) (\<lambda>f.
             bind (put_block f db) (\<lambda>f.
             free_map_release f (word_at f b W_double_indirect) 1))))
           else Ok f) (\<lambda>f.
     put_block f b))))"

definition inode_close :: "fs \<Rightarrow> nat option \<Rightarrow> fs outcome" where
  "inode_close f ino =
     (case ino of
        None \<Rightarrow> Ok f
      | Some k \<Rightarrow>
          let f = upd_inode k (\<lambda>i. i\<lparr>i_open_cnt := i_open_cnt i - 1\<rparr>) f in
          if i_open_cnt (inodes f k) = 0 then
            let f = f\<lparr>open_inodes := remove1 k (open_inodes f)\<rparr>; isec = i_sector (inodes f k)
            in if i_removed (inodes f k) then
                 bind (release_data f isec 0) (\<lambda>f.
                 bind (release_tables f isec) (\<lambda>f.
                 free_map_release f isec 1))
               else Ok f
          else Ok f)"

section \<open>Creating\<close>

text \<open>\<open>disk_inode->direct[i] = -1\<close> for \<open>n\<close> entries.\<close>

primrec clear_direct :: "nat \<Rightarrow> nat \<Rightarrow> fs \<Rightarrow> fs" where
  "clear_direct b 0 f = f"
| "clear_direct b (Suc i) f = set_word (clear_direct b i f) b (W_direct + i) NO_SECTOR"

definition format_inode :: "fs \<Rightarrow> nat \<Rightarrow> nat \<Rightarrow> bool \<Rightarrow> fs" where
  "format_inode f b len is_dir =
     (let f = clear_direct b NUM_DIRECT (zero_block f b);
          f = set_word f b W_indirect NO_SECTOR;
          f = set_word f b W_double_indirect NO_SECTOR;
          f = set_word f b W_length (of_nat len)
      in set_word f b W_is_dir (if is_dir then 1 else 0))"

definition inode_create :: "fs \<Rightarrow> u32 \<Rightarrow> nat \<Rightarrow> bool \<Rightarrow> (bool \<times> fs) outcome" where
  "inode_create f sector len is_dir =
     bind (get_block f sector True) (\<lambda>(b, f).
     bind (put_block (format_inode f b len is_dir) b) (\<lambda>f.
     if 0 < len then
       bind (inode_open f sector) (\<lambda>(ino, f).
       case ino of
         None \<Rightarrow> bind (inode_remove f None) (\<lambda>f. bind (inode_close f None) (\<lambda>f. Ok (False, f)))
       | Some k \<Rightarrow>
           bind (inode_write_at f k [0] (len - 1)) (\<lambda>(n, f).
           if n \<noteq> 1 then
             bind (inode_remove f (Some k)) (\<lambda>f. bind (inode_close f (Some k)) (\<lambda>f. Ok (False, f)))
           else bind (inode_close f (Some k)) (\<lambda>f. Ok (True, f))))
     else Ok (True, f)))"

end
