(* ===== verification/CString.thy ===== *)
theory CString
  imports Prelude
begin

text \<open>
  Blocks of memory and strings, \<open>lib/string.c\<close>.  Memory is an array of bytes, a pointer
  an address in it, and address 0 the null pointer; an access outside the array is a
  fault.  Every routine takes the memory and returns it if it stores to it.
\<close>

section \<open>Memory\<close>

type_synonym mem = "u8 list"

definition rd :: "mem \<Rightarrow> nat \<Rightarrow> u8 outcome" where
  "rd m p = (if p < length m then Ok (m ! p) else Panic)"

definition wr :: "mem \<Rightarrow> nat \<Rightarrow> u8 \<Rightarrow> mem outcome" where
  "wr m p x = (if p < length m then Ok (m[p := x]) else Panic)"

lemma rd_Ok [simp]: "rd m p = Ok x \<longleftrightarrow> p < length m \<and> m ! p = x"
  by (simp add: rd_def)

lemma wr_Ok [simp]: "wr m p x = Ok m' \<longleftrightarrow> p < length m \<and> m' = m[p := x]"
  by (auto simp: wr_def)

lemma rd_in [simp]: "p < length m \<Longrightarrow> rd m p = Ok (m ! p)"
  by simp

lemma wr_in [simp]: "p < length m \<Longrightarrow> wr m p x = Ok (m[p := x])"
  by simp

section \<open>Blocks\<close>

fun copy_up :: "mem \<Rightarrow> nat \<Rightarrow> nat \<Rightarrow> nat \<Rightarrow> mem outcome" where
  "copy_up m dst src 0 = Ok m"
| "copy_up m dst src (Suc sz) =
     bind (rd m src) (\<lambda>x. bind (wr m dst x) (\<lambda>m. copy_up m (dst + 1) (src + 1) sz))"

definition memcpy :: "mem \<Rightarrow> nat \<Rightarrow> nat \<Rightarrow> nat \<Rightarrow> (nat \<times> mem) outcome" where
  "memcpy m dst src sz =
     assert (dst \<noteq> 0 \<or> sz = 0) (assert (src \<noteq> 0 \<or> sz = 0)
     (bind (copy_up m dst src sz) (\<lambda>m. Ok (dst, m))))"

text \<open>\<open>while (sz-- > 0) *--dst = *--src\<close>, with the pointers behind the blocks.\<close>

fun copy_down :: "mem \<Rightarrow> nat \<Rightarrow> nat \<Rightarrow> nat \<Rightarrow> mem outcome" where
  "copy_down m dst src 0 = Ok m"
| "copy_down m dst src (Suc sz) =
     bind (rd m (src - 1)) (\<lambda>x. bind (wr m (dst - 1) x) (\<lambda>m. copy_down m (dst - 1) (src - 1) sz))"

definition memmove :: "mem \<Rightarrow> nat \<Rightarrow> nat \<Rightarrow> nat \<Rightarrow> (nat \<times> mem) outcome" where
  "memmove m dst src sz =
     assert (dst \<noteq> 0 \<or> sz = 0) (assert (src \<noteq> 0 \<or> sz = 0)
     (if dst < src then bind (copy_up m dst src sz) (\<lambda>m. Ok (dst + sz, m))
      else bind (copy_down m (dst + sz) (src + sz) sz) (\<lambda>m. Ok (dst, m))))"

fun memcmp_loop :: "mem \<Rightarrow> nat \<Rightarrow> nat \<Rightarrow> nat \<Rightarrow> int outcome" where
  "memcmp_loop m a b 0 = Ok 0"
| "memcmp_loop m a b (Suc sz) =
     bind (rd m a) (\<lambda>x. bind (rd m b) (\<lambda>y.
     if x \<noteq> y then Ok (if x > y then 1 else - 1) else memcmp_loop m (a + 1) (b + 1) sz))"

definition memcmp :: "mem \<Rightarrow> nat \<Rightarrow> nat \<Rightarrow> nat \<Rightarrow> int outcome" where
  "memcmp m a b sz =
     assert (a \<noteq> 0 \<or> sz = 0) (assert (b \<noteq> 0 \<or> sz = 0) (memcmp_loop m a b sz))"

fun memchr_loop :: "mem \<Rightarrow> nat \<Rightarrow> u8 \<Rightarrow> nat \<Rightarrow> nat outcome" where
  "memchr_loop m block ch 0 = Ok 0"
| "memchr_loop m block ch (Suc sz) =
     bind (rd m block) (\<lambda>x. if x = ch then Ok block else memchr_loop m (block + 1) ch sz)"

definition memchr :: "mem \<Rightarrow> nat \<Rightarrow> u8 \<Rightarrow> nat \<Rightarrow> nat outcome" where
  "memchr m block ch sz = assert (block \<noteq> 0 \<or> sz = 0) (memchr_loop m block ch sz)"

fun memset_loop :: "mem \<Rightarrow> nat \<Rightarrow> u8 \<Rightarrow> nat \<Rightarrow> mem outcome" where
  "memset_loop m dst value 0 = Ok m"
| "memset_loop m dst value (Suc sz) = bind (wr m dst value) (\<lambda>m. memset_loop m (dst + 1) value sz)"

definition memset :: "mem \<Rightarrow> nat \<Rightarrow> u8 \<Rightarrow> nat \<Rightarrow> (nat \<times> mem) outcome" where
  "memset m dst value sz =
     assert (dst \<noteq> 0 \<or> sz = 0) (bind (memset_loop m dst value sz) (\<lambda>m. Ok (dst, m)))"

section \<open>Strings\<close>

function strcmp_loop :: "mem \<Rightarrow> nat \<Rightarrow> nat \<Rightarrow> int outcome" where
  "strcmp_loop m a b =
     bind (rd m a) (\<lambda>x.
     if x \<noteq> 0 then
       bind (rd m b) (\<lambda>y.
       if x = y then strcmp_loop m (a + 1) (b + 1) else Ok (if x < y then - 1 else 1))
     else bind (rd m b) (\<lambda>y. Ok (if x < y then - 1 else if x > y then 1 else 0)))"
  by auto
termination by (relation "measure (\<lambda>(m, a, b). length m - a)") auto

definition strcmp :: "mem \<Rightarrow> nat \<Rightarrow> nat \<Rightarrow> int outcome" where
  "strcmp m a b = assert (a \<noteq> 0) (assert (b \<noteq> 0) (strcmp_loop m a b))"

text \<open>The null pointer is the result 0.\<close>

function strchr_loop :: "mem \<Rightarrow> nat \<Rightarrow> u8 \<Rightarrow> nat outcome" where
  "strchr_loop m string c =
     bind (rd m string) (\<lambda>x. if x = c then Ok string else if x = 0 then Ok 0 else strchr_loop m (string + 1) c)"
  by auto
termination by (relation "measure (\<lambda>(m, p, _). length m - p)") auto

definition strchr :: "mem \<Rightarrow> nat \<Rightarrow> u8 \<Rightarrow> nat outcome" where
  "strchr m string c = assert (string \<noteq> 0) (strchr_loop m string c)"

function strcspn_loop :: "mem \<Rightarrow> nat \<Rightarrow> nat \<Rightarrow> nat \<Rightarrow> nat outcome" where
  "strcspn_loop m string stop len =
     bind (rd m (string + len)) (\<lambda>x.
     if x = 0 then Ok len
     else bind (strchr m stop x) (\<lambda>r. if r \<noteq> 0 then Ok len else strcspn_loop m string stop (len + 1)))"
  by auto
termination by (relation "measure (\<lambda>(m, p, _, len). length m - (p + len))") auto

definition strcspn :: "mem \<Rightarrow> nat \<Rightarrow> nat \<Rightarrow> nat outcome" where
  "strcspn m string stop = strcspn_loop m string stop 0"

function strpbrk :: "mem \<Rightarrow> nat \<Rightarrow> nat \<Rightarrow> nat outcome" where
  "strpbrk m string stop =
     bind (rd m string) (\<lambda>x.
     if x = 0 then Ok 0
     else bind (strchr m stop x) (\<lambda>r. if r \<noteq> 0 then Ok string else strpbrk m (string + 1) stop))"
  by auto
termination by (relation "measure (\<lambda>(m, p, _). length m - p)") auto

function strrchr_loop :: "mem \<Rightarrow> nat \<Rightarrow> u8 \<Rightarrow> nat \<Rightarrow> nat outcome" where
  "strrchr_loop m string c p =
     bind (rd m string) (\<lambda>x.
     if x = 0 then Ok p else strrchr_loop m (string + 1) c (if x = c then string else p))"
  by auto
termination by (relation "measure (\<lambda>(m, p, _, _). length m - p)") auto

definition strrchr :: "mem \<Rightarrow> nat \<Rightarrow> u8 \<Rightarrow> nat outcome" where
  "strrchr m string c = strrchr_loop m string c 0"

function strspn_loop :: "mem \<Rightarrow> nat \<Rightarrow> nat \<Rightarrow> nat \<Rightarrow> nat outcome" where
  "strspn_loop m string skip len =
     bind (rd m (string + len)) (\<lambda>x.
     if x = 0 then Ok len
     else bind (strchr m skip x) (\<lambda>r. if r = 0 then Ok len else strspn_loop m string skip (len + 1)))"
  by auto
termination by (relation "measure (\<lambda>(m, p, _, len). length m - (p + len))") auto

definition strspn :: "mem \<Rightarrow> nat \<Rightarrow> nat \<Rightarrow> nat outcome" where
  "strspn m string skip = strspn_loop m string skip 0"

function strlen_loop :: "mem \<Rightarrow> nat \<Rightarrow> nat outcome" where
  "strlen_loop m p = bind (rd m p) (\<lambda>x. if x = 0 then Ok p else strlen_loop m (p + 1))"
  by auto
termination by (relation "measure (\<lambda>(m, p). length m - p)") auto

definition strlen :: "mem \<Rightarrow> nat \<Rightarrow> nat outcome" where
  "strlen m string = assert (string \<noteq> 0) (bind (strlen_loop m string) (\<lambda>p. Ok (p - string)))"

function strnlen_loop :: "mem \<Rightarrow> nat \<Rightarrow> nat \<Rightarrow> nat \<Rightarrow> nat outcome" where
  "strnlen_loop m string maxlen len =
     bind (rd m (string + len)) (\<lambda>x. if x \<noteq> 0 \<and> len < maxlen then strnlen_loop m string maxlen (len + 1) else Ok len)"
  by auto
termination by (relation "measure (\<lambda>(_, _, maxlen, len). maxlen - len)") auto

definition strnlen :: "mem \<Rightarrow> nat \<Rightarrow> nat \<Rightarrow> nat outcome" where
  "strnlen m string maxlen = strnlen_loop m string maxlen 0"

text \<open>The loop of \<open>strstr\<close>: \<open>n\<close> starting points from \<open>i\<close> on.\<close>

fun strstr_loop :: "mem \<Rightarrow> nat \<Rightarrow> nat \<Rightarrow> nat \<Rightarrow> nat \<Rightarrow> nat \<Rightarrow> nat outcome" where
  "strstr_loop m haystack needle needle_len i 0 = Ok 0"
| "strstr_loop m haystack needle needle_len i (Suc n) =
     bind (memcmp m (haystack + i) needle needle_len) (\<lambda>c.
     if c = 0 then Ok (haystack + i) else strstr_loop m haystack needle needle_len (i + 1) n)"

definition strstr :: "mem \<Rightarrow> nat \<Rightarrow> nat \<Rightarrow> nat outcome" where
  "strstr m haystack needle =
     bind (strlen m haystack) (\<lambda>haystack_len.
     bind (strlen m needle) (\<lambda>needle_len.
     if needle_len \<le> haystack_len
     then strstr_loop m haystack needle needle_len 0 (haystack_len - needle_len + 1)
     else Ok 0))"

text \<open>The two loops of \<open>strtok_r\<close>; \<open>None\<close> when the end of the string comes first.\<close>

function skip_delimiters :: "mem \<Rightarrow> nat \<Rightarrow> nat \<Rightarrow> (nat \<times> bool) outcome" where
  "skip_delimiters m delimiters s =
     bind (rd m s) (\<lambda>x.
     bind (strchr m delimiters x) (\<lambda>r.
     if r \<noteq> 0 then if x = 0 then Ok (s, True) else skip_delimiters m delimiters (s + 1)
     else Ok (s, False)))"
  by auto
termination by (relation "measure (\<lambda>(m, _, s). length m - s)") auto

function skip_token :: "mem \<Rightarrow> nat \<Rightarrow> nat \<Rightarrow> nat outcome" where
  "skip_token m delimiters s =
     bind (rd m s) (\<lambda>x.
     bind (strchr m delimiters x) (\<lambda>r. if r = 0 then skip_token m delimiters (s + 1) else Ok s))"
  by auto
termination by (relation "measure (\<lambda>(m, _, s). length m - s)") auto

text \<open>The result is the token, the new value of \<open>*save_ptr\<close> and the memory.\<close>

definition strtok_r :: "mem \<Rightarrow> nat \<Rightarrow> nat \<Rightarrow> nat \<Rightarrow> (nat \<times> nat \<times> mem) outcome" where
  "strtok_r m s delimiters save_ptr =
     assert (delimiters \<noteq> 0)
     (let s = (if s = 0 then save_ptr else s) in
      assert (s \<noteq> 0)
      (bind (skip_delimiters m delimiters s) (\<lambda>(s, end).
       if end then Ok (0, s, m)
       else
         bind (skip_token m delimiters s) (\<lambda>e.
         bind (rd m e) (\<lambda>x.
         if x \<noteq> 0 then bind (wr m e 0) (\<lambda>m. Ok (s, e + 1, m)) else Ok (s, e, m))))))"

definition strlcpy :: "mem \<Rightarrow> nat \<Rightarrow> nat \<Rightarrow> nat \<Rightarrow> (nat \<times> mem) outcome" where
  "strlcpy m dst src sz =
     assert (dst \<noteq> 0) (assert (src \<noteq> 0)
     (bind (strlen m src) (\<lambda>src_len.
      if 0 < sz then
        let dst_len = (if src_len < sz - 1 then src_len else sz - 1) in
        bind (memcpy m dst src dst_len) (\<lambda>(_, m).
        bind (wr m (dst + dst_len) 0) (\<lambda>m. Ok (src_len, m)))
      else Ok (src_len, m))))"

definition strlcat :: "mem \<Rightarrow> nat \<Rightarrow> nat \<Rightarrow> nat \<Rightarrow> (nat \<times> mem) outcome" where
  "strlcat m dst src sz =
     assert (dst \<noteq> 0) (assert (src \<noteq> 0)
     (bind (strlen m src) (\<lambda>src_len.
      bind (strlen m dst) (\<lambda>dst_len.
      if 0 < sz \<and> dst_len < sz then
        let copy_cnt = (if src_len < sz - dst_len - 1 then src_len else sz - dst_len - 1) in
        bind (memcpy m (dst + dst_len) src copy_cnt) (\<lambda>(_, m).
        bind (wr m (dst + dst_len + copy_cnt) 0) (\<lambda>m. Ok (src_len + dst_len, m)))
      else Ok (src_len + dst_len, m)))))"

declare strcmp_loop.simps [simp del] strchr_loop.simps [simp del] strcspn_loop.simps [simp del]
  strpbrk.simps [simp del] strrchr_loop.simps [simp del] strspn_loop.simps [simp del] strlen_loop.simps [simp del]
  strnlen_loop.simps [simp del] skip_delimiters.simps [simp del] skip_token.simps [simp del]

section \<open>Blocks: what the routines do\<close>

text \<open>Block \<open>dst\<close> now holds what block \<open>src\<close> held before, and nothing else changed.\<close>

definition moved :: "mem \<Rightarrow> nat \<Rightarrow> nat \<Rightarrow> nat \<Rightarrow> mem \<Rightarrow> bool" where
  "moved m dst src n m' \<longleftrightarrow> length m' = length m
     \<and> (\<forall>i<length m. m' ! i = (if dst \<le> i \<and> i < dst + n then m ! (src + (i - dst)) else m ! i))"

lemma movedI:
  assumes "length m' = length m" "\<And>i. i < length m \<Longrightarrow> dst \<le> i \<Longrightarrow> i < dst + n \<Longrightarrow> m' ! i = m ! (src + (i - dst))"
    "\<And>i. i < length m \<Longrightarrow> i < dst \<or> dst + n \<le> i \<Longrightarrow> m' ! i = m ! i"
  shows "moved m dst src n m'"
  using assms by (auto simp: moved_def)

lemma copy_up_spec:
  assumes "dst + n \<le> length m" "src + n \<le> length m" "dst \<le> src \<or> src + n \<le> dst"
  shows "\<exists>m'. copy_up m dst src n = Ok m' \<and> moved m dst src n m'"
  using assms
proof (induction n arbitrary: m dst src)
  case (Suc n)
  let ?m = "m[dst := m ! src]"
  have h: "dst + 1 + n \<le> length ?m" "src + 1 + n \<le> length ?m" "dst + 1 \<le> src + 1 \<or> src + 1 + n \<le> dst + 1"
    using Suc.prems by auto
  from Suc.IH [OF h] obtain m' where m': "copy_up ?m (dst + 1) (src + 1) n = Ok m'" "moved ?m (dst + 1) (src + 1) n m'" by blast
  have "moved m dst src (Suc n) m'"
  proof (rule movedI)
    show "length m' = length m" using m'(2) by (simp add: moved_def)
    show "m' ! i = m ! i" if "i < length m" "i < dst \<or> dst + Suc n \<le> i" for i
      using m'(2) that by (auto simp: moved_def)
    show "m' ! i = m ! (src + (i - dst))" if "i < length m" "dst \<le> i" "i < dst + Suc n" for i
    proof (cases "i = dst")
      case True
      with m'(2) that show ?thesis by (simp add: moved_def)
    next
      case False
      then have e: "src + 1 + (i - (dst + 1)) = src + (i - dst)" using that by simp
      have "m' ! i = ?m ! (src + 1 + (i - (dst + 1)))" using False m'(2) that by (auto simp: moved_def)
      moreover have "src + (i - dst) \<noteq> dst" using False that Suc.prems by auto
      ultimately show ?thesis unfolding e by simp
    qed
  qed
  with m'(1) Suc.prems show ?case by simp
qed (auto simp: moved_def)

lemma copy_down_spec:
  assumes "dst + n \<le> length m" "src + n \<le> length m" "src \<le> dst"
  shows "\<exists>m'. copy_down m (dst + n) (src + n) n = Ok m' \<and> moved m dst src n m'"
  using assms
proof (induction n arbitrary: m)
  case (Suc n)
  let ?m = "m[dst + n := m ! (src + n)]"
  have h: "dst + n \<le> length ?m" "src + n \<le> length ?m" "src \<le> dst" using Suc.prems by auto
  from Suc.IH [OF h] obtain m' where m': "copy_down ?m (dst + n) (src + n) n = Ok m'" "moved ?m dst src n m'" by blast
  have "moved m dst src (Suc n) m'"
  proof (rule movedI)
    show "length m' = length m" using m'(2) by (simp add: moved_def)
    show "m' ! i = m ! i" if "i < length m" "i < dst \<or> dst + Suc n \<le> i" for i
      using m'(2) that by (auto simp: moved_def)
    show "m' ! i = m ! (src + (i - dst))" if "i < length m" "dst \<le> i" "i < dst + Suc n" for i
    proof (cases "i = dst + n")
      case True
      with m'(2) that show ?thesis by (simp add: moved_def)
    next
      case False
      then have "m' ! i = ?m ! (src + (i - dst))" using m'(2) that by (auto simp: moved_def)
      moreover have "src + (i - dst) \<noteq> dst + n" using False that Suc.prems(3) by auto
      ultimately show ?thesis by simp
    qed
  qed
  with m'(1) Suc.prems show ?case by simp
qed (auto simp: moved_def)

lemma memset_loop_spec:
  assumes "dst + n \<le> length m"
  shows "\<exists>m'. memset_loop m dst v n = Ok m' \<and> length m' = length m
    \<and> (\<forall>i<length m. m' ! i = (if dst \<le> i \<and> i < dst + n then v else m ! i))"
  using assms
proof (induction n arbitrary: m dst)
  case (Suc n)
  then obtain m' where m': "memset_loop (m[dst := v]) (dst + 1) v n = Ok m'" "length m' = length m"
      "\<forall>i<length m. m' ! i = (if dst + 1 \<le> i \<and> i < dst + 1 + n then v else m[dst := v] ! i)"
    by (metis (no_types, lifting) Suc_eq_plus1 add_Suc_right add_Suc_shift length_list_update)
  with Suc.prems show ?case by (auto simp: nth_list_update)
qed auto

lemma memchr_loop_spec:
  assumes "p + n \<le> length m" "p \<noteq> 0"
  shows "\<exists>r. memchr_loop m p c n = Ok r
    \<and> (if r = 0 then \<forall>i. p \<le> i \<and> i < p + n \<longrightarrow> m ! i \<noteq> c
       else p \<le> r \<and> r < p + n \<and> m ! r = c \<and> (\<forall>i. p \<le> i \<and> i < r \<longrightarrow> m ! i \<noteq> c))"
  using assms
proof (induction n arbitrary: p)
  case (Suc n)
  show ?case
  proof (cases "m ! p = c")
    case False
    with Suc.IH [of "p + 1"] Suc.prems obtain r where r: "memchr_loop m (p + 1) c n = Ok r"
        "if r = 0 then \<forall>i. p + 1 \<le> i \<and> i < p + 1 + n \<longrightarrow> m ! i \<noteq> c
         else p + 1 \<le> r \<and> r < p + 1 + n \<and> m ! r = c \<and> (\<forall>i. p + 1 \<le> i \<and> i < r \<longrightarrow> m ! i \<noteq> c)" by auto
    have split: "p \<le> i \<longleftrightarrow> i = p \<or> p + 1 \<le> i" for i by auto
    from r(2) False have "if r = 0 then \<forall>i. p \<le> i \<and> i < p + Suc n \<longrightarrow> m ! i \<noteq> c
       else p \<le> r \<and> r < p + Suc n \<and> m ! r = c \<and> (\<forall>i. p \<le> i \<and> i < r \<longrightarrow> m ! i \<noteq> c)"
      unfolding split by (auto split: if_splits)
    with r(1) False Suc.prems show ?thesis by auto
  qed (use Suc.prems in auto)
qed auto

lemma memcmp_loop_spec:
  assumes "a + n \<le> length m" "b + n \<le> length m"
  shows "\<exists>r. memcmp_loop m a b n = Ok r
    \<and> (r = 0 \<longleftrightarrow> (\<forall>i<n. m ! (a + i) = m ! (b + i)))
    \<and> (r \<noteq> 0 \<longrightarrow> (\<exists>k<n. (\<forall>i<k. m ! (a + i) = m ! (b + i)) \<and> (if r > 0 then m ! (a + k) > m ! (b + k) else m ! (a + k) < m ! (b + k))))"
  using assms
proof (induction n arbitrary: a b)
  case (Suc n)
  show ?case
  proof (cases "m ! a = m ! b")
    case True
    have h: "a + 1 + n \<le> length m" "b + 1 + n \<le> length m" using Suc.prems by simp_all
    from Suc.IH [OF h] obtain r where r: "memcmp_loop m (a + 1) (b + 1) n = Ok r"
        "r = 0 \<longleftrightarrow> (\<forall>i<n. m ! (a + 1 + i) = m ! (b + 1 + i))"
        "r \<noteq> 0 \<longrightarrow> (\<exists>k<n. (\<forall>i<k. m ! (a + 1 + i) = m ! (b + 1 + i)) \<and>
           (if r > 0 then m ! (a + 1 + k) > m ! (b + 1 + k) else m ! (a + 1 + k) < m ! (b + 1 + k)))" by blast
    have "r = 0 \<longleftrightarrow> (\<forall>i<Suc n. m ! (a + i) = m ! (b + i))"
      using r(2) True by (auto simp: less_Suc_eq_0_disj)
    moreover have "\<exists>k<Suc n. (\<forall>i<k. m ! (a + i) = m ! (b + i)) \<and>
        (if r > 0 then m ! (a + k) > m ! (b + k) else m ! (a + k) < m ! (b + k))" if "r \<noteq> 0"
    proof -
      from r(3) that obtain k where "k < n" "\<forall>i<k. m ! (a + 1 + i) = m ! (b + 1 + i)"
          "if r > 0 then m ! (a + 1 + k) > m ! (b + 1 + k) else m ! (a + 1 + k) < m ! (b + 1 + k)" by blast
      with True show ?thesis by (intro exI [of _ "Suc k"]) (auto simp: less_Suc_eq_0_disj)
    qed
    ultimately show ?thesis using r(1) True Suc.prems by auto
  next
    case False
    with Suc.prems show ?thesis by (auto intro!: exI [of _ 0])
  qed
qed auto

section \<open>Strings: what the routines do\<close>

text \<open>The string \<open>s\<close> is at \<open>p\<close>, with its terminator.\<close>

fun str_at :: "mem \<Rightarrow> nat \<Rightarrow> u8 list \<Rightarrow> bool" where
  "str_at m p [] \<longleftrightarrow> p < length m \<and> m ! p = 0"
| "str_at m p (c # s) \<longleftrightarrow> p < length m \<and> m ! p = c \<and> c \<noteq> 0 \<and> str_at m (p + 1) s"

lemma str_at_nth:
  assumes "str_at m p s"
  shows "p + length s < length m" "i < length s \<Longrightarrow> m ! (p + i) = s ! i" "m ! (p + length s) = 0" "0 \<notin> set s"
proof -
  have "p + length s < length m \<and> (\<forall>i<length s. m ! (p + i) = s ! i) \<and> m ! (p + length s) = 0 \<and> 0 \<notin> set s"
    using assms
  proof (induction s arbitrary: p)
    case (Cons c s)
    then have "str_at m (p + 1) s" by simp
    from Cons.IH [OF this]
    have "p + 1 + length s < length m \<and> (\<forall>i<length s. m ! (p + 1 + i) = s ! i) \<and> m ! (p + 1 + length s) = 0 \<and> 0 \<notin> set s" .
    with Cons.prems show ?case by (auto simp: less_Suc_eq_0_disj)
  qed simp
  then show "p + length s < length m" "i < length s \<Longrightarrow> m ! (p + i) = s ! i" "m ! (p + length s) = 0" "0 \<notin> set s"
    by auto
qed

lemma str_atI:
  assumes "p + length s < length m" "\<And>i. i < length s \<Longrightarrow> m ! (p + i) = s ! i" "m ! (p + length s) = 0" "0 \<notin> set s"
  shows "str_at m p s"
  using assms
proof (induction s arbitrary: p)
  case (Cons c s)
  have "str_at m (p + 1) s" using Cons.prems(1,3,4) Cons.prems(2) [of "Suc _"] by (intro Cons.IH) auto
  with Cons.prems(2) [of 0] Cons.prems(1,4) show ?case by auto
qed simp

lemma str_at_unique: "str_at m p s \<Longrightarrow> str_at m p t \<Longrightarrow> s = t"
proof (induction s arbitrary: p t)
  case Nil
  then show ?case by (cases t) auto
next
  case (Cons c s)
  then show ?case by (cases t) auto
qed

lemma str_at_drop: "str_at m p s \<Longrightarrow> k \<le> length s \<Longrightarrow> str_at m (p + k) (drop k s)"
proof (induction k arbitrary: p s)
  case (Suc k)
  show ?case
  proof (cases s)
    case (Cons c t)
    with Suc.prems Suc.IH [of "p + 1" t] show ?thesis by simp
  qed (use Suc.prems in simp)
qed simp

lemma strlen_loop_spec: "str_at m p s \<Longrightarrow> strlen_loop m p = Ok (p + length s)"
proof (induction s arbitrary: p)
  case (Cons c s)
  then show ?case using Cons.IH [of "p + 1"] by (subst strlen_loop.simps) simp
qed (subst strlen_loop.simps; simp)

lemma strlen_spec: "str_at m p s \<Longrightarrow> p \<noteq> 0 \<Longrightarrow> strlen m p = Ok (length s)"
  by (simp add: strlen_def strlen_loop_spec)

lemma strchr_spec:
  assumes "str_at m p s" "p \<noteq> 0"
  shows "strchr m p c = Ok (if c \<in> set s \<or> c = 0 then p + length (takeWhile (\<lambda>x. x \<noteq> c) s) else 0)"
proof -
  have "strchr_loop m p c = Ok (if c \<in> set s \<or> c = 0 then p + length (takeWhile (\<lambda>x. x \<noteq> c) s) else 0)"
    using assms(1)
  proof (induction s arbitrary: p)
    case (Cons x s)
    then show ?case using Cons.IH [of "p + 1"] by (subst strchr_loop.simps) auto
  qed (subst strchr_loop.simps; simp)
  then show ?thesis using assms(2) by (simp add: strchr_def)
qed

lemma takeWhile_lt: "c \<in> set xs \<Longrightarrow> length (takeWhile (\<lambda>x. x \<noteq> c) xs) < length xs"
  by (induction xs) auto

lemma strrchr_loop_spec:
  assumes "str_at m p s"
  shows "strrchr_loop m p c q = Ok (if c \<in> set s then p + (length s - 1 - length (takeWhile (\<lambda>x. x \<noteq> c) (rev s))) else q)"
  using assms
proof (induction s arbitrary: p q)
  case (Cons x s)
  have l: "length (takeWhile (\<lambda>x. x \<noteq> c) (rev s @ [x])) =
      (if c \<in> set s then length (takeWhile (\<lambda>x. x \<noteq> c) (rev s)) else length s + (if x = c then 0 else 1))"
    by (auto simp: takeWhile_append)
  have "length (takeWhile (\<lambda>x. x \<noteq> c) (rev s)) < length s" if "c \<in> set s"
    using takeWhile_lt [of c "rev s"] that by simp
  with Cons.prems Cons.IH [of "p + 1"] show ?case by (subst strrchr_loop.simps) (auto simp: l)
qed (subst strrchr_loop.simps; simp)

text \<open>Comparison of strings as lists.\<close>

fun compare :: "u8 list \<Rightarrow> u8 list \<Rightarrow> int" where
  "compare [] [] = 0"
| "compare [] (y # ys) = - 1"
| "compare (x # xs) [] = 1"
| "compare (x # xs) (y # ys) = (if x = y then compare xs ys else if x < y then - 1 else 1)"

lemma compare_lex:
  "compare s t = 0 \<longleftrightarrow> s = t" "compare s t < 0 \<longleftrightarrow> (s, t) \<in> lexord {(x, y). x < y}" "compare t s = - compare s t"
  by (induction s t rule: compare.induct) auto

lemma strcmp_loop_spec:
  assumes "str_at m a s" "str_at m b t"
  shows "strcmp_loop m a b = Ok (compare s t)"
  using assms
proof (induction s t arbitrary: a b rule: compare.induct)
  case 1
  then show ?case by (subst strcmp_loop.simps) simp
next
  case (2 y ys)
  then show ?case by (subst strcmp_loop.simps) (auto simp: word_gt_0)
next
  case (3 x xs)
  then show ?case by (subst strcmp_loop.simps) (auto simp: word_gt_0)
next
  case (4 x xs y ys)
  then show ?case using "4.IH" [of "a + 1" "b + 1"] by (subst strcmp_loop.simps) auto
qed

section \<open>Tokens\<close>

lemma skip_delimiters_spec:
  assumes "str_at m p s" "str_at m d ds" "d \<noteq> 0"
  shows "skip_delimiters m d p =
    Ok (p + length (takeWhile (\<lambda>x. x \<in> set ds) s), dropWhile (\<lambda>x. x \<in> set ds) s = [])"
  using assms(1)
proof (induction s arbitrary: p)
  case Nil
  then show ?case using assms(3) by (subst skip_delimiters.simps) (simp add: strchr_spec [OF assms(2,3)])
next
  case (Cons x s)
  then show ?case using Cons.IH [of "p + 1"] assms(3)
    by (subst skip_delimiters.simps) (auto simp: strchr_spec [OF assms(2,3)])
qed

lemma skip_token_spec:
  assumes "str_at m p s" "str_at m d ds" "d \<noteq> 0"
  shows "skip_token m d p = Ok (p + length (takeWhile (\<lambda>x. x \<notin> set ds) s))"
  using assms(1)
proof (induction s arbitrary: p)
  case Nil
  then show ?case using assms(3) by (subst skip_token.simps) (simp add: strchr_spec [OF assms(2,3)])
next
  case (Cons x s)
  then show ?case using Cons.IH [of "p + 1"] assms(3)
    by (subst skip_token.simps) (auto simp: strchr_spec [OF assms(2,3)])
qed

lemma str_at_cut:
  assumes "str_at m p s" "k < length s"
  shows "str_at (m[p + k := 0]) p (take k s)" "str_at (m[p + k := 0]) (p + k + 1) (drop (k + 1) s)"
proof -
  note n = str_at_nth [OF assms(1)]
  show "str_at (m[p + k := 0]) p (take k s)"
    using n assms(2) by (intro str_atI) (auto dest: in_set_takeD)
  have "m[p + k := 0] ! (p + k + 1 + i) = s ! (k + 1 + i)" if "i < length s - (k + 1)" for i
    using n(2) [of "k + 1 + i"] that by (simp add: add.assoc)
  moreover have e: "p + k + 1 + length (drop (k + 1) s) = p + length s" using assms(2) by simp
  ultimately show "str_at (m[p + k := 0]) (p + k + 1) (drop (k + 1) s)"
    using n(1,3,4) assms(2) by (intro str_atI, unfold e) (auto dest: in_set_dropD)
qed

lemma str_at_frame:
  assumes "str_at m p s" "length m' = length m" "\<And>i. p \<le> i \<Longrightarrow> i \<le> p + length s \<Longrightarrow> m' ! i = m ! i"
  shows "str_at m' p s"
  using str_at_nth [OF assms(1)] assms(2,3) by (intro str_atI) auto

section \<open>Properties\<close>

text \<open>
  C23: \<open>memmove\<close> moves a block correctly however the two blocks overlap: the destination
  holds what the source held before the call, and nothing else changes.  The pointer it
  returns is the destination only when it copies downwards; when it copies upwards it is
  the end of the destination.
\<close>

theorem memmove_overlap:
  assumes "dst + n \<le> length m" "src + n \<le> length m" "dst \<noteq> 0" "src \<noteq> 0"
  shows "\<exists>m'. memmove m dst src n = Ok (if dst < src then dst + n else dst, m') \<and> moved m dst src n m'"
proof (cases "dst < src")
  case True
  with copy_up_spec [OF assms(1,2)] assms(3,4) show ?thesis by (auto simp: memmove_def)
next
  case False
  with copy_down_spec [OF assms(1,2)] assms(3,4) show ?thesis by (auto simp: memmove_def)
qed

theorem memmove_overlap_witness:
  "\<exists>m'. memmove [0, 1, 2, 3, 4, 5] 1 2 3 = Ok (4, m') \<and> moved [0, 1, 2, 3, 4, 5] 1 2 3 m'"
  using memmove_overlap [of 1 3 "[0, 1, 2, 3, 4, 5]" 2] by simp



text \<open>
  C25: \<open>strcmp\<close> is a three-way comparison in the lexicographic order of unsigned bytes:
  zero exactly on equal strings, negative exactly when the first comes before the
  second, and antisymmetric.
\<close>

theorem strcmp_lexicographic:
  assumes "str_at m a s" "str_at m b t" "a \<noteq> 0" "b \<noteq> 0"
  shows "\<exists>r. strcmp m a b = Ok r \<and> strcmp m b a = Ok (- r)
    \<and> (r = 0 \<longleftrightarrow> s = t) \<and> (r < 0 \<longleftrightarrow> (s, t) \<in> lexord {(x, y). x < y})"
  using assms compare_lex [of s t] strcmp_loop_spec [OF assms(1,2)] strcmp_loop_spec [OF assms(2,1)]
  by (auto simp: strcmp_def)

theorem strcmp_lexicographic_witness:
  "\<exists>r. strcmp [0, 65, 66, 0, 200, 0] 1 4 = Ok r \<and> strcmp [0, 65, 66, 0, 200, 0] 4 1 = Ok (- r) \<and> r < 0"
  using strcmp_lexicographic [of "[0, 65, 66, 0, 200, 0]" 1 "[65, 66]" 4 "[200]"] by auto

text \<open>
  C26: one call of \<open>strtok_r\<close>, the first on a string or a later one on what is left.
  Leading delimiters are skipped.  If nothing remains the result is null.  Otherwise it
  is a non-empty token without delimiters, terminated in place; the saved position has
  the rest of the string behind the token; and no byte outside the string changes.
\<close>

theorem strtok_r_token:
  assumes "str_at m p s" "p \<noteq> 0" "str_at m d ds" "d \<noteq> 0" "d + length ds < p \<or> p + length s < d"
    and "a = p \<or> a = 0 \<and> saved = p"
  defines "rest \<equiv> dropWhile (\<lambda>x. x \<in> set ds) s" and "q \<equiv> p + length (takeWhile (\<lambda>x. x \<in> set ds) s)"
  defines "tok \<equiv> takeWhile (\<lambda>x. x \<notin> set ds) rest"
  shows "if rest = [] then strtok_r m a d saved = Ok (0, q, m)
    else \<exists>e m'. strtok_r m a d saved = Ok (q, e, m') \<and> tok \<noteq> [] \<and> str_at m' q tok
      \<and> str_at m' e (drop (length tok + 1) rest) \<and> str_at m' d ds
      \<and> length m' = length m \<and> (\<forall>i. i < p \<or> p + length s \<le> i \<longrightarrow> m' ! i = m ! i)"
proof -
  let ?P = "\<lambda>x. x \<in> set ds"
  have s: "s = takeWhile ?P s @ rest" by (simp add: rest_def)
  then have ls: "length s = length (takeWhile ?P s) + length rest" by (metis length_append)
  have at: "str_at m q rest"
  proof -
    have "drop (length (takeWhile ?P s)) s = rest" using s by (metis append_eq_conv_conj)
    with str_at_drop [OF assms(1), of "length (takeWhile ?P s)"] ls show ?thesis by (simp add: q_def)
  qed
  have a: "(if a = 0 then saved else a) = p" using assms(2,6) by auto
  note skip = skip_delimiters_spec [OF assms(1,3,4), folded rest_def q_def]
  show ?thesis
  proof (cases "rest = []")
    case True
    with skip a assms(2,4) show ?thesis by (simp add: strtok_r_def Let_def)
  next
    case False
    note n = str_at_nth [OF at]
    note st = skip_token_spec [OF at assms(3,4), folded tok_def]
    have "\<not> ?P (hd rest)" using False hd_dropWhile [of ?P s] by (simp add: rest_def)
    then have ne: "tok \<noteq> []" using False by (cases rest) (auto simp: tok_def)
    have tk: "tok = take (length tok) rest" unfolding tok_def by (rule takeWhile_eq_take)
    have le: "length tok \<le> length rest" by (simp add: tok_def length_takeWhile_le)
    show ?thesis
    proof (cases "length tok = length rest")
      case True
      then have tr: "tok = rest" using tk by simp
      have "strtok_r m a d saved = Ok (q, q + length tok, m)"
        using False skip st a assms(2,4) n(1,3) True by (simp add: strtok_r_def Let_def)
      moreover have "str_at m (q + length tok) (drop (length tok + 1) rest)" using n(1,3) True by simp
      ultimately show ?thesis using False ne at assms(3) tr by auto
    next
      case lt: False
      then have k: "length tok < length rest" using le by simp
      let ?m = "m[q + length tok := 0]"
      have x: "m ! (q + length tok) \<noteq> 0" using n(2) [OF k] n(4) k by (metis nth_mem)
      note c = str_at_cut [OF at k]
      have loc: "p \<le> q + length tok" "q + length tok < p + length s" using k ls by (auto simp: q_def)
      have "str_at ?m d ds" using assms(5) loc by (intro str_at_frame [OF assms(3)]) auto
      moreover have "strtok_r m a d saved = Ok (q, q + length tok + 1, ?m)"
        using False skip st a assms(2,4) n(1) k x by (simp add: strtok_r_def Let_def)
      moreover have "?m ! i = m ! i" if "i < p \<or> p + length s \<le> i" for i using loc that by auto
      moreover have "str_at ?m q tok" using c(1) tk by simp
      ultimately show ?thesis using c(2) False ne by auto
    qed
  qed
qed

theorem strtok_r_token_witness:
  "\<exists>e m'. strtok_r [0, 47, 0, 47, 97, 98, 47, 99, 0] 3 1 0 = Ok (4, e, m') \<and> str_at m' 4 [97, 98] \<and> str_at m' e [99]"
  using strtok_r_token [of "[0, 47, 0, 47, 97, 98, 47, 99, 0]" 3 "[47, 97, 98, 47, 99]" 1 "[47]" 3 0] by simp blast

end
