(* ===== verification/Directory.thy ===== *)
theory Directory
  imports InodeTable CString
begin

text \<open>
  Directories, \<open>filesys/directory.c\<close>: files of 20-byte entries, and the walk along a
  path.  An open directory is the inode and the position in it; the null pointer is
  \<open>None\<close>.  What the current thread contributes, its error number and its working
  directory, is in the record \<open>proc\<close> beside the file system.
\<close>

section \<open>The data\<close>

definition NAME_MAX :: nat where
  "NAME_MAX = 14"

record dir =
  d_inode :: nat
  d_pos :: nat

record proc =
  p_fs :: fs
  p_errno :: int
  p_current_dir :: "dir option"

definition upd_fs :: "proc \<Rightarrow> fs \<Rightarrow> proc" where
  "upd_fs p f = p\<lparr>p_fs := f\<rparr>"

definition ENAME :: int where
  "ENAME = 126"

text \<open>
  An entry in memory: the sector in bytes 0 to 3, the name in 4 to 18, \<open>in_use\<close> in 19.
\<close>

definition ENTRY_SIZE :: nat where
  "ENTRY_SIZE = 20"

definition e_sector :: "bytes \<Rightarrow> u32" where
  "e_sector e = ld32 e 0"

text \<open>The name up to its terminator, as \<open>strcmp\<close> reads it.\<close>

definition e_name :: "bytes \<Rightarrow> bytes" where
  "e_name e = takeWhile (\<lambda>c. c \<noteq> 0) (drop 4 e)"

definition e_in_use :: "bytes \<Rightarrow> bool" where
  "e_in_use e \<longleftrightarrow> e ! 19 \<noteq> 0"

text \<open>\<open>e.in_use = true; strlcpy (e.name, name, sizeof e.name); e.inode_sector = sector\<close>.\<close>

definition fill_entry :: "bytes \<Rightarrow> bytes \<Rightarrow> u32 \<Rightarrow> bytes" where
  "fill_entry e name sector = st32 (patch (e[19 := 1]) 4 (take NAME_MAX name @ [0])) 0 sector"

section \<open>Opening and closing\<close>

definition isec :: "fs \<Rightarrow> nat \<Rightarrow> u32" where
  "isec f ino = i_sector (inodes f ino)"

definition dir_create :: "fs \<Rightarrow> u32 \<Rightarrow> nat \<Rightarrow> (bool \<times> fs) outcome" where
  "dir_create f sector entry_cnt = inode_create f sector (entry_cnt * ENTRY_SIZE) True"

definition dir_open :: "fs \<Rightarrow> nat option \<Rightarrow> (dir option \<times> fs) outcome" where
  "dir_open f ino =
     (let got = heap f \<noteq> 0; f = f\<lparr>heap := heap f - 1\<rparr> in
      case ino of
        Some k \<Rightarrow> if got then Ok (Some \<lparr>d_inode = k, d_pos = 0\<rparr>, f)
                 else bind (inode_close f ino) (\<lambda>f. Ok (None, f))
      | None \<Rightarrow> bind (inode_close f ino) (\<lambda>f. Ok (None, f)))"

definition dir_open_root :: "fs \<Rightarrow> (dir option \<times> fs) outcome" where
  "dir_open_root f = bind (inode_open f ROOT_DIR_SECTOR) (\<lambda>(ino, f). dir_open f ino)"

definition dir_reopen :: "fs \<Rightarrow> dir \<Rightarrow> (dir option \<times> fs) outcome" where
  "dir_reopen f dir = (let (ino, f) = inode_reopen f (Some (d_inode dir)) in dir_open f ino)"

definition dir_close :: "fs \<Rightarrow> dir option \<Rightarrow> fs outcome" where
  "dir_close f dir = (case dir of None \<Rightarrow> Ok f | Some d \<Rightarrow> inode_close f (Some (d_inode d)))"

definition dir_get_inode :: "dir \<Rightarrow> nat" where
  "dir_get_inode dir = d_inode dir"

section \<open>Entries\<close>

lemma inode_read_bound:
  assumes "inode_read_at f i sz ofs = Ok (d, f')" "d \<noteq> []"
  shows "ofs < 2 ^ 31"
proof -
  from assms obtain len f1 where "inode_length f i = Ok (len, f1)" "\<not> int ofs > len"
    by (auto simp: inode_read_at_def bind_eq_Ok split: prod.splits if_splits)
  with inode_length_bound [of f i len f1] have "int ofs < 2 ^ 31" by simp
  then show ?thesis by simp
qed

text \<open>The loop of \<open>lookup\<close>: the entry and its offset.\<close>

function lookup_loop :: "fs \<Rightarrow> nat \<Rightarrow> bytes \<Rightarrow> nat \<Rightarrow> ((bytes \<times> nat) option \<times> fs) outcome" where
  "lookup_loop f ino name ofs =
     bind (inode_read_at f (isec f ino) ENTRY_SIZE ofs) (\<lambda>(e, f).
     if length e = ENTRY_SIZE then
       if e_in_use e \<and> name = e_name e then Ok (Some (e, ofs), f)
       else lookup_loop f ino name (ofs + ENTRY_SIZE)
     else Ok (None, f))"
  by auto
termination
proof (relation "measure (\<lambda>(_, _, _, ofs). 2 ^ 31 - ofs)")
  fix f ino name ofs r e f'
  assume "inode_read_at f (isec f ino) ENTRY_SIZE ofs = Ok r" "(e, f') = r" "length e = ENTRY_SIZE"
  then have "ofs < 2 ^ 31" by (intro inode_read_bound [of f "isec f ino" ENTRY_SIZE ofs e f']) (auto simp: ENTRY_SIZE_def)
  then show "((f', ino, name, ofs + ENTRY_SIZE), f, ino, name, ofs) \<in> measure (\<lambda>(_, _, _, ofs). 2 ^ 31 - ofs)"
    by (simp add: ENTRY_SIZE_def)
qed simp

definition lookup :: "fs \<Rightarrow> nat \<Rightarrow> bytes \<Rightarrow> ((bytes \<times> nat) option \<times> fs) outcome" where
  "lookup f ino name = lookup_loop f ino name 0"

definition dir_lookup :: "fs \<Rightarrow> dir \<Rightarrow> bytes \<Rightarrow> (nat option \<times> fs) outcome" where
  "dir_lookup f dir name =
     bind (lookup f (d_inode dir) name) (\<lambda>(r, f).
     case r of Some (e, _) \<Rightarrow> inode_open f (e_sector e) | None \<Rightarrow> Ok (None, f))"

text \<open>
  The loop of \<open>dir_add\<close> that looks for a free slot.  \<open>e\<close> is the buffer on the stack: a
  short read at the end of the file leaves its tail alone.
\<close>

function free_slot :: "fs \<Rightarrow> nat \<Rightarrow> bytes \<Rightarrow> nat \<Rightarrow> (bytes \<times> nat \<times> fs) outcome" where
  "free_slot f ino e ofs =
     bind (inode_read_at f (isec f ino) ENTRY_SIZE ofs) (\<lambda>(d, f).
     let e = patch e 0 d in
     if length d = ENTRY_SIZE then
       if \<not> e_in_use e then Ok (e, ofs, f) else free_slot f ino e (ofs + ENTRY_SIZE)
     else Ok (e, ofs, f))"
  by auto
termination
proof (relation "measure (\<lambda>(_, _, _, ofs). 2 ^ 31 - ofs)")
  fix f ino and e :: bytes and ofs r d f' e'
  assume "inode_read_at f (isec f ino) ENTRY_SIZE ofs = Ok r" "(d, f') = r" "length d = ENTRY_SIZE"
  then have "ofs < 2 ^ 31" by (intro inode_read_bound [of f "isec f ino" ENTRY_SIZE ofs d f']) (auto simp: ENTRY_SIZE_def)
  then show "((f', ino, e', ofs + ENTRY_SIZE), f, ino, e, ofs) \<in> measure (\<lambda>(_, _, _, ofs). 2 ^ 31 - ofs)"
    by (simp add: ENTRY_SIZE_def)
qed simp

text \<open>\<open>e\<close> is what the stack holds when \<open>dir_add\<close> is entered.\<close>

definition dir_add :: "proc \<Rightarrow> bytes \<Rightarrow> dir \<Rightarrow> bytes \<Rightarrow> u32 \<Rightarrow> (bool \<times> proc) outcome" where
  "dir_add p e dir name sector =
     (if name = [] \<or> length name > NAME_MAX then Ok (False, p\<lparr>p_errno := ENAME\<rparr>)
      else
        bind (lookup (p_fs p) (d_inode dir) name) (\<lambda>(r, f).
        if r \<noteq> None then Ok (False, upd_fs p f)
        else
          bind (free_slot f (d_inode dir) e 0) (\<lambda>(e, ofs, f).
          bind (inode_write_at f (d_inode dir) (fill_entry e name sector) ofs) (\<lambda>(n, f).
          Ok (n = ENTRY_SIZE, upd_fs p f)))))"

definition is_dot :: "bytes \<Rightarrow> bool" where
  "is_dot name \<longleftrightarrow> name = [46] \<or> name = [46, 46]"

text \<open>The loop of \<open>dir_remove\<close> over the entries of a directory to be removed.\<close>

function dir_is_empty :: "fs \<Rightarrow> nat \<Rightarrow> nat \<Rightarrow> (bool \<times> fs) outcome" where
  "dir_is_empty f ino ofs =
     bind (inode_read_at f (isec f ino) ENTRY_SIZE ofs) (\<lambda>(e, f).
     if length e = ENTRY_SIZE then
       if e_in_use e \<and> \<not> is_dot (e_name e) then Ok (False, f) else dir_is_empty f ino (ofs + ENTRY_SIZE)
     else Ok (True, f))"
  by auto
termination
proof (relation "measure (\<lambda>(_, _, ofs). 2 ^ 31 - ofs)")
  fix f ino ofs r e f'
  assume "inode_read_at f (isec f ino) ENTRY_SIZE ofs = Ok r" "(e, f') = r" "length e = ENTRY_SIZE"
  then have "ofs < 2 ^ 31" by (intro inode_read_bound [of f "isec f ino" ENTRY_SIZE ofs e f']) (auto simp: ENTRY_SIZE_def)
  then show "((f', ino, ofs + ENTRY_SIZE), f, ino, ofs) \<in> measure (\<lambda>(_, _, ofs). 2 ^ 31 - ofs)"
    by (simp add: ENTRY_SIZE_def)
qed simp

definition dir_remove :: "fs \<Rightarrow> dir \<Rightarrow> bytes \<Rightarrow> (bool \<times> fs) outcome" where
  "dir_remove f dir name =
     bind (lookup f (d_inode dir) name) (\<lambda>(r, f).
     case r of
       None \<Rightarrow> bind (inode_close f None) (\<lambda>f. Ok (False, f))
     | Some (e, ofs) \<Rightarrow>
         bind (inode_open f (e_sector e)) (\<lambda>(ino, f).
         case ino of
           None \<Rightarrow> bind (inode_close f None) (\<lambda>f. Ok (False, f))
         | Some k \<Rightarrow>
             bind (inode_is_dir f (isec f k)) (\<lambda>(isd, f).
             bind (if isd then dir_is_empty f k 0 else Ok (True, f)) (\<lambda>(empty, f).
             if \<not> empty then bind (inode_close f ino) (\<lambda>f. Ok (False, f))
             else
               bind (inode_write_at f (d_inode dir) (e[19 := 0]) ofs) (\<lambda>(n, f).
               if n \<noteq> ENTRY_SIZE then bind (inode_close f ino) (\<lambda>f. Ok (False, f))
               else
                 bind (inode_remove f ino) (\<lambda>f.
                 bind (inode_close f ino) (\<lambda>f. Ok (True, f))))))))"

function dir_readdir :: "fs \<Rightarrow> dir \<Rightarrow> (bytes option \<times> dir \<times> fs) outcome" where
  "dir_readdir f dir =
     bind (inode_read_at f (isec f (d_inode dir)) ENTRY_SIZE (d_pos dir)) (\<lambda>(e, f).
     if length e = ENTRY_SIZE then
       let dir = dir\<lparr>d_pos := d_pos dir + ENTRY_SIZE\<rparr> in
       if e_in_use e \<and> \<not> is_dot (e_name e) then Ok (Some (take NAME_MAX (e_name e)), dir, f)
       else dir_readdir f dir
     else Ok (None, dir, f))"
  by auto
termination
proof (relation "measure (\<lambda>(_, dir). 2 ^ 31 - d_pos dir)")
  fix f and dir x :: dir and r e f'
  assume "inode_read_at f (isec f (d_inode dir)) ENTRY_SIZE (d_pos dir) = Ok r" "(e, f') = r" "length e = ENTRY_SIZE"
    and x: "x = dir\<lparr>d_pos := d_pos dir + ENTRY_SIZE\<rparr>"
  then have "d_pos dir < 2 ^ 31"
    by (intro inode_read_bound [of f "isec f (d_inode dir)" ENTRY_SIZE "d_pos dir" e f']) (auto simp: ENTRY_SIZE_def)
  then show "((f', x), f, dir) \<in> measure (\<lambda>(_, dir). 2 ^ 31 - d_pos dir)"
    by (simp add: ENTRY_SIZE_def x)
qed simp

declare lookup_loop.simps [simp del] free_slot.simps [simp del] dir_is_empty.simps [simp del] dir_readdir.simps [simp del]

section \<open>Paths\<close>

text \<open>The string at address \<open>a\<close>.\<close>

definition string_at :: "mem \<Rightarrow> nat \<Rightarrow> bytes" where
  "string_at m a = takeWhile (\<lambda>c. c \<noteq> 0) (drop a m)"

text \<open>Looking a name up and moving into the directory it names.\<close>

definition descend :: "fs \<Rightarrow> dir \<Rightarrow> bytes \<Rightarrow> ((dir option) option \<times> fs) outcome" where
  "descend f dir name =
     bind (dir_lookup f dir name) (\<lambda>(ino, f).
     if ino = None then bind (dir_close f (Some dir)) (\<lambda>f. Ok (None, f))
     else
       bind (dir_open f ino) (\<lambda>(next_dir, f).
       bind (dir_close f (Some dir)) (\<lambda>f. Ok (Some next_dir, f))))"

text \<open>
  The loop over the components of a path with slashes.  The copy of the path is in \<open>m\<close>,
  the delimiter string at \<open>delim\<close>; \<open>dir_name\<close> and \<open>path_ptr\<close> are the current token and
  the saved position.  A round consumes at least one character, so that \<open>rounds\<close> larger
  than the length of the path is never used up.
\<close>

fun traverse_loop ::
  "nat \<Rightarrow> fs \<Rightarrow> mem \<Rightarrow> nat \<Rightarrow> nat \<Rightarrow> bool \<Rightarrow> dir option \<Rightarrow> nat \<Rightarrow> nat \<Rightarrow> bool \<Rightarrow> (dir option \<times> fs) outcome" where
  "traverse_loop 0 f m delim file_name is_dir dir dir_name path_ptr rightmost = Hang"
| "traverse_loop (Suc rounds) f m delim file_name is_dir dir dir_name path_ptr rightmost =
     (if dir_name = 0 \<or> rightmost then Ok (dir, f)
      else
        case dir of
          None \<Rightarrow> Ok (None, f)
        | Some d \<Rightarrow>
            if dir_name = file_name \<and> \<not> is_dir then Ok (dir, f)
            else
              bind (descend f d (string_at m dir_name)) (\<lambda>(r, f).
              case r of
                None \<Rightarrow> Ok (None, f)
              | Some next_dir \<Rightarrow>
                  bind (strtok_r m 0 delim path_ptr) (\<lambda>(tok, path_ptr, m).
                  traverse_loop rounds f m delim file_name is_dir next_dir tok path_ptr (dir_name = file_name))))"

definition start_dir :: "proc \<Rightarrow> bool \<Rightarrow> (dir option \<times> fs) outcome" where
  "start_dir p absolute =
     (case p_current_dir p of
        None \<Rightarrow> dir_open_root (p_fs p)
      | Some cur \<Rightarrow>
          if absolute then dir_open_root (p_fs p)
          else Ok (if inode_is_removed (p_fs p) (dir_get_inode cur) then None else Some cur, p_fs p))"

text \<open>
  Without a slash in the path there is one component, the path itself, and \<open>strtok_r\<close> is
  not called before the loop: \<open>junk\<close> is what the variable \<open>path_ptr\<close> happens to hold.  If
  that is not null, it is followed, which counts as a panic.
\<close>

definition PAGE_BYTES :: nat where
  "PAGE_BYTES = 4096"

definition dir_traverse_path :: "proc \<Rightarrow> nat \<Rightarrow> bytes \<Rightarrow> bool \<Rightarrow> (dir option \<times> proc) outcome" where
  "dir_traverse_path p junk path is_dir =
     (let f = p_fs p in
      if heap f = 0 then Ok (None, p)
      else
        let p = upd_fs p (f\<lparr>heap := heap f - 1\<rparr>);
            copy = take (PAGE_BYTES - 1) path;
            m = 0 # copy @ [0, 47, 0];
            delim = length copy + 2
        in if 47 \<in> set path then
             bind (strrchr m 1 47) (\<lambda>last.
             let file_name = (if last = 0 then 0 else last + 1) in
             bind (strtok_r m 1 delim 0) (\<lambda>(dir_name, path_ptr, m).
             bind (strchr m 1 47) (\<lambda>slash.
             bind (start_dir p (slash \<noteq> 0)) (\<lambda>(dir, f).
             bind (traverse_loop (length path + 2) f m delim file_name is_dir dir dir_name path_ptr False) (\<lambda>(dir, f).
             Ok (dir, upd_fs p f))))))
           else
             bind (start_dir p False) (\<lambda>(dir, f).
             case dir of
               None \<Rightarrow> Ok (None, upd_fs p f)
             | Some d \<Rightarrow>
                 if \<not> is_dir then Ok (dir, upd_fs p f)
                 else
                   bind (descend f d path) (\<lambda>(r, f).
                   case r of
                     None \<Rightarrow> Ok (None, upd_fs p f)
                   | Some next_dir \<Rightarrow> if junk = 0 then Ok (next_dir, upd_fs p f) else Panic)))"

end
