(* ===== verification/Pipe.thy ===== *)
theory Pipe
  imports Fifo WordRing
begin

text \<open>
  The pipe of \<open>filesys/pipe.c\<close>: a ring buffer of bytes with a read end and a write
  end.  Every routine runs inside the pipe's lock; a \<open>cond_wait\<close> that no other
  thread answers does not return.  A file is named by a number, \<open>None\<close> is the null
  pointer of an end that has been closed.
\<close>

section \<open>The data and the operations\<close>

type_synonym file_id = nat

record pipe =
  p_buffer :: bytes
  p_capacity :: u32
  p_head :: u32
  p_tail :: u32
  p_read_end :: "file_id option"
  p_write_end :: "file_id option"

text \<open>
  \<open>got_pipe\<close> says whether the first \<open>malloc\<close> succeeded, \<open>storage\<close> is the block the
  second one returned.
\<close>

definition pipe_create :: "u32 \<Rightarrow> bool \<Rightarrow> bytes option \<Rightarrow> pipe option" where
  "pipe_create capacity got_pipe storage =
     (if \<not> got_pipe then None
      else case storage of
             None \<Rightarrow> None
           | Some buffer \<Rightarrow>
               Some \<lparr>p_buffer = buffer, p_capacity = capacity + 1, p_head = 0, p_tail = 0,
                     p_read_end = None, p_write_end = None\<rparr>)"

definition pipe_empty :: "pipe \<Rightarrow> bool" where
  "pipe_empty pipe \<longleftrightarrow> p_head pipe = p_tail pipe"

definition pipe_full :: "pipe \<Rightarrow> bool" where
  "pipe_full pipe \<longleftrightarrow> p_head pipe = (p_tail pipe + 1) mod p_capacity pipe"

definition pipe_dequeue :: "pipe \<Rightarrow> (u8 \<times> pipe) outcome" where
  "pipe_dequeue pipe =
     (if pipe_empty pipe then
        (if p_write_end pipe = None then Ok (0, pipe) else Hang)
      else let head = (p_head pipe + 1) mod p_capacity pipe;
               item = p_buffer pipe ! unat head
           in Ok (item, pipe\<lparr>p_head := head\<rparr>))"

definition pipe_enqueue :: "pipe \<Rightarrow> u8 \<Rightarrow> pipe outcome" where
  "pipe_enqueue pipe item =
     (if pipe_full pipe then
        (if p_read_end pipe = None then Ok pipe else Hang)
      else let tail = (p_tail pipe + 1) mod p_capacity pipe
           in Ok (pipe\<lparr>p_tail := tail, p_buffer := (p_buffer pipe)[unat tail := item]\<rparr>))"

text \<open>\<open>None\<close> when both ends are closed and the pipe is freed.\<close>

definition pipe_close :: "pipe \<Rightarrow> file_id \<Rightarrow> pipe option" where
  "pipe_close pipe file =
     (let pipe = (if p_read_end pipe = Some file then pipe\<lparr>p_read_end := None\<rparr>
                  else if p_write_end pipe = Some file then pipe\<lparr>p_write_end := None\<rparr>
                  else pipe)
      in if p_read_end pipe = None \<and> p_write_end pipe = None then None else Some pipe)"

text \<open>
  The loops of \<open>pipe_read\<close> and \<open>pipe_write\<close>; the destination and the source are byte
  lists, \<open>bytes_read\<close> and \<open>bytes_written\<close> count the completed iterations.
\<close>

function pipe_read_loop :: "pipe \<Rightarrow> bytes \<Rightarrow> nat \<Rightarrow> nat \<Rightarrow> (nat \<times> bytes \<times> pipe) outcome" where
  "pipe_read_loop pipe buffer bytes_read sz =
     (if bytes_read < sz then
        bind (pipe_dequeue pipe) (\<lambda>(item, pipe).
          let buffer = buffer[bytes_read := item]
          in if item = 0 then Ok (bytes_read, buffer, pipe)
             else pipe_read_loop pipe buffer (Suc bytes_read) sz)
      else Ok (bytes_read, buffer, pipe))"
  by auto
termination by (relation "measure (\<lambda>(_, _, k, sz). sz - k)") auto

definition pipe_read :: "pipe \<Rightarrow> bytes \<Rightarrow> int \<Rightarrow> (nat \<times> bytes \<times> pipe) outcome" where
  "pipe_read pipe buffer sz = pipe_read_loop pipe buffer 0 (nat sz)"

function pipe_write_loop :: "pipe \<Rightarrow> bytes \<Rightarrow> nat \<Rightarrow> nat \<Rightarrow> (nat \<times> pipe) outcome" where
  "pipe_write_loop pipe buffer bytes_written sz =
     (if bytes_written < sz then
        bind (pipe_enqueue pipe (buffer ! bytes_written)) (\<lambda>pipe.
          if buffer ! bytes_written = 0 then Ok (bytes_written, pipe)
          else pipe_write_loop pipe buffer (Suc bytes_written) sz)
      else Ok (bytes_written, pipe))"
  by auto
termination by (relation "measure (\<lambda>(_, _, k, sz). sz - k)") auto

definition pipe_write :: "pipe \<Rightarrow> bytes \<Rightarrow> int \<Rightarrow> (nat \<times> pipe) outcome" where
  "pipe_write pipe buffer sz = pipe_write_loop pipe buffer 0 (nat sz)"

declare pipe_read_loop.simps [simp del] pipe_write_loop.simps [simp del]

section \<open>Invariant and contents\<close>

definition pipe_inv :: "pipe \<Rightarrow> bool" where
  "pipe_inv p \<longleftrightarrow> wring_inv (p_buffer p) (p_capacity p) (p_head p) (p_tail p)"

definition pipe_contents :: "pipe \<Rightarrow> bytes" where
  "pipe_contents p = wring (p_buffer p) (p_capacity p) (p_head p) (p_tail p)"

definition pipe_room :: "pipe \<Rightarrow> nat" where
  "pipe_room p = unat (p_capacity p) - 1"

definition same_ends :: "pipe \<Rightarrow> pipe \<Rightarrow> bool" where
  "same_ends p q \<longleftrightarrow> p_read_end p = p_read_end q \<and> p_write_end p = p_write_end q
     \<and> pipe_room p = pipe_room q"

lemma same_ends_refl [simp]: "same_ends p p"
  by (simp add: same_ends_def)

lemmas pipe_abs_defs = pipe_inv_def pipe_contents_def pipe_room_def same_ends_def

lemma pipe_empty_iff: "pipe_inv p \<Longrightarrow> pipe_empty p \<longleftrightarrow> pipe_contents p = []"
  by (simp add: pipe_abs_defs pipe_empty_def wring_empty_iff)

lemma pipe_full_iff: "pipe_inv p \<Longrightarrow> pipe_full p \<longleftrightarrow> length (pipe_contents p) = pipe_room p"
  by (simp add: pipe_abs_defs pipe_full_def wring_full_iff)

lemma pipe_contents_bounded: "pipe_inv p \<Longrightarrow> length (pipe_contents p) \<le> pipe_room p"
  by (simp add: pipe_abs_defs wring_bounded)

lemma pipe_enqueue_room:
  assumes "pipe_inv p" "length (pipe_contents p) < pipe_room p"
  shows "\<exists>p'. pipe_enqueue p x = Ok p' \<and> pipe_inv p' \<and> same_ends p' p
    \<and> pipe_contents p' = pipe_contents p @ [x]"
proof -
  have "\<not> pipe_full p" using assms by (simp add: pipe_full_iff)
  then show ?thesis
    using assms(1)
    by (simp add: pipe_enqueue_def Let_def pipe_full_def pipe_abs_defs wring_inv_next wring_put)
qed

lemma pipe_dequeue_item:
  assumes "pipe_inv p" "pipe_contents p = x # xs"
  shows "\<exists>p'. pipe_dequeue p = Ok (x, p') \<and> pipe_inv p' \<and> same_ends p' p \<and> pipe_contents p' = xs"
proof -
  have "\<not> pipe_empty p" using assms by (simp add: pipe_empty_iff)
  then show ?thesis
    using assms wring_get [of "p_buffer p" "p_capacity p" "p_head p" "p_tail p"]
    by (simp add: pipe_dequeue_def Let_def pipe_empty_def pipe_abs_defs wring_inv_next)
qed

lemma pipe_dequeue_empty:
  assumes "pipe_inv p" "pipe_contents p = []"
  shows "pipe_dequeue p = (if p_write_end p = None then Ok (0, p) else Hang)"
  using assms by (simp add: pipe_dequeue_def pipe_empty_iff)

lemma pipe_enqueue_full:
  assumes "pipe_inv p" "length (pipe_contents p) = pipe_room p"
  shows "pipe_enqueue p x = (if p_read_end p = None then Ok p else Hang)"
  using assms by (simp add: pipe_enqueue_def pipe_full_iff)

text \<open>With both ends open the pipe is a bounded FIFO.\<close>

interpretation pp: bounded_fifo
  "\<lambda>p. pipe_inv p \<and> p_read_end p \<noteq> None \<and> p_write_end p \<noteq> None"
  pipe_contents pipe_room pipe_enqueue pipe_dequeue
proof unfold_locales
  fix p x xs
  let ?inv = "\<lambda>p. pipe_inv p \<and> p_read_end p \<noteq> None \<and> p_write_end p \<noteq> None"
  show "\<exists>p'. pipe_enqueue p x = Ok p' \<and> ?inv p' \<and> pipe_room p' = pipe_room p
      \<and> pipe_contents p' = pipe_contents p @ [x]"
    if "?inv p" "length (pipe_contents p) < pipe_room p"
    using pipe_enqueue_room [of p x] that by (auto simp: same_ends_def)
  show "\<exists>p'. pipe_dequeue p = Ok (x, p') \<and> ?inv p' \<and> pipe_room p' = pipe_room p
      \<and> pipe_contents p' = xs"
    if "?inv p" "pipe_contents p = x # xs"
    using pipe_dequeue_item [of p x xs] that by (auto simp: same_ends_def)
qed (simp_all add: pipe_contents_bounded pipe_enqueue_full pipe_dequeue_empty)

section \<open>The two loops\<close>

text \<open>
  \<open>text_len bs\<close> is the number of bytes before the first NUL: both loops stop there,
  because a zero byte doubles as the end-of-file mark of \<open>pipe_dequeue\<close>.
\<close>

definition text_len :: "bytes \<Rightarrow> nat" where
  "text_len bs = length (takeWhile (\<lambda>b. b \<noteq> 0) bs)"

lemma text_len_simps [simp]:
  "text_len [] = 0"
  "text_len (b # bs) = (if b = 0 then 0 else Suc (text_len bs))"
  by (simp_all add: text_len_def)

lemma text_len_le: "text_len bs \<le> length bs"
  by (simp add: text_len_def length_takeWhile_le)

lemma text_len_no_nul: "0 \<notin> set bs \<Longrightarrow> text_len bs = length bs"
  by (induction bs) auto

text \<open>What a read of \<open>n\<close> bytes does to a pipe holding \<open>c\<close>.\<close>

definition pipe_read_post :: "nat \<Rightarrow> bytes \<Rightarrow> bytes \<Rightarrow> pipe \<Rightarrow> nat \<Rightarrow> (nat \<times> bytes \<times> pipe) outcome \<Rightarrow> bool"
  where
  "pipe_read_post n c buf p i r \<longleftrightarrow>
     (let k = text_len (take n c) in
      if k = n then
        \<exists>p'. r = Ok (i + n, take i buf @ take n c @ drop (i + n) buf, p')
          \<and> pipe_inv p' \<and> same_ends p' p \<and> pipe_contents p' = drop n c
      else if k < length c \<or> p_write_end p = None then
        \<exists>p'. r = Ok (i + k, take i buf @ take k c @ 0 # drop (Suc (i + k)) buf, p')
          \<and> pipe_inv p' \<and> same_ends p' p \<and> pipe_contents p' = drop (Suc k) c
      else r = Hang)"

lemma pipe_read_post_0:
  "pipe_read_post n c buf p 0 r \<longleftrightarrow>
     (let k = text_len (take n c) in
      if k = n then
        \<exists>p'. r = Ok (n, take n c @ drop n buf, p')
          \<and> pipe_inv p' \<and> same_ends p' p \<and> pipe_contents p' = drop n c
      else if k < length c \<or> p_write_end p = None then
        \<exists>p'. r = Ok (k, take k c @ 0 # drop (Suc k) buf, p')
          \<and> pipe_inv p' \<and> same_ends p' p \<and> pipe_contents p' = drop (Suc k) c
      else r = Hang)"
  by (simp add: pipe_read_post_def Let_def)

lemma pipe_read_post_step:
  assumes "x \<noteq> 0" "i < length buf" "same_ends p1 p"
    "pipe_read_post n c (buf[i := x]) p1 (Suc i) r"
  shows "pipe_read_post (Suc n) (x # c) buf p i r"
proof -
  have t: "take (Suc i) (buf[i := x]) = take i buf @ [x]"
    using assms(2) by (simp add: take_Suc_conv_app_nth)
  show ?thesis
    using assms by (auto simp: pipe_read_post_def Let_def t same_ends_def)
qed

lemma pipe_read_loop_spec:
  assumes "pipe_inv p" "i + n \<le> length buf"
  shows "pipe_read_post n (pipe_contents p) buf p i (pipe_read_loop p buf i (i + n))"
  using assms
proof (induction n arbitrary: p buf i)
  case 0
  then show ?case by (simp add: pipe_read_loop.simps pipe_read_post_def same_ends_def)
next
  case (Suc n)
  note un = pipe_read_loop.simps [of p buf i "Suc (i + n)"]
  have upd: "buf[i := 0] = take i buf @ 0 # drop (Suc i) buf"
    using Suc.prems by (simp add: upd_conv_take_nth_drop)
  show ?case
  proof (cases "pipe_contents p")
    case Nil
    with Suc.prems show ?thesis
      by (auto simp: un pipe_dequeue_empty pipe_read_post_def upd same_ends_def)
  next
    case (Cons x xs)
    from pipe_dequeue_item [OF Suc.prems(1) Cons] obtain p1 where
      p1: "pipe_dequeue p = Ok (x, p1)" "pipe_inv p1" "same_ends p1 p" "pipe_contents p1 = xs"
      by blast
    show ?thesis
    proof (cases "x = 0")
      case True
      with p1 Cons show ?thesis by (simp add: un pipe_read_post_def upd)
    next
      case False
      have "pipe_read_post n xs (buf[i := x]) p1 (Suc i) (pipe_read_loop p1 (buf[i := x]) (Suc i) (Suc i + n))"
        using Suc.IH [of p1 "Suc i" "buf[i := x]"] p1 Suc.prems by simp
      from pipe_read_post_step [OF False _ p1(3) this] p1 False Cons Suc.prems
      show ?thesis by (simp add: un)
    qed
  qed
qed

lemma pipe_write_loop_spec:
  assumes "pipe_inv p" "length buf = i + n"
  defines "e \<equiv> take (Suc (text_len (drop i buf))) (drop i buf)"
  shows "if length (pipe_contents p) + length e \<le> pipe_room p \<or> p_read_end p = None
    then \<exists>p'. pipe_write_loop p buf i (i + n) = Ok (i + text_len (drop i buf), p')
      \<and> pipe_inv p' \<and> same_ends p' p
      \<and> pipe_contents p' = pipe_contents p @ take (pipe_room p - length (pipe_contents p)) e
    else pipe_write_loop p buf i (i + n) = Hang"
  using assms(1,2) unfolding e_def
proof (induction n arbitrary: p i)
  case 0
  then show ?case
    using pipe_contents_bounded [of p]
    by (auto simp: pipe_write_loop.simps same_ends_def)
next
  case (Suc n)
  let ?x = "buf ! i" and ?c = "pipe_contents p"
  note un = pipe_write_loop.simps [of p buf i "Suc (i + n)"]
  have d: "drop i buf = ?x # drop (Suc i) buf"
    using Suc.prems by (simp add: Cons_nth_drop_Suc)
  show ?case
  proof (cases "length ?c = pipe_room p")
    case True
    then show ?thesis
      using Suc.prems Suc.IH [of p "Suc i"]
      by (auto simp: un d pipe_enqueue_full)
  next
    case False
    then have "length ?c < pipe_room p" using pipe_contents_bounded [of p] Suc.prems by simp
    from pipe_enqueue_room [OF Suc.prems(1) this, of ?x] obtain p1 where
      p1: "pipe_enqueue p ?x = Ok p1" "pipe_inv p1" "same_ends p1 p" "pipe_contents p1 = ?c @ [?x]"
      by blast
    have m: "pipe_room p - length ?c = Suc (pipe_room p - Suc (length ?c))"
      using \<open>length ?c < pipe_room p\<close> by simp
    show ?thesis
      using p1 Suc.prems Suc.IH [of p1 "Suc i"] \<open>length ?c < pipe_room p\<close>
      by (auto simp: un d m same_ends_def split: if_splits)
  qed
qed

section \<open>Properties\<close>

text \<open>
  C7: whatever the interleaving of complete enqueues and dequeues by the readers and
  writers of a pipe both of whose ends are open, no byte is lost, duplicated or
  reordered: what was in the pipe followed by what was enqueued is what was dequeued
  followed by what is still in the pipe, and the pipe never holds more than its
  capacity.
\<close>

theorem pipe_stream:
  assumes "pipe_inv p" "p_read_end p \<noteq> None" "p_write_end p \<noteq> None"
    and "fifo_run pipe_enqueue pipe_dequeue p es = Some p'"
  shows "pipe_contents p @ puts es = gets es @ pipe_contents p' \<and> pipe_inv p'
    \<and> length (pipe_contents p') \<le> pipe_room p"
  using pp.run_fifo [of p es p'] assms pipe_contents_bounded [of p'] by auto

definition demo_pipe :: pipe where
  "demo_pipe = \<lparr>p_buffer = [0, 0, 0], p_capacity = 3, p_head = 2, p_tail = 2,
     p_read_end = Some 5, p_write_end = Some 6\<rparr>"

theorem pipe_stream_witness:
  "let es = [Put 7, Put 9, Get 7, Put 4];
       p' = demo_pipe\<lparr>p_buffer := [7, 9, 4], p_head := 0, p_tail := 2\<rparr>
   in fifo_run pipe_enqueue pipe_dequeue demo_pipe es = Some p'
     \<and> pipe_contents demo_pipe @ puts es = gets es @ pipe_contents p'"
proof -
  let ?es = "[Put 7, Put 9, Get 7, Put 4]"
  let ?p' = "demo_pipe\<lparr>p_buffer := [7, 9, 4], p_head := 0, p_tail := 2\<rparr>"
  have inv: "pipe_inv demo_pipe" "p_read_end demo_pipe \<noteq> None" "p_write_end demo_pipe \<noteq> None"
    by code_simp+
  have run: "fifo_run pipe_enqueue pipe_dequeue demo_pipe ?es = Some ?p'" by code_simp
  from pipe_stream [OF inv run] run show ?thesis unfolding Let_def by blast
qed

text \<open>
  C13: the result of \<open>pipe_write\<close> on every branch.  It stops behind the first NUL of
  the buffer and returns the number of bytes before it.  The bytes up to and including
  that NUL are appended when they fit; when they do not, the writer blocks while the
  read end is open, and otherwise the excess is dropped although the returned count
  includes it.
\<close>

theorem pipe_write_spec:
  assumes "pipe_inv p" and "int (length data) = sz"
  shows "let e = take (Suc (text_len data)) data in
    if length (pipe_contents p) + length e \<le> pipe_room p \<or> p_read_end p = None
    then \<exists>p'. pipe_write p data sz = Ok (text_len data, p') \<and> pipe_inv p' \<and> same_ends p' p
      \<and> pipe_contents p' = pipe_contents p @ take (pipe_room p - length (pipe_contents p)) e
    else pipe_write p data sz = Hang"
  using pipe_write_loop_spec [of p data 0 "length data"] assms
  by (auto simp: pipe_write_def Let_def)

theorem pipe_write_spec_witness:
  "\<exists>p'. pipe_write (demo_pipe\<lparr>p_read_end := None\<rparr>) [5, 6, 7] 3 = Ok (3, p')
     \<and> pipe_contents p' = [5, 6]"
proof -
  let ?p = "demo_pipe\<lparr>p_read_end := None\<rparr>"
  have h: "pipe_inv ?p" "int (length [5::u8, 6, 7]) = 3" by code_simp+
  have f: "p_read_end ?p = None" "text_len [5, 6, 7] = 3" "pipe_contents ?p = []" "pipe_room ?p = 2"
    by code_simp+
  from pipe_write_spec [OF h] f show ?thesis by (auto simp: Let_def)
qed

text \<open>
  C12: the result of \<open>pipe_read\<close> on every branch.  It delivers the longest NUL-free
  prefix of what the pipe holds, at most \<open>size\<close> bytes; short of \<open>size\<close> it also
  stores, and does not count, the zero that stopped it, which is a NUL byte it
  consumed from the pipe or the end-of-file mark once the write end is closed; it
  blocks when the pipe runs empty while the write end is open.  Bytes of the buffer
  beyond those are untouched.
\<close>

theorem pipe_read_spec:
  assumes "pipe_inv p" and "0 \<le> sz" "nat sz \<le> length buf"
  shows "let c = pipe_contents p; n = nat sz; k = text_len (take n c) in
    if k = n then
      \<exists>p'. pipe_read p buf sz = Ok (n, take n c @ drop n buf, p')
        \<and> pipe_inv p' \<and> same_ends p' p \<and> pipe_contents p' = drop n c
    else if k < length c \<or> p_write_end p = None then
      \<exists>p'. pipe_read p buf sz = Ok (k, take k c @ 0 # drop (Suc k) buf, p')
        \<and> pipe_inv p' \<and> same_ends p' p \<and> pipe_contents p' = drop (Suc k) c
    else pipe_read p buf sz = Hang"
  using pipe_read_loop_spec [of p 0 "nat sz" buf, OF assms(1)] assms(3)
  unfolding pipe_read_post_0 pipe_read_def Let_def add_0 by blast

theorem pipe_read_spec_witness:
  "pipe_read demo_pipe [1, 1] 2 = Hang
   \<and> (\<exists>p'. pipe_read (demo_pipe\<lparr>p_write_end := None\<rparr>) [1, 1] 2 = Ok (0, [0, 1], p'))"
proof -
  let ?q = "demo_pipe\<lparr>p_write_end := None\<rparr>"
  have p: "pipe_inv demo_pipe" "(0::int) \<le> 2" "nat 2 \<le> length [1::u8, 1]" by code_simp+
  have q: "pipe_inv ?q" by code_simp
  have f: "pipe_contents demo_pipe = []" "pipe_contents ?q = []"
    "p_write_end demo_pipe = Some 6" "p_write_end ?q = None" by code_simp+
  from pipe_read_spec [OF p] pipe_read_spec [OF q p(2,3)] f show ?thesis
    by (auto simp: Let_def)
qed

text \<open>
  C11: a message without NUL bytes that fits into an empty pipe comes out of it
  unchanged: \<open>pipe_write\<close> followed by \<open>pipe_read\<close> of the same length returns the
  message and leaves the pipe empty.
\<close>

theorem pipe_write_read:
  assumes "pipe_inv p" "pipe_contents p = []" "length data \<le> pipe_room p" "0 \<notin> set data"
    and "length buf = length data"
  shows "\<exists>p1 p2. pipe_write p data (int (length data)) = Ok (length data, p1)
    \<and> pipe_read p1 buf (int (length data)) = Ok (length data, data, p2)
    \<and> pipe_contents p2 = []"
proof -
  from pipe_write_loop_spec [of p data 0 "length data"] assms obtain p1 where
    p1: "pipe_write p data (int (length data)) = Ok (length data, p1)" "pipe_inv p1"
      "pipe_contents p1 = data"
    by (auto simp: pipe_write_def text_len_no_nul)
  with pipe_read_loop_spec [of p1 0 "length data" buf] assms show ?thesis
    by (auto simp: pipe_read_def pipe_read_post_def Let_def text_len_no_nul)
qed

theorem pipe_write_read_witness:
  "\<exists>p1 p2. pipe_write demo_pipe [104, 105] 2 = Ok (2, p1) \<and> pipe_read p1 [0, 0] 2 = Ok (2, [104, 105], p2)"
proof -
  have h: "pipe_inv demo_pipe" "pipe_contents demo_pipe = []" "length [104::u8, 105] \<le> pipe_room demo_pipe"
      "0 \<notin> set [104::u8, 105]" "length [0::u8, 0] = length [104::u8, 105]"
    by code_simp+
  from pipe_write_read [OF h] show ?thesis by auto
qed

end
