(* ===== verification/File.thy ===== *)
theory File
  imports Directory Pipe
begin

text \<open>
  Open files, \<open>filesys/file.c\<close>: consoles, regular files, directories and pipe ends with
  their positions and reference counts, and \<open>pipe_open\<close> of \<open>filesys/pipe.c\<close>.  The
  memory of open files and of pipes is part of the record \<open>kern\<close>; so are the characters
  still to come from the keyboard and those written to the console.
\<close>

section \<open>The data\<close>

datatype file_type = STDIN | STDOUT | REG | DIR | PIPE

record ofile =
  f_type :: file_type
  f_inode :: "nat option"
  f_pos :: nat
  f_deny_write :: bool
  f_ref_count :: int
  f_dir :: "dir option"
  f_pipe :: "nat option"

record kern =
  k_proc :: proc
  files :: "nat \<Rightarrow> ofile"
  open_files :: "nat list"
  next_file :: nat
  pipes :: "nat \<Rightarrow> pipe"
  next_pipe :: nat
  k_input :: bytes
  k_output :: bytes

abbreviation k_fs :: "kern \<Rightarrow> fs" where
  "k_fs k \<equiv> p_fs (k_proc k)"

definition set_fs :: "kern \<Rightarrow> fs \<Rightarrow> kern" where
  "set_fs k f = k\<lparr>k_proc := (k_proc k)\<lparr>p_fs := f\<rparr>\<rparr>"

definition upd_file :: "nat \<Rightarrow> (ofile \<Rightarrow> ofile) \<Rightarrow> kern \<Rightarrow> kern" where
  "upd_file n g k = k\<lparr>files := (files k)(n := g (files k n))\<rparr>"

definition EINVF :: int where "EINVF = 13"

definition EBADF :: int where "EBADF = 113"

definition EISDIR :: int where "EISDIR = 123"

text \<open>A file as \<open>calloc\<close> gives it.\<close>

definition zero_file :: ofile where
  "zero_file = \<lparr>f_type = STDIN, f_inode = None, f_pos = 0, f_deny_write = False, f_ref_count = 0,
     f_dir = None, f_pipe = None\<rparr>"

text \<open>\<open>calloc (1, sizeof *file)\<close>; \<open>None\<close> without memory.\<close>

definition alloc_file :: "kern \<Rightarrow> nat option \<times> kern" where
  "alloc_file k =
     (let f = k_fs k in
      if heap f = 0 then (None, k)
      else (Some (next_file k),
            (set_fs k (f\<lparr>heap := heap f - 1\<rparr>))\<lparr>next_file := next_file k + 1, files := (files k)(next_file k := zero_file)\<rparr>))"

definition enlist :: "nat \<Rightarrow> (ofile \<Rightarrow> ofile) \<Rightarrow> kern \<Rightarrow> kern" where
  "enlist n g k = (upd_file n g k)\<lparr>open_files := n # open_files k\<rparr>"

section \<open>Opening and closing\<close>

definition file_init :: "kern \<Rightarrow> kern" where
  "file_init k = k\<lparr>open_files := []\<rparr>"

definition file_open_console :: "kern \<Rightarrow> file_type \<Rightarrow> (nat option \<times> kern) outcome" where
  "file_open_console k type =
     (if type \<noteq> STDIN \<and> type \<noteq> STDOUT then Ok (None, k)
      else
        case alloc_file k of
          (None, k) \<Rightarrow> Panic
        | (Some n, k) \<Rightarrow> Ok (Some n, enlist n (\<lambda>f. f\<lparr>f_type := type, f_ref_count := 1\<rparr>) k))"

definition file_open :: "kern \<Rightarrow> nat option \<Rightarrow> (nat option \<times> kern) outcome" where
  "file_open k inode =
     (let (file, k) = alloc_file k in
      case (inode, file) of
        (Some i, Some n) \<Rightarrow>
          bind (inode_is_dir (k_fs k) (isec (k_fs k) i)) (\<lambda>(isd, f).
          let k = set_fs k f in
          if isd then
            bind (dir_open f inode) (\<lambda>(d, f).
            Ok (file, enlist n (\<lambda>x. x\<lparr>f_type := DIR, f_dir := d, f_inode := inode, f_pos := 0, f_deny_write := False,
                                      f_ref_count := 1, f_pipe := None\<rparr>) (set_fs k f)))
          else
            Ok (file, enlist n (\<lambda>x. x\<lparr>f_type := REG, f_dir := None, f_inode := inode, f_pos := 0, f_deny_write := False,
                                      f_ref_count := 1, f_pipe := None\<rparr>) k))
      | _ \<Rightarrow> bind (inode_close (k_fs k) inode) (\<lambda>f. Ok (None, set_fs k f)))"

definition file_reopen :: "kern \<Rightarrow> nat \<Rightarrow> (nat option \<times> kern) outcome" where
  "file_reopen k n =
     (let (i, f) = inode_reopen (k_fs k) (f_inode (files k n)) in file_open (set_fs k f) i)"

text \<open>The inode behind a file; following a null pointer is a panic.\<close>

definition with_inode :: "kern \<Rightarrow> nat \<Rightarrow> (nat \<Rightarrow> 'a outcome) \<Rightarrow> 'a outcome" where
  "with_inode k n g = (case f_inode (files k n) of None \<Rightarrow> Panic | Some i \<Rightarrow> g i)"

definition file_deny_write :: "kern \<Rightarrow> nat option \<Rightarrow> kern outcome" where
  "file_deny_write k file =
     (case file of
        None \<Rightarrow> Panic
      | Some n \<Rightarrow>
          if \<not> f_deny_write (files k n) then
            with_inode k n (\<lambda>i. bind (inode_deny_write (k_fs k) i) (\<lambda>f.
            Ok (set_fs (upd_file n (\<lambda>x. x\<lparr>f_deny_write := True\<rparr>) k) f)))
          else Ok k)"

definition file_allow_write :: "kern \<Rightarrow> nat option \<Rightarrow> kern outcome" where
  "file_allow_write k file =
     (case file of
        None \<Rightarrow> Panic
      | Some n \<Rightarrow>
          if f_deny_write (files k n) then
            with_inode k n (\<lambda>i. bind (inode_allow_write (k_fs k) i) (\<lambda>f.
            Ok (set_fs (upd_file n (\<lambda>x. x\<lparr>f_deny_write := False\<rparr>) k) f)))
          else Ok k)"

text \<open>\<open>pipe_close\<close> on a pointer that may be null; a pipe that is freed stays as it is.\<close>

definition close_pipe :: "kern \<Rightarrow> nat option \<Rightarrow> nat \<Rightarrow> kern" where
  "close_pipe k pipe n =
     (case pipe of
        None \<Rightarrow> k
      | Some q \<Rightarrow>
          (case pipe_close (pipes k q) n of
             None \<Rightarrow> k
           | Some x \<Rightarrow> k\<lparr>pipes := (pipes k)(q := x)\<rparr>))"

definition file_close :: "kern \<Rightarrow> nat option \<Rightarrow> kern outcome" where
  "file_close k file =
     (case file of
        None \<Rightarrow> Ok k
      | Some n \<Rightarrow>
          let k = upd_file n (\<lambda>x. x\<lparr>f_ref_count := f_ref_count x - 1\<rparr>) k in
          if f_ref_count (files k n) = 0 then
            bind (file_allow_write k file) (\<lambda>k.
            bind (inode_close (k_fs k) (f_inode (files k n))) (\<lambda>f.
            let k = (set_fs k f)\<lparr>open_files := remove1 n (open_files k)\<rparr>
            in Ok (close_pipe k (f_pipe (files k n)) n)))
          else Ok k)"

definition file_get_inode :: "kern \<Rightarrow> nat \<Rightarrow> nat option" where
  "file_get_inode k n = f_inode (files k n)"

definition file_dup :: "kern \<Rightarrow> nat option \<Rightarrow> (nat option \<times> kern) outcome" where
  "file_dup k file =
     (case file of
        None \<Rightarrow> Ok (None, k)
      | Some n \<Rightarrow>
          assert (f_ref_count (files k n) > 0)
          (Ok (file, upd_file n (\<lambda>x. x\<lparr>f_ref_count := f_ref_count x + 1\<rparr>) k)))"

section \<open>Reading and writing\<close>

definition pipe_end :: "kern \<Rightarrow> (pipe \<Rightarrow> nat option) \<Rightarrow> ofile \<Rightarrow> nat option" where
  "pipe_end k which f = (case f_pipe f of None \<Rightarrow> None | Some q \<Rightarrow> which (pipes k q))"

definition read_error :: "kern \<Rightarrow> nat option \<Rightarrow> int" where
  "read_error k file =
     (case file of
        None \<Rightarrow> EINVF
      | Some n \<Rightarrow>
          if f_type (files k n) = PIPE \<and> pipe_end k p_read_end (files k n) \<noteq> file then EBADF
          else if f_type (files k n) = DIR then EISDIR
          else 0)"

definition write_error :: "kern \<Rightarrow> nat option \<Rightarrow> int" where
  "write_error k file =
     (case file of
        None \<Rightarrow> EINVF
      | Some n \<Rightarrow>
          if f_type (files k n) = PIPE \<and> pipe_end k p_write_end (files k n) \<noteq> file then EBADF
          else if f_type (files k n) = DIR then EISDIR
          else 0)"

text \<open>
  \<open>file_read\<close> returns the result and the bytes stored to the buffer, which has size
  \<open>sz\<close>.  The keyboard blocks when no more characters come.
\<close>

definition file_read :: "kern \<Rightarrow> nat option \<Rightarrow> bytes \<Rightarrow> nat \<Rightarrow> (int \<times> bytes \<times> kern) outcome" where
  "file_read k file buffer sz =
     (if read_error k file \<noteq> 0 then Ok (- read_error k file, buffer, k)
      else
        let n = the file in
        case f_type (files k n) of
          STDIN \<Rightarrow>
            if length (k_input k) < sz then Hang
            else Ok (int sz, patch buffer 0 (take sz (k_input k)), k\<lparr>k_input := drop sz (k_input k)\<rparr>)
        | STDOUT \<Rightarrow> Ok (0, buffer, k)
        | PIPE \<Rightarrow>
            (case f_pipe (files k n) of
               None \<Rightarrow> Panic
             | Some q \<Rightarrow>
                 bind (pipe_read (pipes k q) buffer (int sz)) (\<lambda>(r, buffer, x).
                 Ok (int r, buffer, k\<lparr>pipes := (pipes k)(q := x)\<rparr>)))
        | REG \<Rightarrow>
            with_inode k n (\<lambda>i.
            bind (inode_read_at (k_fs k) (isec (k_fs k) i) sz (f_pos (files k n))) (\<lambda>(d, f).
            Ok (int (length d), patch buffer 0 d,
                upd_file n (\<lambda>x. x\<lparr>f_pos := f_pos x + length d\<rparr>) (set_fs k f))))
        | DIR \<Rightarrow> Ok (- 1, buffer, k))"

definition file_read_at :: "kern \<Rightarrow> nat \<Rightarrow> nat \<Rightarrow> nat \<Rightarrow> (bytes \<times> kern) outcome" where
  "file_read_at k n sz file_ofs =
     with_inode k n (\<lambda>i.
     bind (inode_read_at (k_fs k) (isec (k_fs k) i) sz file_ofs) (\<lambda>(d, f). Ok (d, set_fs k f)))"

definition file_write :: "kern \<Rightarrow> nat option \<Rightarrow> bytes \<Rightarrow> (int \<times> kern) outcome" where
  "file_write k file src =
     (if write_error k file \<noteq> 0 then Ok (- write_error k file, k)
      else
        let n = the file in
        case f_type (files k n) of
          STDIN \<Rightarrow> Ok (0, k)
        | STDOUT \<Rightarrow> Ok (int (length src), k\<lparr>k_output := k_output k @ src\<rparr>)
        | PIPE \<Rightarrow>
            (case f_pipe (files k n) of
               None \<Rightarrow> Panic
             | Some q \<Rightarrow>
                 bind (pipe_write (pipes k q) src (int (length src))) (\<lambda>(r, x).
                 Ok (int r, k\<lparr>pipes := (pipes k)(q := x)\<rparr>)))
        | REG \<Rightarrow>
            with_inode k n (\<lambda>i.
            bind (inode_write_at (k_fs k) i src (f_pos (files k n))) (\<lambda>(w, f).
            Ok (int w, upd_file n (\<lambda>x. x\<lparr>f_pos := f_pos x + w\<rparr>) (set_fs k f))))
        | DIR \<Rightarrow> Ok (- 1, k))"

definition file_write_at :: "kern \<Rightarrow> nat \<Rightarrow> bytes \<Rightarrow> nat \<Rightarrow> (nat \<times> kern) outcome" where
  "file_write_at k n src file_ofs =
     with_inode k n (\<lambda>i.
     bind (inode_write_at (k_fs k) i src file_ofs) (\<lambda>(w, f). Ok (w, set_fs k f)))"

definition file_length :: "kern \<Rightarrow> nat option \<Rightarrow> (int \<times> kern) outcome" where
  "file_length k file =
     (case file of
        None \<Rightarrow> Panic
      | Some n \<Rightarrow>
          with_inode k n (\<lambda>i. bind (inode_length (k_fs k) (isec (k_fs k) i)) (\<lambda>(l, f). Ok (l, set_fs k f))))"

definition file_seek :: "kern \<Rightarrow> nat option \<Rightarrow> int \<Rightarrow> kern outcome" where
  "file_seek k file new_pos =
     (case file of
        None \<Rightarrow> Panic
      | Some n \<Rightarrow> assert (new_pos \<ge> 0) (Ok (upd_file n (\<lambda>x. x\<lparr>f_pos := nat new_pos\<rparr>) k)))"

definition file_tell :: "kern \<Rightarrow> nat option \<Rightarrow> nat outcome" where
  "file_tell k file = (case file of None \<Rightarrow> Panic | Some n \<Rightarrow> Ok (f_pos (files k n)))"

text \<open>The part of a path behind its last slash.\<close>

definition file_name_from_path :: "bytes \<Rightarrow> bytes" where
  "file_name_from_path path =
     (if 47 \<in> set path then rev (takeWhile (\<lambda>c. c \<noteq> 47) (rev path)) else path)"

definition file_get_directory :: "kern \<Rightarrow> nat \<Rightarrow> dir option" where
  "file_get_directory k n = f_dir (files k n)"

section \<open>Pipe ends\<close>

definition file_pipe_ends :: "kern \<Rightarrow> nat \<Rightarrow> ((nat \<times> nat) option \<times> kern) outcome" where
  "file_pipe_ends k q =
     (case alloc_file k of
        (None, k) \<Rightarrow> Ok (None, k)
      | (Some r, k) \<Rightarrow>
          (case alloc_file k of
             (None, k) \<Rightarrow> Ok (None, k)
           | (Some w, k) \<Rightarrow>
               let init = (\<lambda>f. f\<lparr>f_type := PIPE, f_ref_count := 1, f_pipe := Some q\<rparr>)
               in Ok (Some (r, w), enlist w init (enlist r init k))))"

text \<open>\<open>storage\<close> is the buffer that \<open>pipe_create\<close> gets.\<close>

definition pipe_open :: "kern \<Rightarrow> bool \<Rightarrow> bytes option \<Rightarrow> ((nat \<times> nat) option \<times> kern) outcome" where
  "pipe_open k got_pipe storage =
     (case pipe_create 4095 got_pipe storage of
        None \<Rightarrow> Ok (None, k)
      | Some x \<Rightarrow>
          let q = next_pipe k; k = k\<lparr>pipes := (pipes k)(q := x), next_pipe := q + 1\<rparr> in
          bind (file_pipe_ends k q) (\<lambda>(ends, k).
          case ends of
            None \<Rightarrow> Ok (None, k)
          | Some (r, w) \<Rightarrow>
              Ok (ends, k\<lparr>pipes := (pipes k)(q := (pipes k q)\<lparr>p_read_end := Some r, p_write_end := Some w\<rparr>)\<rparr>)))"

end
