(* ===== verification/Filesys.thy ===== *)
theory Filesys
  imports File
begin

text \<open>
  The file system as a whole: opening, creating and closing the free map
  (\<open>filesys/free-map.c\<close>), and \<open>filesys/filesys.c\<close>.  \<open>stack\<close> and \<open>junk\<close> stand for what
  local variables of the called routines contain before they are set.
\<close>

section \<open>The free map file\<close>

definition free_map_open :: "kern \<Rightarrow> kern outcome" where
  "free_map_open k =
     bind (inode_open (k_fs k) FREE_MAP_SECTOR) (\<lambda>(i, f).
     bind (file_open (set_fs k f) i) (\<lambda>(file, k).
     case file of
       None \<Rightarrow> Panic
     | Some n \<Rightarrow>
         with_inode k n (\<lambda>i.
         bind (bitmap_read ((k_fs k)\<lparr>free_map_inode := Some i\<rparr>) i) (\<lambda>(ok, f).
         if ok then Ok (set_fs k f) else Panic))))"

text \<open>
  \<open>free_map_file\<close> is represented by its inode: \<open>file\<close> is the open file of that inode.
\<close>

definition free_map_close :: "kern \<Rightarrow> nat option \<Rightarrow> kern outcome" where
  "free_map_close k file =
     (case file of
        None \<Rightarrow> Panic
      | Some n \<Rightarrow>
          with_inode k n (\<lambda>i.
          bind (bitmap_write (k_fs k) i) (\<lambda>(ok, f).
          if ok then file_close (set_fs k f) file else Panic)))"

definition free_map_create :: "kern \<Rightarrow> (nat option \<times> kern) outcome" where
  "free_map_create k =
     bind (inode_create (k_fs k) FREE_MAP_SECTOR (unat (bitmap_file_size (fs_free_map (k_fs k)))) False) (\<lambda>(ok, f).
     if \<not> ok then Panic
     else
       bind (inode_open f FREE_MAP_SECTOR) (\<lambda>(i, f).
       bind (file_open (set_fs k f) i) (\<lambda>(file, k).
       case file of
         None \<Rightarrow> Panic
       | Some n \<Rightarrow>
           with_inode k n (\<lambda>i.
           bind (bitmap_write ((k_fs k)\<lparr>free_map_inode := Some i\<rparr>) i) (\<lambda>(ok, f).
           if ok then Ok (file, set_fs k f) else Panic)))))"

section \<open>Names\<close>

definition traverse :: "kern \<Rightarrow> nat \<Rightarrow> bytes \<Rightarrow> (dir option \<times> kern) outcome" where
  "traverse k junk path =
     bind (dir_traverse_path (k_proc k) junk path False) (\<lambda>(dir, p). Ok (dir, k\<lparr>k_proc := p\<rparr>))"

text \<open>\<open>success && free_map_allocate (1, &inode_sector)\<close>.\<close>

definition allocate_sector :: "kern \<Rightarrow> (u32 option \<times> kern) outcome" where
  "allocate_sector k =
     bind (free_map_allocate (fs_free_map (k_fs k)) 1) (\<lambda>(r, m).
     Ok (r, set_fs k ((k_fs k)\<lparr>fs_free_map := m\<rparr>)))"

definition add_entry :: "kern \<Rightarrow> bytes \<Rightarrow> dir \<Rightarrow> bytes \<Rightarrow> u32 \<Rightarrow> (bool \<times> kern) outcome" where
  "add_entry k stack dir name sector =
     bind (dir_add (k_proc k) stack dir name sector) (\<lambda>(ok, p). Ok (ok, k\<lparr>k_proc := p\<rparr>))"

definition filesys_create :: "kern \<Rightarrow> nat \<Rightarrow> bytes \<Rightarrow> bytes \<Rightarrow> nat \<Rightarrow> (bool \<times> kern) outcome" where
  "filesys_create k junk stack path initial_size =
     (let file_name = file_name_from_path path in
      bind (traverse k junk path) (\<lambda>(dir, k).
      case dir of
        None \<Rightarrow> Ok (False, k)
      | Some d \<Rightarrow>
          bind (allocate_sector k) (\<lambda>(r, k).
          case r of
            None \<Rightarrow> Ok (False, k)
          | Some inode_sector \<Rightarrow>
              bind (inode_create (k_fs k) inode_sector initial_size False) (\<lambda>(ok, f).
              bind (if ok then add_entry (set_fs k f) stack d file_name inode_sector
                    else Ok (False, set_fs k f)) (\<lambda>(success, k).
              if \<not> success \<and> inode_sector \<noteq> 0
              then bind (free_map_release (k_fs k) inode_sector 1) (\<lambda>f. Ok (False, set_fs k f))
              else Ok (success, k))))))"

definition filesys_dir_create :: "kern \<Rightarrow> nat \<Rightarrow> bytes \<Rightarrow> bytes \<Rightarrow> nat \<Rightarrow> (bool \<times> kern) outcome" where
  "filesys_dir_create k junk stack path num_entries =
     (let file_name = file_name_from_path path in
      bind (traverse k junk path) (\<lambda>(dir, k).
      bind (case dir of
              None \<Rightarrow> Ok (False, 0, k)
            | Some d \<Rightarrow>
                bind (allocate_sector k) (\<lambda>(r, k).
                case r of
                  None \<Rightarrow> Ok (False, 0, k)
                | Some inode_sector \<Rightarrow>
                    bind (dir_create (k_fs k) inode_sector num_entries) (\<lambda>(ok, f).
                    bind (if ok then add_entry (set_fs k f) stack d file_name inode_sector
                          else Ok (False, set_fs k f)) (\<lambda>(success, k).
                    Ok (success, inode_sector, k))))) (\<lambda>(success, inode_sector, k).
      if \<not> success \<and> inode_sector \<noteq> 0
      then bind (free_map_release (k_fs k) inode_sector 1) (\<lambda>f. Ok (False, set_fs k f))
      else
        case dir of
          None \<Rightarrow> Panic
        | Some d \<Rightarrow>
            bind (dir_lookup (k_fs k) d file_name) (\<lambda>(ino, f).
            let k = set_fs k f in
            bind (case ino of
                    None \<Rightarrow> Ok (False, k)
                  | Some i \<Rightarrow>
                      bind (dir_open (k_fs k) ino) (\<lambda>(new_dir, f).
                      let k = set_fs k f in
                      case new_dir of
                        None \<Rightarrow> Ok (False, k)
                      | Some nd \<Rightarrow>
                          bind (add_entry k stack nd [46] (inode_get_inumber (k_fs k) i)) (\<lambda>(ok, k).
                          if ok then add_entry k stack nd [46, 46] (inode_get_inumber (k_fs k) (dir_get_inode d))
                          else Ok (False, k)))) (\<lambda>(success, k).
            if \<not> success then
              bind (dir_remove (k_fs k) d file_name) (\<lambda>(_, f).
              bind (free_map_release f inode_sector 1) (\<lambda>f. Ok (False, set_fs k f)))
            else Ok (True, k))))))"

definition filesys_open :: "kern \<Rightarrow> nat \<Rightarrow> bytes \<Rightarrow> (nat option \<times> kern) outcome" where
  "filesys_open k junk path =
     (let file_name = file_name_from_path path in
      bind (traverse k junk path) (\<lambda>(dir, k).
      case dir of
        None \<Rightarrow> Ok (None, k)
      | Some d \<Rightarrow>
          if file_name = [] \<and> 47 \<in> set path then file_open k (Some (dir_get_inode d))
          else
            bind (dir_lookup (k_fs k) d file_name) (\<lambda>(ino, f).
            let k = set_fs k f in
            if ino = None then Ok (None, k) else file_open k ino)))"

definition filesys_remove :: "kern \<Rightarrow> nat \<Rightarrow> bytes \<Rightarrow> (bool \<times> kern) outcome" where
  "filesys_remove k junk path =
     (let file_name = file_name_from_path path in
      bind (traverse k junk path) (\<lambda>(dir, k).
      case dir of
        None \<Rightarrow> Ok (False, k)
      | Some d \<Rightarrow> bind (dir_remove (k_fs k) d file_name) (\<lambda>(ok, f). Ok (ok, set_fs k f))))"

section \<open>Start and end\<close>

definition do_format :: "kern \<Rightarrow> bytes \<Rightarrow> kern outcome" where
  "do_format k stack =
     bind (free_map_create k) (\<lambda>(file, k).
     bind (dir_create (k_fs k) ROOT_DIR_SECTOR 0) (\<lambda>(ok, f).
     if \<not> ok then Panic
     else
       bind (dir_open_root f) (\<lambda>(root_dir, f).
       let k = set_fs k f in
       case root_dir of
         None \<Rightarrow> Panic
       | Some d \<Rightarrow>
           bind (add_entry k stack d [46] ROOT_DIR_SECTOR) (\<lambda>(ok, k).
           if \<not> ok then Panic
           else
             bind (add_entry k stack d [46, 46] ROOT_DIR_SECTOR) (\<lambda>(ok, k).
             if \<not> ok then Panic else free_map_close k file)))))"

definition filesys_done :: "kern \<Rightarrow> nat option \<Rightarrow> kern outcome" where
  "filesys_done k free_map_file =
     bind (free_map_close k free_map_file) (\<lambda>k.
     bind (cache_flush (fs_cache (k_fs k))) (\<lambda>c. Ok (set_fs k ((k_fs k)\<lparr>fs_cache := c\<rparr>))))"

text \<open>
  The initialisation up to the daemons.  \<open>dev\<close> is the device with the role
  \<open>BLOCK_FILESYS\<close>; the memory the cache and the bitmap get is given.
\<close>

definition filesys_init ::
  "kern \<Rightarrow> bytes \<Rightarrow> block option \<Rightarrow> (nat \<Rightarrow> bytes option) \<Rightarrow> u32 list option \<Rightarrow> u32 list option \<Rightarrow> bool \<Rightarrow> kern outcome" where
  "filesys_init k stack dev mem qstore storage format =
     (case dev of
        None \<Rightarrow> Panic
      | Some d \<Rightarrow>
          bind (cache_init mem qstore d) (\<lambda>c.
          let k = file_init (set_fs k (inode_init ((k_fs k)\<lparr>fs_cache := c\<rparr>))) in
          bind (free_map_init (b_size d) True storage) (\<lambda>m.
          let k = set_fs k ((k_fs k)\<lparr>fs_free_map := m\<rparr>) in
          bind (if format then do_format k stack else Ok k) (\<lambda>k.
          free_map_open k))))"

end
