(* ===== verification/KList.thy ===== *)
theory KList
  imports Prelude
begin

text \<open>
  Doubly linked lists, \<open>lib/kernel/list.c\<close>.  The two links of every element are in a
  store; elements are named by addresses, 0 is the null pointer, and a list is the
  addresses of its two header elements.  A loop along a list that is not well formed
  may run forever: loops count down \<open>fuel\<close> rounds, and running out of it is \<open>Hang\<close>.
\<close>

section \<open>The data\<close>

record links =
  lprev :: "nat \<Rightarrow> nat"
  lnext :: "nat \<Rightarrow> nat"

record klist =
  l_head :: nat
  l_tail :: nat

definition set_prev :: "nat \<Rightarrow> nat \<Rightarrow> links \<Rightarrow> links" where
  "set_prev e p s = s\<lparr>lprev := (lprev s)(e := p)\<rparr>"

definition set_next :: "nat \<Rightarrow> nat \<Rightarrow> links \<Rightarrow> links" where
  "set_next e p s = s\<lparr>lnext := (lnext s)(e := p)\<rparr>"

lemma link_simps [simp]:
  "lprev (set_prev e p s) = (lprev s)(e := p)" "lnext (set_prev e p s) = lnext s"
  "lnext (set_next e p s) = (lnext s)(e := p)" "lprev (set_next e p s) = lprev s"
  by (simp_all add: set_prev_def set_next_def)

definition is_head :: "links \<Rightarrow> nat \<Rightarrow> bool" where
  "is_head s e \<longleftrightarrow> e \<noteq> 0 \<and> lprev s e = 0 \<and> lnext s e \<noteq> 0"

definition is_interior :: "links \<Rightarrow> nat \<Rightarrow> bool" where
  "is_interior s e \<longleftrightarrow> e \<noteq> 0 \<and> lprev s e \<noteq> 0 \<and> lnext s e \<noteq> 0"

definition is_tail :: "links \<Rightarrow> nat \<Rightarrow> bool" where
  "is_tail s e \<longleftrightarrow> e \<noteq> 0 \<and> lprev s e \<noteq> 0 \<and> lnext s e = 0"

definition list_init :: "links \<Rightarrow> klist \<Rightarrow> links" where
  "list_init s l =
     set_next (l_tail l) 0 (set_prev (l_tail l) (l_head l) (set_next (l_head l) (l_tail l) (set_prev (l_head l) 0 s)))"

definition list_begin :: "links \<Rightarrow> klist \<Rightarrow> nat" where
  "list_begin s l = lnext s (l_head l)"

definition list_next :: "links \<Rightarrow> nat \<Rightarrow> nat outcome" where
  "list_next s e = assert (is_head s e \<or> is_interior s e) (Ok (lnext s e))"

definition list_end :: "klist \<Rightarrow> nat" where
  "list_end l = l_tail l"

definition list_rbegin :: "links \<Rightarrow> klist \<Rightarrow> nat" where
  "list_rbegin s l = lprev s (l_tail l)"

definition list_prev :: "links \<Rightarrow> nat \<Rightarrow> nat outcome" where
  "list_prev s e = assert (is_interior s e \<or> is_tail s e) (Ok (lprev s e))"

definition list_rend :: "klist \<Rightarrow> nat" where
  "list_rend l = l_head l"

definition list_head :: "klist \<Rightarrow> nat" where
  "list_head l = l_head l"

definition list_tail :: "klist \<Rightarrow> nat" where
  "list_tail l = l_tail l"

section \<open>Insertion and removal\<close>

definition list_insert :: "links \<Rightarrow> nat \<Rightarrow> nat \<Rightarrow> links outcome" where
  "list_insert s before e =
     assert (is_interior s before \<or> is_tail s before) (assert (e \<noteq> 0)
     (let s = set_prev e (lprev s before) s;
          s = set_next e before s;
          s = set_next (lprev s before) e s
      in Ok (set_prev before e s)))"

definition list_splice :: "links \<Rightarrow> nat \<Rightarrow> nat \<Rightarrow> nat \<Rightarrow> links outcome" where
  "list_splice s before first lst =
     assert (is_interior s before \<or> is_tail s before)
     (if first = lst then Ok s
      else
        bind (list_prev s lst) (\<lambda>lst.
        assert (is_interior s first) (assert (is_interior s lst)
        (let s = set_next (lprev s first) (lnext s lst) s;
             s = set_prev (lnext s lst) (lprev s first) s;
             s = set_prev first (lprev s before) s;
             s = set_next lst before s;
             s = set_next (lprev s before) first s
         in Ok (set_prev before lst s)))))"

definition list_push_front :: "links \<Rightarrow> klist \<Rightarrow> nat \<Rightarrow> links outcome" where
  "list_push_front s l e = list_insert s (list_begin s l) e"

definition list_push_back :: "links \<Rightarrow> klist \<Rightarrow> nat \<Rightarrow> links outcome" where
  "list_push_back s l e = list_insert s (list_end l) e"

definition list_remove :: "links \<Rightarrow> nat \<Rightarrow> (nat \<times> links) outcome" where
  "list_remove s e =
     assert (is_interior s e)
     (let s = set_next (lprev s e) (lnext s e) s;
          s = set_prev (lnext s e) (lprev s e) s
      in Ok (lnext s e, s))"

definition list_empty :: "links \<Rightarrow> klist \<Rightarrow> bool" where
  "list_empty s l \<longleftrightarrow> list_begin s l = list_end l"

definition list_front :: "links \<Rightarrow> klist \<Rightarrow> nat outcome" where
  "list_front s l = assert (\<not> list_empty s l) (Ok (lnext s (l_head l)))"

definition list_back :: "links \<Rightarrow> klist \<Rightarrow> nat outcome" where
  "list_back s l = assert (\<not> list_empty s l) (Ok (lprev s (l_tail l)))"

definition list_pop_front :: "links \<Rightarrow> klist \<Rightarrow> (nat \<times> links) outcome" where
  "list_pop_front s l = bind (list_front s l) (\<lambda>e. bind (list_remove s e) (\<lambda>(_, s). Ok (e, s)))"

definition list_pop_back :: "links \<Rightarrow> klist \<Rightarrow> (nat \<times> links) outcome" where
  "list_pop_back s l = bind (list_back s l) (\<lambda>e. bind (list_remove s e) (\<lambda>(_, s). Ok (e, s)))"

section \<open>Loops\<close>

fun size_loop :: "nat \<Rightarrow> links \<Rightarrow> klist \<Rightarrow> nat \<Rightarrow> nat \<Rightarrow> nat outcome" where
  "size_loop 0 s l e cnt = Hang"
| "size_loop (Suc fuel) s l e cnt =
     (if e \<noteq> list_end l then bind (list_next s e) (\<lambda>e. size_loop fuel s l e (cnt + 1)) else Ok cnt)"

definition list_size :: "nat \<Rightarrow> links \<Rightarrow> klist \<Rightarrow> nat outcome" where
  "list_size fuel s l = size_loop fuel s l (list_begin s l) 0"

definition swap_links :: "nat \<Rightarrow> links \<Rightarrow> links" where
  "swap_links e s = set_next e (lprev s e) (set_prev e (lnext s e) s)"

fun reverse_loop :: "nat \<Rightarrow> links \<Rightarrow> klist \<Rightarrow> nat \<Rightarrow> links outcome" where
  "reverse_loop 0 s l e = Hang"
| "reverse_loop (Suc fuel) s l e =
     (if e \<noteq> list_end l then let s = swap_links e s in reverse_loop fuel s l (lprev s e) else Ok s)"

definition list_reverse :: "nat \<Rightarrow> links \<Rightarrow> klist \<Rightarrow> links outcome" where
  "list_reverse fuel s l =
     (if \<not> list_empty s l then
        bind (reverse_loop fuel s l (list_begin s l)) (\<lambda>s.
        let h = l_head l; t = l_tail l; a = lnext s h; b = lprev s t;
            s = set_prev t a (set_next h b s);
            x = lnext s h; y = lprev s t; c = lprev s x; d = lnext s y
        in Ok (set_next y c (set_prev x d s)))
      else Ok s)"

text \<open>\<open>lt a b\<close> is the comparison on the elements that contain the two links.\<close>

fun sorted_loop :: "nat \<Rightarrow> links \<Rightarrow> (nat \<Rightarrow> nat \<Rightarrow> bool) \<Rightarrow> nat \<Rightarrow> nat \<Rightarrow> bool outcome" where
  "sorted_loop 0 s lt a b = Hang"
| "sorted_loop (Suc fuel) s lt a b =
     bind (list_next s a) (\<lambda>a.
     if a \<noteq> b then
       bind (list_prev s a) (\<lambda>p. if lt a p then Ok False else sorted_loop fuel s lt a b)
     else Ok True)"

definition is_sorted :: "nat \<Rightarrow> links \<Rightarrow> (nat \<Rightarrow> nat \<Rightarrow> bool) \<Rightarrow> nat \<Rightarrow> nat \<Rightarrow> bool outcome" where
  "is_sorted fuel s lt a b = (if a \<noteq> b then sorted_loop fuel s lt a b else Ok True)"

fun run_loop :: "nat \<Rightarrow> links \<Rightarrow> (nat \<Rightarrow> nat \<Rightarrow> bool) \<Rightarrow> nat \<Rightarrow> nat \<Rightarrow> nat outcome" where
  "run_loop 0 s lt a b = Hang"
| "run_loop (Suc fuel) s lt a b =
     bind (list_next s a) (\<lambda>a.
     if a \<noteq> b then bind (list_prev s a) (\<lambda>p. if \<not> lt a p then run_loop fuel s lt a b else Ok a)
     else Ok a)"

definition find_end_of_run :: "nat \<Rightarrow> links \<Rightarrow> (nat \<Rightarrow> nat \<Rightarrow> bool) \<Rightarrow> nat \<Rightarrow> nat \<Rightarrow> nat outcome" where
  "find_end_of_run fuel s lt a b =
     assert (a \<noteq> 0) (assert (b \<noteq> 0) (assert (a \<noteq> b) (run_loop fuel s lt a b)))"

fun merge_loop :: "nat \<Rightarrow> links \<Rightarrow> (nat \<Rightarrow> nat \<Rightarrow> bool) \<Rightarrow> nat \<Rightarrow> nat \<Rightarrow> nat \<Rightarrow> links outcome" where
  "merge_loop 0 s lt a0 a1b0 b1 = Hang"
| "merge_loop (Suc fuel) s lt a0 a1b0 b1 =
     (if a0 \<noteq> a1b0 \<and> a1b0 \<noteq> b1 then
        if \<not> lt a1b0 a0 then bind (list_next s a0) (\<lambda>a0. merge_loop fuel s lt a0 a1b0 b1)
        else
          bind (list_next s a1b0) (\<lambda>a1b0.
          bind (list_prev s a1b0) (\<lambda>p.
          bind (list_splice s a0 p a1b0) (\<lambda>s. merge_loop fuel s lt a0 a1b0 b1)))
      else Ok s)"

definition inplace_merge :: "nat \<Rightarrow> links \<Rightarrow> (nat \<Rightarrow> nat \<Rightarrow> bool) \<Rightarrow> nat \<Rightarrow> nat \<Rightarrow> nat \<Rightarrow> links outcome" where
  "inplace_merge fuel s lt a0 a1b0 b1 =
     assert (a0 \<noteq> 0) (assert (a1b0 \<noteq> 0) (assert (b1 \<noteq> 0)
     (bind (is_sorted fuel s lt a0 a1b0) (\<lambda>x. assert x
     (bind (is_sorted fuel s lt a1b0 b1) (\<lambda>y. assert y
     (merge_loop fuel s lt a0 a1b0 b1)))))))"

text \<open>One pass of \<open>list_sort\<close>, with the number of runs it has produced.\<close>

fun sort_pass :: "nat \<Rightarrow> nat \<Rightarrow> links \<Rightarrow> klist \<Rightarrow> (nat \<Rightarrow> nat \<Rightarrow> bool) \<Rightarrow> nat \<Rightarrow> nat \<Rightarrow> (nat \<times> links) outcome" where
  "sort_pass fuel 0 s l lt a0 cnt = Hang"
| "sort_pass fuel (Suc n) s l lt a0 cnt =
     (if a0 \<noteq> list_end l then
        bind (find_end_of_run fuel s lt a0 (list_end l)) (\<lambda>a1b0.
        if a1b0 = list_end l then Ok (cnt + 1, s)
        else
          bind (find_end_of_run fuel s lt a1b0 (list_end l)) (\<lambda>b1.
          bind (inplace_merge fuel s lt a0 a1b0 b1) (\<lambda>s.
          sort_pass fuel n s l lt b1 (cnt + 1))))
      else Ok (cnt, s))"

fun sort_loop :: "nat \<Rightarrow> nat \<Rightarrow> links \<Rightarrow> klist \<Rightarrow> (nat \<Rightarrow> nat \<Rightarrow> bool) \<Rightarrow> links outcome" where
  "sort_loop fuel 0 s l lt = Hang"
| "sort_loop fuel (Suc n) s l lt =
     bind (sort_pass fuel fuel s l lt (list_begin s l) 0) (\<lambda>(cnt, s).
     if cnt > 1 then sort_loop fuel n s l lt else Ok s)"

definition list_sort :: "nat \<Rightarrow> links \<Rightarrow> klist \<Rightarrow> (nat \<Rightarrow> nat \<Rightarrow> bool) \<Rightarrow> links outcome" where
  "list_sort fuel s l lt =
     bind (sort_loop fuel fuel s l lt) (\<lambda>s.
     bind (is_sorted fuel s lt (list_begin s l) (list_end l)) (\<lambda>x. assert x (Ok s)))"

fun insert_loop :: "nat \<Rightarrow> links \<Rightarrow> klist \<Rightarrow> nat \<Rightarrow> (nat \<Rightarrow> nat \<Rightarrow> bool) \<Rightarrow> nat \<Rightarrow> nat outcome" where
  "insert_loop 0 s l elem lt e = Hang"
| "insert_loop (Suc fuel) s l elem lt e =
     (if e \<noteq> list_end l then
        if lt elem e then Ok e else bind (list_next s e) (\<lambda>e. insert_loop fuel s l elem lt e)
      else Ok e)"

definition list_insert_ordered :: "nat \<Rightarrow> links \<Rightarrow> klist \<Rightarrow> nat \<Rightarrow> (nat \<Rightarrow> nat \<Rightarrow> bool) \<Rightarrow> links outcome" where
  "list_insert_ordered fuel s l elem lt =
     assert (elem \<noteq> 0) (bind (insert_loop fuel s l elem lt (list_begin s l)) (\<lambda>e. list_insert s e elem))"

fun unique_loop :: "nat \<Rightarrow> links \<Rightarrow> klist \<Rightarrow> klist option \<Rightarrow> (nat \<Rightarrow> nat \<Rightarrow> bool) \<Rightarrow> nat \<Rightarrow> links outcome" where
  "unique_loop 0 s l dups lt elem = Hang"
| "unique_loop (Suc fuel) s l dups lt elem =
     bind (list_next s elem) (\<lambda>nxt.
     if nxt \<noteq> list_end l then
       if \<not> lt elem nxt \<and> \<not> lt nxt elem then
         bind (list_remove s nxt) (\<lambda>(_, s).
         bind (case dups of None \<Rightarrow> Ok s | Some d \<Rightarrow> list_push_back s d nxt) (\<lambda>s.
         unique_loop fuel s l dups lt elem))
       else unique_loop fuel s l dups lt nxt
     else Ok s)"

definition list_unique :: "nat \<Rightarrow> links \<Rightarrow> klist \<Rightarrow> klist option \<Rightarrow> (nat \<Rightarrow> nat \<Rightarrow> bool) \<Rightarrow> links outcome" where
  "list_unique fuel s l dups lt =
     (if list_empty s l then Ok s else unique_loop fuel s l dups lt (list_begin s l))"

fun max_loop :: "nat \<Rightarrow> links \<Rightarrow> klist \<Rightarrow> (nat \<Rightarrow> nat \<Rightarrow> bool) \<Rightarrow> nat \<Rightarrow> nat \<Rightarrow> nat outcome" where
  "max_loop 0 s l lt m e = Hang"
| "max_loop (Suc fuel) s l lt m e =
     (if e \<noteq> list_end l then
        bind (list_next s e) (\<lambda>e'. max_loop fuel s l lt (if lt m e then e else m) e')
      else Ok m)"

definition list_max :: "nat \<Rightarrow> links \<Rightarrow> klist \<Rightarrow> (nat \<Rightarrow> nat \<Rightarrow> bool) \<Rightarrow> nat outcome" where
  "list_max fuel s l lt =
     (let m = list_begin s l in
      if m \<noteq> list_end l then bind (list_next s m) (\<lambda>e. max_loop fuel s l lt m e) else Ok m)"

fun min_loop :: "nat \<Rightarrow> links \<Rightarrow> klist \<Rightarrow> (nat \<Rightarrow> nat \<Rightarrow> bool) \<Rightarrow> nat \<Rightarrow> nat \<Rightarrow> nat outcome" where
  "min_loop 0 s l lt m e = Hang"
| "min_loop (Suc fuel) s l lt m e =
     (if e \<noteq> list_end l then
        bind (list_next s e) (\<lambda>e'. min_loop fuel s l lt (if lt e m then e else m) e')
      else Ok m)"

definition list_min :: "nat \<Rightarrow> links \<Rightarrow> klist \<Rightarrow> (nat \<Rightarrow> nat \<Rightarrow> bool) \<Rightarrow> nat outcome" where
  "list_min fuel s l lt =
     (let m = list_begin s l in
      if m \<noteq> list_end l then bind (list_next s m) (\<lambda>e. min_loop fuel s l lt m e) else Ok m)"

end
