(* ===== verification/KListSpec.thy ===== *)
theory KListSpec
  imports KList
begin

text \<open>
  What the operations of \<open>lib/kernel/list.c\<close> do to the sequence of the elements of a
  list.  \<open>ring s ys\<close> says that the cells \<open>ys\<close>, the two headers included, are linked in this
  order; every operation is shown to take rings to rings.
\<close>

section \<open>Linked cells\<close>

fun linked :: "links \<Rightarrow> nat list \<Rightarrow> bool" where
  "linked s (x # y # zs) \<longleftrightarrow> lnext s x = y \<and> lprev s y = x \<and> linked s (y # zs)"
| "linked s _ \<longleftrightarrow> True"

definition ring :: "links \<Rightarrow> nat list \<Rightarrow> bool" where
  "ring s ys \<longleftrightarrow> linked s ys \<and> lprev s (hd ys) = 0 \<and> lnext s (last ys) = 0 \<and> distinct ys \<and> 0 \<notin> set ys \<and> ys \<noteq> []"

definition cells :: "klist \<Rightarrow> nat list \<Rightarrow> nat list" where
  "cells l xs = l_head l # xs @ [l_tail l]"

definition dll :: "links \<Rightarrow> klist \<Rightarrow> nat list \<Rightarrow> bool" where
  "dll s l xs \<longleftrightarrow> ring s (cells l xs)"

lemma linked_append: "linked s (xs @ y # zs) \<longleftrightarrow> linked s (xs @ [y]) \<and> linked s (y # zs)"
  by (induction xs rule: induct_list012) auto

lemma linked_Cons: "linked s (x # ys) \<longleftrightarrow> ys = [] \<or> lnext s x = hd ys \<and> lprev s (hd ys) = x \<and> linked s ys"
  by (cases ys) auto

lemma linked_snoc: "linked s (xs @ [y]) \<longleftrightarrow> xs = [] \<or> linked s xs \<and> lnext s (last xs) = y \<and> lprev s y = last xs"
  by (induction xs rule: induct_list012) auto

lemma linked_glue:
  "xs \<noteq> [] \<Longrightarrow> ys \<noteq> [] \<Longrightarrow>
     linked s (xs @ ys) \<longleftrightarrow> linked s xs \<and> lnext s (last xs) = hd ys \<and> lprev s (hd ys) = last xs \<and> linked s ys"
proof (cases ys)
  case (Cons y zs)
  assume "xs \<noteq> []"
  with Cons show ?thesis using linked_append [of s xs y zs] by (auto simp: linked_snoc)
qed simp

lemma linked_set_next [simp]: "e \<notin> set ys \<or> e = last ys \<and> distinct ys \<Longrightarrow> linked (set_next e p s) ys \<longleftrightarrow> linked s ys"
proof (induction ys rule: induct_list012)
  case (3 x y zs)
  have "e \<noteq> x" using 3(3) last_in_set [of "y # zs"] by auto
  moreover have "e \<notin> set (y # zs) \<or> e = last (y # zs) \<and> distinct (y # zs)" using 3(3) by auto
  ultimately show ?case using 3(2) by simp
qed auto

lemma linked_set_prev [simp]: "e \<notin> set ys \<or> e = hd ys \<and> distinct ys \<Longrightarrow> linked (set_prev e p s) ys \<longleftrightarrow> linked s ys"
proof (induction ys rule: induct_list012)
  case (3 x y zs)
  then show ?case by (cases "e = x") auto
qed auto

lemma linked_prev_in: "linked s (x # ys) \<Longrightarrow> y \<in> set ys \<Longrightarrow> lprev s y \<in> set (x # ys)"
  by (induction ys arbitrary: x) auto

lemma linked_next_in: "linked s (xs @ [y]) \<Longrightarrow> x \<in> set xs \<Longrightarrow> lnext s x \<in> set (xs @ [y])"
proof (induction xs)
  case (Cons z xs)
  then show ?case by (cases xs) auto
qed simp

text \<open>Stores that agree on some cells.\<close>

definition same_on :: "nat set \<Rightarrow> links \<Rightarrow> links \<Rightarrow> bool" where
  "same_on A s s' \<longleftrightarrow> (\<forall>x\<in>A. lprev s' x = lprev s x \<and> lnext s' x = lnext s x)"

lemma ring_same_on:
  assumes "ring s ys" "same_on (set ys) s s'"
  shows "ring s' ys"
proof -
  have "linked s zs \<Longrightarrow> set zs \<subseteq> set ys \<Longrightarrow> linked s' zs" for zs
    using assms(2) by (induction zs rule: induct_list012) (auto simp: same_on_def)
  with assms show ?thesis by (auto simp: ring_def same_on_def)
qed

section \<open>Moving along a list\<close>

lemma ring_nz: "ring s ys \<Longrightarrow> x \<in> set ys \<Longrightarrow> x \<noteq> 0"
  unfolding ring_def by metis

lemma ring_links:
  assumes "ring s (us @ x # y # vs)"
  shows "lnext s x = y" "lprev s y = x" "x \<noteq> 0" "y \<noteq> 0" "x \<noteq> y"
  using assms linked_append [of s us x "y # vs"] by (auto simp: ring_def)

lemma ring_next:
  assumes "ring s (us @ x # y # vs)"
  shows "list_next s x = Ok y"
proof -
  note k = ring_links [OF assms]
  then have "is_head s x \<or> is_interior s x" by (auto simp: is_head_def is_interior_def)
  with k show ?thesis by (simp add: list_next_def)
qed

lemma ring_prev:
  assumes "ring s (us @ x # y # vs)"
  shows "list_prev s y = Ok x"
proof -
  note k = ring_links [OF assms]
  then have "is_interior s y \<or> is_tail s y" by (auto simp: is_tail_def is_interior_def)
  with k show ?thesis by (simp add: list_prev_def)
qed

lemma ring_interior:
  assumes "ring s (us @ x # e # y # vs)"
  shows "is_interior s e" "lprev s e = x" "lnext s e = y"
  using ring_links [of s us x e "y # vs"] ring_links [of s "us @ [x]" e y vs] assms by (auto simp: is_interior_def)

section \<open>Insertion, removal, splicing\<close>

lemma ring_insert:
  assumes r: "ring s (us @ p # b # vs)" and e: "e \<noteq> 0" "e \<notin> set (us @ p # b # vs)"
  shows "\<exists>s'. list_insert s b e = Ok s' \<and> ring s' (us @ p # e # b # vs) \<and> same_on (- (set (us @ p # b # vs) \<union> {e})) s s'"
proof -
  note k = ring_links [OF r]
  have i: "is_interior s b \<or> is_tail s b" using k by (auto simp: is_interior_def is_tail_def)
  let ?s = "set_prev b e (set_next p e (set_next e b (set_prev e p s)))"
  have d: "distinct (us @ p # b # vs)" "linked s (us @ [p])" "linked s (b # vs)"
    using r linked_append [of s us p "b # vs"] by (auto simp: ring_def)
  have "linked ?s (us @ [p])" using d e by simp
  moreover have "linked ?s (b # vs)" using d e by simp
  ultimately have "linked ?s (us @ p # e # b # vs)"
    using k e d linked_append [of ?s us p "e # b # vs"] by auto
  moreover have "lprev ?s (hd (us @ p # e # b # vs)) = 0" using r e by (cases us) (auto simp: ring_def)
  moreover have "lnext ?s (last (us @ p # e # b # vs)) = 0" using r e by (auto simp: ring_def)
  ultimately have "ring ?s (us @ p # e # b # vs)" using r e by (auto simp: ring_def)
  moreover have "list_insert s b e = Ok ?s" using i e k by (simp add: list_insert_def Let_def)
  moreover have "same_on (- (set (us @ p # b # vs) \<union> {e})) s ?s" by (auto simp: same_on_def)
  ultimately show ?thesis by blast
qed

lemma ring_remove:
  assumes r: "ring s (us @ p # e # b # vs)"
  shows "\<exists>s'. list_remove s e = Ok (b, s') \<and> ring s' (us @ p # b # vs) \<and> same_on (- set (us @ p # b # vs)) s s'"
proof -
  note k = ring_interior [OF r]
  let ?s = "set_prev b p (set_next p b s)"
  have d: "distinct (us @ p # e # b # vs)" "linked s (us @ [p])" "linked s (b # vs)"
    using r linked_append [of s us p "e # b # vs"] by (auto simp: ring_def)
  have "linked ?s (us @ [p])" "linked ?s (b # vs)" using d by simp_all
  then have "linked ?s (us @ p # b # vs)" using d linked_append [of ?s us p "b # vs"] by auto
  moreover have "lprev ?s (hd (us @ p # b # vs)) = 0" using r by (cases us) (auto simp: ring_def)
  moreover have "lnext ?s (last (us @ p # b # vs)) = 0" using r by (auto simp: ring_def)
  ultimately have "ring ?s (us @ p # b # vs)" using r by (auto simp: ring_def)
  moreover have "list_remove s e = Ok (b, ?s)" using k d by (simp add: list_remove_def Let_def)
  moreover have "same_on (- set (us @ p # b # vs)) s ?s" by (auto simp: same_on_def)
  ultimately show ?thesis by blast
qed

text \<open>Moving a later segment \<open>fs\<close> to a place before \<open>a\<close>.\<close>

lemma splice_links:
  assumes "is_interior s a \<or> is_tail s a" "is_interior s f" "is_interior s g" "list_prev s n = Ok g"
    and "lprev s f = q" "lnext s g = n" "lprev s a = p" "f \<noteq> n" "a \<noteq> n" "a \<noteq> f" "g \<noteq> q"
  shows "list_splice s a f n =
    Ok (set_prev a g (set_next p f (set_next g a (set_prev f p (set_prev n q (set_next q n s))))))"
  using assms by (simp add: list_splice_def Let_def)

lemma ring_splice:
  assumes r: "ring s (us @ p # (a # vs) @ fs @ n # ws)" and fs: "fs \<noteq> []"
  shows "\<exists>s'. list_splice s a (hd fs) n = Ok s' \<and> ring s' (us @ p # fs @ (a # vs) @ n # ws)
    \<and> same_on (- set (us @ p # (a # vs) @ fs @ n # ws)) s s'"
proof -
  define q f g as' where D: "q = last as'" "f = hd fs" "g = last fs" "as' = a # vs"
  have mem: "f \<in> set fs" "g \<in> set fs" "q \<in> set as'" "a \<in> set as'" "as' \<noteq> []" "hd as' = a" using fs by (simp_all add: D)
  have d: "distinct (us @ p # as' @ fs @ n # ws)" "0 \<notin> set (us @ p # as' @ fs @ n # ws)"
    using r by (simp_all add: ring_def D)
  have l: "linked s (us @ [p])" "linked s (p # as' @ fs @ n # ws)"
    using r linked_append [of s us p "as' @ fs @ n # ws"] by (auto simp: ring_def D)
  have l2: "lnext s p = a" "lprev s a = p" "linked s as'" "lnext s q = f" "lprev s f = q"
      "linked s fs" "lnext s g = n" "lprev s n = g" "linked s (n # ws)"
    using l(2) fs mem linked_glue [of "[p]" "as' @ fs @ n # ws" s] linked_glue [of as' "fs @ n # ws" s]
      linked_glue [of fs "n # ws" s] by (auto simp: D(1-3))
  have ne: "f \<noteq> n" "a \<noteq> n" "a \<noteq> f" "g \<noteq> q" "g \<noteq> p" "q \<noteq> p" "a \<noteq> 0" "p \<noteq> 0" "f \<noteq> 0" "g \<noteq> 0" "n \<noteq> 0" "q \<noteq> 0" "g \<noteq> n"
    using d mem by auto
  have lq: "linked s (q # fs)" "linked s (fs @ [n])"
    using l2 fs by (auto simp: linked_Cons linked_snoc D(2,3))
  have "lprev s g \<in> set (q # fs)" "lnext s f \<in> set (fs @ [n])"
    using linked_prev_in [OF lq(1) mem(2)] linked_next_in [OF lq(2) mem(1)] by auto
  moreover have "0 \<notin> set (q # fs)" "0 \<notin> set (fs @ [n])" using d(2) ne by auto
  ultimately have "lprev s g \<noteq> 0" "lnext s f \<noteq> 0" by metis+
  then have k: "is_interior s f" "is_interior s g" using l2(5,7) ne by (simp_all add: is_interior_def)
  have ka: "is_interior s a \<or> is_tail s a" using l2(2) ne by (auto simp: is_interior_def is_tail_def)
  have kn: "list_prev s n = Ok g"
    using l2(8) ne by (cases "lnext s n = 0") (simp_all add: list_prev_def is_interior_def is_tail_def)
  define s' where "s' = set_prev a g (set_next p f (set_next g a (set_prev f p (set_prev n q (set_next q n s)))))"
  have res: "list_splice s a f n = Ok s'"
    unfolding s'_def by (rule splice_links [OF ka k kn l2(5,7,2) ne(1-4)])
  have o: "set (us @ [p]) \<inter> {a, f, g, q, n} = {}" "set as' \<inter> {p, f, g, n} = {}" "set fs \<inter> {p, a, q, n} = {}"
      "set (n # ws) \<inter> {p, a, f, g, q} = {}" "distinct as'" "distinct fs" "distinct (us @ [p])" "distinct (n # ws)"
    using d(1) mem by auto
  have "linked s' (us @ [p])" unfolding s'_def using l(1) o(1,7) by simp
  moreover have "linked s' as'" unfolding s'_def using l2(3) o(2,5) mem(6) D(1) by simp
  moreover have "linked s' fs" unfolding s'_def using l2(6) o(3,6) D(2,3) by simp
  moreover have "linked s' (n # ws)" unfolding s'_def using l2(9) o(4,8) by simp
  moreover have "lnext s' p = f" "lprev s' f = p" "lnext s' g = a" "lprev s' a = g" "lnext s' q = n" "lprev s' n = q"
    using ne d mem by (auto simp: s'_def)
  ultimately have "linked s' (us @ p # fs @ as' @ n # ws)"
    using fs mem linked_glue [of "us @ [p]" "fs @ as' @ n # ws" s'] linked_glue [of fs "as' @ n # ws" s']
      linked_glue [of as' "n # ws" s'] by (simp add: D(1-3))
  moreover have "lprev s' (hd (us @ p # fs @ as' @ n # ws)) = 0"
    using r d mem by (cases us) (auto simp: ring_def s'_def)
  moreover have "lnext s' (last (us @ p # fs @ as' @ n # ws)) = 0"
    using r d mem by (auto simp: ring_def s'_def)
  moreover have "distinct (us @ p # fs @ as' @ n # ws)" using d by auto
  ultimately have "ring s' (us @ p # fs @ as' @ n # ws)" using d by (auto simp: ring_def)
  moreover have "same_on (- set (us @ p # as' @ fs @ n # ws)) s s'" using mem by (auto simp: same_on_def s'_def)
  ultimately show ?thesis using res unfolding D by blast
qed

section \<open>The operations on the sequence of a list\<close>

lemma list_init_dll:
  assumes "l_head l \<noteq> 0" "l_tail l \<noteq> 0" "l_head l \<noteq> l_tail l"
  shows "dll (list_init s l) l []"
  using assms by (simp add: dll_def cells_def ring_def list_init_def)

lemma dll_begin: "dll s l xs \<Longrightarrow> list_begin s l = hd (xs @ [l_tail l])"
  by (cases xs) (auto simp: dll_def cells_def ring_def list_begin_def)

lemma dll_rbegin: "dll s l xs \<Longrightarrow> list_rbegin s l = last (l_head l # xs)"
  unfolding dll_def cells_def ring_def list_rbegin_def using linked_snoc [of s "l_head l # xs" "l_tail l"] by simp

lemma dll_distinct: "dll s l xs \<Longrightarrow> distinct (cells l xs) \<and> 0 \<notin> set (cells l xs)"
  by (simp add: dll_def ring_def)

lemma dll_empty: "dll s l xs \<Longrightarrow> list_empty s l \<longleftrightarrow> xs = []"
  using dll_distinct [of s l xs] by (cases xs) (auto simp: list_empty_def list_end_def dll_begin cells_def)

lemma dll_front: "dll s l xs \<Longrightarrow> list_front s l = (if xs = [] then Panic else Ok (hd xs))"
  using dll_begin [of s l xs] by (cases xs) (auto simp: list_front_def dll_empty list_begin_def)

lemma dll_back: "dll s l xs \<Longrightarrow> list_back s l = (if xs = [] then Panic else Ok (last xs))"
  using dll_rbegin [of s l xs] by (auto simp: list_back_def dll_empty list_rbegin_def)

lemma dll_same_on: "dll s l xs \<Longrightarrow> same_on (set (cells l xs)) s s' \<Longrightarrow> dll s' l xs"
  unfolding dll_def by (rule ring_same_on)

text \<open>\<open>touch l xs s s'\<close>: nothing outside the list \<open>l\<close> and its elements \<open>xs\<close> is written.\<close>

definition touch :: "klist \<Rightarrow> nat list \<Rightarrow> links \<Rightarrow> links \<Rightarrow> bool" where
  "touch l xs s s' \<longleftrightarrow> same_on (- set (cells l xs)) s s'"

lemma touch_other:
  assumes "touch l xs s s'" "dll s m ys" "set (cells l xs) \<inter> set (cells m ys) = {}"
  shows "dll s' m ys"
  using assms(1,3) by (intro dll_same_on [OF assms(2)]) (auto simp: touch_def same_on_def)

lemma cells_split:
  obtains us p vs where "cells l (xs @ ys) = us @ p # hd (ys @ [l_tail l]) # vs"
    "\<And>e. cells l (xs @ e # ys) = us @ p # e # hd (ys @ [l_tail l]) # vs"
proof -
  let ?us = "butlast (l_head l # xs)" and ?p = "last (l_head l # xs)"
  have "l_head l # xs = ?us @ [?p]" by (rule append_butlast_last_id [symmetric]) simp
  then have h: "l_head l # xs @ zs = ?us @ ?p # zs" for zs
    by (metis append.assoc append_Cons append_Nil)
  have t: "ys @ [l_tail l] = hd (ys @ [l_tail l]) # tl (ys @ [l_tail l])" by simp
  have "cells l (xs @ ys) = ?us @ ?p # ys @ [l_tail l]" "cells l (xs @ e # ys) = ?us @ ?p # e # ys @ [l_tail l]" for e
    unfolding cells_def append_assoc append_Cons h by simp_all
  with t that show ?thesis by metis
qed

lemma dll_insert:
  assumes "dll s l (xs @ ys)" "e \<noteq> 0" "e \<notin> set (cells l (xs @ ys))"
  shows "\<exists>s'. list_insert s (hd (ys @ [l_tail l])) e = Ok s' \<and> dll s' l (xs @ e # ys) \<and> touch l (e # xs @ ys) s s'"
proof -
  obtain us p vs where c: "cells l (xs @ ys) = us @ p # hd (ys @ [l_tail l]) # vs"
    "\<And>e. cells l (xs @ e # ys) = us @ p # e # hd (ys @ [l_tail l]) # vs" using cells_split [of l xs ys] by metis
  have "set (cells l (xs @ ys)) \<union> {e} = set (cells l (e # xs @ ys))" by (auto simp: cells_def)
  with ring_insert [of s us p "hd (ys @ [l_tail l])" vs e] assms c show ?thesis
    unfolding dll_def touch_def by metis
qed

lemma dll_remove:
  assumes "dll s l (xs @ e # ys)"
  shows "\<exists>s'. list_remove s e = Ok (hd (ys @ [l_tail l]), s') \<and> dll s' l (xs @ ys) \<and> touch l (xs @ ys) s s'"
proof -
  obtain us p vs where c: "cells l (xs @ ys) = us @ p # hd (ys @ [l_tail l]) # vs"
    "\<And>e. cells l (xs @ e # ys) = us @ p # e # hd (ys @ [l_tail l]) # vs" using cells_split [of l xs ys] by metis
  with ring_remove [of s us p e "hd (ys @ [l_tail l])" vs] assms show ?thesis
    unfolding dll_def touch_def by metis
qed

lemma dll_push_front:
  assumes "dll s l xs" "e \<noteq> 0" "e \<notin> set (cells l xs)"
  shows "\<exists>s'. list_push_front s l e = Ok s' \<and> dll s' l (e # xs) \<and> touch l (e # xs) s s'"
  using dll_insert [of s l "[]" xs e] assms by (simp add: list_push_front_def dll_begin)

lemma dll_push_back:
  assumes "dll s l xs" "e \<noteq> 0" "e \<notin> set (cells l xs)"
  shows "\<exists>s'. list_push_back s l e = Ok s' \<and> dll s' l (xs @ [e]) \<and> touch l (e # xs) s s'"
  using dll_insert [of s l xs "[]" e] assms by (simp add: list_push_back_def list_end_def)

lemma dll_pop_front:
  assumes "dll s l (x # xs)"
  shows "\<exists>s'. list_pop_front s l = Ok (x, s') \<and> dll s' l xs \<and> touch l xs s s'"
  using dll_remove [of s l "[]" x xs] assms by (auto simp: list_pop_front_def dll_front)

lemma dll_pop_back:
  assumes "dll s l (xs @ [x])"
  shows "\<exists>s'. list_pop_back s l = Ok (x, s') \<and> dll s' l xs \<and> touch l xs s s'"
  using dll_remove [of s l xs x "[]"] assms by (auto simp: list_pop_back_def dll_back)

end
