(* ===== verification/KListOps.thy ===== *)
theory KListOps
  imports KListSpec
begin

text \<open>
  The loops of \<open>lib/kernel/list.c\<close> on the sequence of a list: size, reversal, ordered
  insertion, removal of duplicates, extrema.  Each lemma also says how many rounds are
  enough, so that the loop ends.
\<close>

lemma dll_next:
  assumes "dll s l (xs @ x # ys)"
  shows "list_next s x = Ok (hd (ys @ [l_tail l]))"
  using assms ring_next [of s "l_head l # xs" x "hd (ys @ [l_tail l])" "tl (ys @ [l_tail l])"]
  by (simp add: dll_def cells_def)

lemma dll_at_end:
  assumes "dll s l (xs @ ys)"
  shows "hd (ys @ [l_tail l]) = list_end l \<longleftrightarrow> ys = []"
  using dll_distinct [OF assms] by (cases ys) (auto simp: list_end_def cells_def)

section \<open>A list as a double-ended queue\<close>

text \<open>Pushing some elements one after the other, and popping a number of them.\<close>

fun push_each :: "('s \<Rightarrow> 'a \<Rightarrow> 's outcome) \<Rightarrow> 's \<Rightarrow> 'a list \<Rightarrow> 's outcome" where
  "push_each f s [] = Ok s"
| "push_each f s (e # es) = bind (f s e) (\<lambda>s. push_each f s es)"

fun pop_many :: "('s \<Rightarrow> ('a \<times> 's) outcome) \<Rightarrow> 's \<Rightarrow> nat \<Rightarrow> ('a list \<times> 's) outcome" where
  "pop_many f s 0 = Ok ([], s)"
| "pop_many f s (Suc n) = bind (f s) (\<lambda>(e, s). bind (pop_many f s n) (\<lambda>(es, s). Ok (e # es, s)))"

text \<open>The contract of the intrusive list: an element may be pushed when it is in no list.\<close>

locale deque =
  fixes rep :: "'s \<Rightarrow> 'a list \<Rightarrow> bool"
    and valid :: "'a \<Rightarrow> bool"
    and push_front push_back :: "'s \<Rightarrow> 'a \<Rightarrow> 's outcome"
    and pop_front pop_back :: "'s \<Rightarrow> ('a \<times> 's) outcome"
  assumes push_front: "rep s xs \<Longrightarrow> valid e \<Longrightarrow> e \<notin> set xs \<Longrightarrow> \<exists>s'. push_front s e = Ok s' \<and> rep s' (e # xs)"
    and push_back: "rep s xs \<Longrightarrow> valid e \<Longrightarrow> e \<notin> set xs \<Longrightarrow> \<exists>s'. push_back s e = Ok s' \<and> rep s' (xs @ [e])"
    and pop_front: "rep s (x # xs) \<Longrightarrow> \<exists>s'. pop_front s = Ok (x, s') \<and> rep s' xs"
    and pop_back: "rep s (xs @ [x]) \<Longrightarrow> \<exists>s'. pop_back s = Ok (x, s') \<and> rep s' xs"
    and pop_empty: "rep s [] \<Longrightarrow> pop_front s = Panic \<and> pop_back s = Panic"
begin

lemma push_back_each:
  "rep s xs \<Longrightarrow> \<forall>e\<in>set es. valid e \<Longrightarrow> distinct (xs @ es) \<Longrightarrow> \<exists>s'. push_each push_back s es = Ok s' \<and> rep s' (xs @ es)"
proof (induction es arbitrary: s xs)
  case (Cons e es)
  obtain s' where "push_back s e = Ok s'" "rep s' (xs @ [e])" using push_back [of s xs e] Cons by auto
  then show ?case using Cons(1) [of s' "xs @ [e]"] Cons(3,4) by auto
qed simp

lemma push_front_each:
  "rep s xs \<Longrightarrow> \<forall>e\<in>set es. valid e \<Longrightarrow> distinct (xs @ es) \<Longrightarrow> \<exists>s'. push_each push_front s es = Ok s' \<and> rep s' (rev es @ xs)"
proof (induction es arbitrary: s xs)
  case (Cons e es)
  obtain s' where "push_front s e = Ok s'" "rep s' (e # xs)" using push_front [of s xs e] Cons by auto
  then show ?case using Cons(1) [of s' "e # xs"] Cons(3,4) by auto
qed simp

lemma pop_front_many: "rep s (xs @ ys) \<Longrightarrow> \<exists>s'. pop_many pop_front s (length xs) = Ok (xs, s') \<and> rep s' ys"
proof (induction xs arbitrary: s)
  case (Cons x xs)
  then show ?case using pop_front [of s x "xs @ ys"] by fastforce
qed simp

lemma fifo:
  assumes "rep s xs" "\<forall>e\<in>set es. valid e" "distinct (xs @ es)"
  shows "\<exists>s' s''. push_each push_back s es = Ok s' \<and> pop_many pop_front s' (length (xs @ es)) = Ok (xs @ es, s'') \<and> rep s'' []"
  using push_back_each [OF assms] pop_front_many [of _ "xs @ es" "[]"] by fastforce

lemma lifo:
  assumes "rep s xs" "\<forall>e\<in>set es. valid e" "distinct (xs @ es)"
  shows "\<exists>s' s''. push_each push_front s es = Ok s' \<and> pop_many pop_front s' (length es) = Ok (rev es, s'') \<and> rep s'' xs"
  using push_front_each [OF assms] pop_front_many [of _ "rev es" xs] by fastforce

end

text \<open>The list of \<open>list.c\<close> keeps it for every pair of headers.\<close>

interpretation ld: deque "\<lambda>s. dll s l" "\<lambda>e. e \<noteq> 0 \<and> e \<noteq> l_head l \<and> e \<noteq> l_tail l"
  "\<lambda>s. list_push_front s l" "\<lambda>s. list_push_back s l" "\<lambda>s. list_pop_front s l" "\<lambda>s. list_pop_back s l"
  for l
proof (unfold_locales, goal_cases)
  case (1 s xs e)
  then show ?case using dll_push_front [of s l xs e] by (auto simp: cells_def)
next
  case (2 s xs e)
  then show ?case using dll_push_back [of s l xs e] by (auto simp: cells_def)
next
  case (3 s x xs)
  then show ?case using dll_pop_front by blast
next
  case (4 s xs x)
  then show ?case using dll_pop_back by blast
next
  case (5 s)
  then show ?case by (simp add: list_pop_front_def list_pop_back_def dll_front dll_back)
qed

section \<open>Size\<close>

lemma size_loop_dll:
  assumes "dll s l (xs @ ys)" "length ys < fuel"
  shows "size_loop fuel s l (hd (ys @ [l_tail l])) cnt = Ok (cnt + length ys)"
  using assms
proof (induction ys arbitrary: xs cnt fuel)
  case Nil
  then show ?case using dll_at_end [OF Nil(1)] by (cases fuel) auto
next
  case (Cons y ys)
  obtain n where n: "fuel = Suc n" using Cons(3) by (cases fuel) auto
  have "y \<noteq> list_end l" using dll_at_end [OF Cons(2)] by simp
  then show ?case using Cons(1) [of "xs @ [y]" n] Cons(2,3) n dll_next [OF Cons(2)] by simp
qed

lemma list_size_dll: "dll s l xs \<Longrightarrow> length xs < fuel \<Longrightarrow> list_size fuel s l = Ok (length xs)"
  using size_loop_dll [of s l "[]" xs fuel 0] by (simp add: list_size_def dll_begin)

section \<open>Reversal\<close>

lemma swap_links_simps [simp]:
  "lprev (swap_links e s) = (lprev s)(e := lnext s e)" "lnext (swap_links e s) = (lnext s)(e := lprev s e)"
  by (simp_all add: swap_links_def)

text \<open>The loop exchanges the links of the elements and of nothing else.\<close>

definition swapped :: "nat set \<Rightarrow> links \<Rightarrow> links \<Rightarrow> bool" where
  "swapped A s s' \<longleftrightarrow>
     (\<forall>e. lprev s' e = (if e \<in> A then lnext s e else lprev s e) \<and> lnext s' e = (if e \<in> A then lprev s e else lnext s e))"

lemma reverse_loop_swapped:
  assumes "linked s (ys @ [l_tail l])" "distinct (ys @ [l_tail l])" "length ys < fuel"
  shows "\<exists>s'. reverse_loop fuel s l (hd (ys @ [l_tail l])) = Ok s' \<and> swapped (set ys) s s'"
  using assms
proof (induction ys arbitrary: s fuel)
  case Nil
  then show ?case by (cases fuel) (auto simp: list_end_def swapped_def)
next
  case (Cons y ys)
  obtain n where n: "fuel = Suc n" using Cons(4) by (cases fuel) auto
  have y: "y \<noteq> l_tail l" "y \<notin> set (ys @ [l_tail l])" using Cons(3) by auto
  have nx: "lnext s y = hd (ys @ [l_tail l])" "linked s (ys @ [l_tail l])"
    using Cons(2) by (auto simp: linked_Cons)
  have "linked (swap_links y s) (ys @ [l_tail l])" using nx(2) y(2) by (simp add: swap_links_def)
  from Cons(1) [OF this, of n] Cons(3,4) n obtain s' where
    "reverse_loop n (swap_links y s) l (hd (ys @ [l_tail l])) = Ok s'" "swapped (set ys) (swap_links y s) s'" by auto
  moreover from this(2) y(2) have "swapped (set (y # ys)) s s'" by (auto simp: swapped_def)
  ultimately show ?case using n y(1) nx(1) by (simp add: list_end_def)
qed

lemma swapped_linked:
  assumes "swapped A s s'" "linked s xs" "set xs \<subseteq> A"
  shows "linked s' (rev xs)"
  using assms
proof (induction xs rule: induct_list012)
  case (3 x y zs)
  then show ?case using linked_snoc [of s' "rev zs @ [y]" x] by (auto simp: swapped_def)
qed auto

lemma list_reverse_dll:
  assumes d: "dll s l xs" and f: "length xs < fuel"
  shows "\<exists>s'. list_reverse fuel s l = Ok s' \<and> dll s' l (rev xs) \<and> touch l xs s s'"
proof (cases "xs = []")
  case True
  then show ?thesis using d by (auto simp: list_reverse_def dll_empty touch_def same_on_def)
next
  case False
  let ?h = "l_head l" and ?t = "l_tail l"
  define a b where ab: "a = hd xs" "b = last xs"
  have lk: "linked s (xs @ [?t])" "linked s xs" "lnext s ?h = a" "lprev s ?t = b" "lprev s ?h = 0" "lnext s ?t = 0"
    using d False linked_snoc [of s xs ?t] by (auto simp: dll_def ring_def cells_def linked_Cons ab)
  have ds: "distinct (?h # xs @ [?t])" "0 \<notin> set (?h # xs @ [?t])" using d by (auto simp: dll_def ring_def cells_def)
  have m: "a \<in> set xs" "b \<in> set xs" using False by (simp_all add: ab)
  obtain s1 where s1: "reverse_loop fuel s l (hd (xs @ [?t])) = Ok s1" "swapped (set xs) s s1"
    using reverse_loop_swapped [OF lk(1) _ f] ds by auto
  define s2 where "s2 = set_next a ?t (set_prev b ?h (set_prev ?t a (set_next ?h b s1)))"
  have sw: "lnext s1 ?h = a" "lprev s1 ?t = b" "lprev s1 ?h = 0" "lnext s1 ?t = 0" "lnext s1 a = lprev s a" "lprev s1 b = lnext s b"
    using s1(2) ds(1) lk(3-6) m by (auto simp: swapped_def)
  have "lprev s a = ?h" "lnext s b = ?t"
    using d False linked_snoc [of s xs ?t] by (auto simp: dll_def ring_def cells_def linked_Cons ab)
  with sw have res: "list_reverse fuel s l = Ok s2"
    using s1(1) d False ds(1) m by (auto simp: list_reverse_def dll_empty dll_begin Let_def s2_def)
  have "linked s1 (rev xs)" using swapped_linked [OF s1(2) lk(2)] by simp
  then have "linked s2 (rev xs)" using ds(1) m ab False by (auto simp: s2_def hd_rev last_rev)
  moreover have "lnext s2 ?h = b" "lprev s2 b = ?h" "lnext s2 a = ?t" "lprev s2 ?t = a" "lprev s2 ?h = 0" "lnext s2 ?t = 0"
    using ds(1) m sw by (auto simp: s2_def)
  ultimately have "dll s2 l (rev xs)"
    using ds False linked_snoc [of s2 "rev xs" ?t] by (auto simp: dll_def ring_def cells_def linked_Cons ab hd_rev last_rev)
  moreover have "touch l xs s s2"
    using s1(2) m by (auto simp: touch_def same_on_def cells_def s2_def swapped_def)
  ultimately show ?thesis using res by blast
qed

section \<open>Ordered insertion\<close>

lemma insert_loop_dll:
  assumes "dll s l (xs @ ys)" "length ys < fuel"
  shows "insert_loop fuel s l e lt (hd (ys @ [l_tail l])) = Ok (hd (dropWhile (\<lambda>y. \<not> lt e y) ys @ [l_tail l]))"
  using assms
proof (induction ys arbitrary: xs fuel)
  case Nil
  then show ?case using dll_at_end [OF Nil(1)] by (cases fuel) auto
next
  case (Cons y ys)
  obtain n where n: "fuel = Suc n" using Cons(3) by (cases fuel) auto
  have "y \<noteq> list_end l" using dll_at_end [OF Cons(2)] by simp
  then show ?case using Cons(1) [of "xs @ [y]" n] Cons(2,3) n dll_next [OF Cons(2)] by simp
qed

lemma list_insert_ordered_dll:
  assumes "dll s l xs" "e \<noteq> 0" "e \<notin> set (cells l xs)" "length xs < fuel"
  shows "\<exists>s'. list_insert_ordered fuel s l e lt = Ok s'
    \<and> dll s' l (takeWhile (\<lambda>y. \<not> lt e y) xs @ e # dropWhile (\<lambda>y. \<not> lt e y) xs) \<and> touch l (e # xs) s s'"
  using dll_insert [of s l "takeWhile (\<lambda>y. \<not> lt e y) xs" "dropWhile (\<lambda>y. \<not> lt e y) xs" e] assms
    insert_loop_dll [of s l "[]" xs fuel e lt]
  by (auto simp: list_insert_ordered_def dll_begin)

text \<open>What the insertion keeps: adjacent elements stay in order.\<close>

abbreviation in_order :: "(nat \<Rightarrow> nat \<Rightarrow> bool) \<Rightarrow> nat list \<Rightarrow> bool" where
  "in_order lt \<equiv> successively (\<lambda>x y. \<not> lt y x)"

lemma in_order_insert:
  assumes "in_order lt xs" "\<And>y. lt e y \<Longrightarrow> \<not> lt y e"
  shows "in_order lt (takeWhile (\<lambda>y. \<not> lt e y) xs @ e # dropWhile (\<lambda>y. \<not> lt e y) xs)"
proof -
  let ?a = "takeWhile (\<lambda>y. \<not> lt e y) xs" and ?b = "dropWhile (\<lambda>y. \<not> lt e y) xs"
  have "in_order lt (?a @ ?b)" using assms(1) by simp
  then have "in_order lt ?a" "in_order lt ?b" using successively_append_iff by blast+
  moreover have "?a \<noteq> [] \<Longrightarrow> \<not> lt e (last ?a)" using set_takeWhileD [of "last ?a" "\<lambda>y. \<not> lt e y" xs] last_in_set by metis
  moreover have "?b \<noteq> [] \<Longrightarrow> lt e (hd ?b)" using hd_dropWhile [of "\<lambda>y. \<not> lt e y" xs] by simp
  ultimately show ?thesis using assms(2) unfolding successively_append_iff successively_Cons by auto
qed

section \<open>Duplicates\<close>

text \<open>Of adjacent equal elements the first stays; the others are returned in order.\<close>

fun uniq :: "(nat \<Rightarrow> nat \<Rightarrow> bool) \<Rightarrow> nat list \<Rightarrow> nat list \<times> nat list" where
  "uniq lt (x # y # zs) =
     (if \<not> lt x y \<and> \<not> lt y x then (case uniq lt (x # zs) of (us, ds) \<Rightarrow> (us, y # ds))
      else (case uniq lt (y # zs) of (us, ds) \<Rightarrow> (x # us, ds)))"
| "uniq lt xs = (xs, [])"

definition dups_to :: "klist option \<Rightarrow> links \<Rightarrow> nat list \<Rightarrow> nat list \<Rightarrow> bool" where
  "dups_to d s xs ds \<longleftrightarrow> (case d of None \<Rightarrow> True | Some m \<Rightarrow> dll s m ds \<and> set (cells m ds) \<inter> set xs = {})"

lemma unique_step:
  assumes "dll s l (xs @ x # y # zs)" "dups_to d s (cells l (xs @ x # y # zs)) ds"
  shows "\<exists>s'. bind (list_remove s y) (\<lambda>(_, s). case d of None \<Rightarrow> Ok s | Some m \<Rightarrow> list_push_back s m y) = Ok s'
    \<and> dll s' l (xs @ x # zs) \<and> dups_to d s' (cells l (xs @ x # zs)) (ds @ [y])"
proof -
  obtain s1 where s1: "list_remove s y = Ok (hd (zs @ [l_tail l]), s1)" "dll s1 l (xs @ x # zs)" "touch l (xs @ x # zs) s s1"
    using dll_remove [of s l "xs @ [x]" y zs] assms(1) by auto
  have y: "y \<notin> set (cells l (xs @ x # zs))" "y \<noteq> 0" using dll_distinct [OF assms(1)] by (auto simp: cells_def)
  show ?thesis
  proof (cases d)
    case None
    then show ?thesis using s1 by (auto simp: dups_to_def)
  next
    case (Some m)
    have m: "dll s m ds" "set (cells m ds) \<inter> set (cells l (xs @ x # y # zs)) = {}" using assms(2) Some by (auto simp: dups_to_def)
    have "set (cells l (xs @ x # zs)) \<inter> set (cells m ds) = {}" "y \<notin> set (cells m ds)" using m(2) by (auto simp: cells_def)
    moreover from this(1) have "dll s1 m ds" using touch_other [OF s1(3) m(1)] by blast
    ultimately obtain s2 where s2: "list_push_back s1 m y = Ok s2" "dll s2 m (ds @ [y])" "touch m (y # ds) s1 s2"
      using dll_push_back [of s1 m ds y] y by auto
    have "set (cells m (y # ds)) \<inter> set (cells l (xs @ x # zs)) = {}" using m(2) y(1) by (auto simp: cells_def)
    then have "dll s2 l (xs @ x # zs)" "set (cells m (ds @ [y])) \<inter> set (cells l (xs @ x # zs)) = {}"
      using touch_other [OF s2(3) s1(2)] by (auto simp: cells_def)
    then show ?thesis using s1(1) s2 Some by (auto simp: dups_to_def)
  qed
qed

lemma unique_loop_dll:
  assumes "dll s l (xs @ x # ys)" "dups_to d s (cells l (xs @ x # ys)) ds" "length ys < fuel"
  shows "\<exists>s'. unique_loop fuel s l d lt x = Ok s' \<and> dll s' l (xs @ fst (uniq lt (x # ys)))
    \<and> dups_to d s' (cells l (xs @ fst (uniq lt (x # ys)))) (ds @ snd (uniq lt (x # ys)))"
  using assms
proof (induction ys arbitrary: s xs x ds fuel)
  case Nil
  have "list_next s x = Ok (list_end l)" using dll_next [OF Nil(1)] by (simp add: list_end_def)
  then show ?case using Nil by (cases fuel) auto
next
  case (Cons y zs)
  obtain n where n: "fuel = Suc n" "length zs < n" using Cons(4) by (cases fuel) auto
  have nx: "list_next s x = Ok y" "y \<noteq> list_end l"
    using dll_next [OF Cons(2)] dll_at_end [of s l "xs @ [x]" "y # zs"] Cons(2) by simp_all
  show ?case
  proof (cases "\<not> lt x y \<and> \<not> lt y x")
    case True
    obtain s' where s': "bind (list_remove s y) (\<lambda>(_, s). case d of None \<Rightarrow> Ok s | Some m \<Rightarrow> list_push_back s m y) = Ok s'"
      "dll s' l (xs @ x # zs)" "dups_to d s' (cells l (xs @ x # zs)) (ds @ [y])"
      using unique_step [OF Cons(2,3)] by blast
    have "unique_loop fuel s l d lt x = unique_loop n s' l d lt x"
      using True n(1) nx s'(1) by (cases "list_remove s y") auto
    then show ?thesis using Cons(1) [OF s'(2,3) n(2)] True by (auto split: prod.split)
  next
    case False
    then have "unique_loop fuel s l d lt x = unique_loop n s l d lt y" using n(1) nx by auto
    then show ?thesis using Cons(1) [of s "xs @ [x]" y ds n] Cons(2,3) n(2) False by (auto split: prod.split)
  qed
qed

lemma list_unique_dll:
  assumes "dll s l xs" "dups_to d s (cells l xs) ds" "length xs < fuel"
  shows "\<exists>s'. list_unique fuel s l d lt = Ok s' \<and> dll s' l (fst (uniq lt xs))
    \<and> dups_to d s' (cells l (fst (uniq lt xs))) (ds @ snd (uniq lt xs))"
proof (cases xs)
  case Nil
  then show ?thesis using assms by (auto simp: list_unique_def dll_empty)
next
  case (Cons x ys)
  then show ?thesis using unique_loop_dll [of s l "[]" x ys d ds fuel lt] assms
    by (auto simp: list_unique_def dll_empty dll_begin)
qed

section \<open>Extrema\<close>

lemma max_loop_dll:
  assumes "dll s l (xs @ ys)" "length ys < fuel"
  shows "max_loop fuel s l lt m (hd (ys @ [l_tail l])) = Ok (foldl (\<lambda>m e. if lt m e then e else m) m ys)"
  using assms
proof (induction ys arbitrary: xs m fuel)
  case Nil
  then show ?case using dll_at_end [OF Nil(1)] by (cases fuel) auto
next
  case (Cons y ys)
  obtain n where n: "fuel = Suc n" using Cons(3) by (cases fuel) auto
  have "y \<noteq> list_end l" using dll_at_end [OF Cons(2)] by simp
  then show ?case using Cons(1) [of "xs @ [y]" n] Cons(2,3) n dll_next [OF Cons(2)] by simp
qed

lemma min_loop_max_loop: "min_loop fuel s l lt m e = max_loop fuel s l (\<lambda>a b. lt b a) m e"
  by (induction fuel s l lt m e rule: min_loop.induct) (auto intro: bind_cong)

lemma list_min_max: "list_min fuel s l lt = list_max fuel s l (\<lambda>a b. lt b a)"
  unfolding list_min_def list_max_def min_loop_max_loop ..

lemma list_max_dll:
  assumes "dll s l xs" "length xs < fuel"
  shows "list_max fuel s l lt =
    Ok (case xs of [] \<Rightarrow> list_end l | x # ys \<Rightarrow> foldl (\<lambda>m e. if lt m e then e else m) x ys)"
proof (cases xs)
  case Nil
  then show ?thesis using assms by (simp add: list_max_def dll_begin list_end_def)
next
  case (Cons x ys)
  have "x \<noteq> list_end l" using dll_at_end [of s l "[]" xs] assms(1) Cons by simp
  then show ?thesis using assms Cons max_loop_dll [of s l "[x]" ys fuel lt x] dll_next [of s l "[]" x ys]
    by (simp add: list_max_def dll_begin)
qed

text \<open>For an order with transitive incomparability the result is the first of the greatest.\<close>

lemma foldl_max:
  assumes tr: "\<And>a b c. \<not> lt a b \<Longrightarrow> \<not> lt b c \<Longrightarrow> \<not> lt a c" and asym: "\<And>a b. lt a b \<Longrightarrow> \<not> lt b a"
  shows "\<exists>us vs. x # ys = us @ foldl (\<lambda>m e. if lt m e then e else m) x ys # vs
    \<and> (\<forall>u\<in>set us. lt u (foldl (\<lambda>m e. if lt m e then e else m) x ys))
    \<and> (\<forall>v\<in>set vs. \<not> lt (foldl (\<lambda>m e. if lt m e then e else m) x ys) v)"
proof (induction ys rule: rev_induct)
  case (snoc y ys)
  define m where "m = foldl (\<lambda>m e. if lt m e then e else m) x ys"
  obtain us vs where uv: "x # ys = us @ m # vs" "\<forall>u\<in>set us. lt u m" "\<forall>v\<in>set vs. \<not> lt m v"
    using snoc by (auto simp: m_def)
  show ?case
  proof (cases "lt m y")
    case True
    have "lt u y" if "u \<in> set (us @ m # vs)" for u
      using that uv(2,3) True tr asym by (metis Un_iff set_ConsD set_append)
    then show ?thesis using True uv(1) by (intro exI [of _ "us @ m # vs"] exI [of _ "[]"]) (auto simp: m_def [symmetric])
  next
    case False
    then show ?thesis using uv by (intro exI [of _ us] exI [of _ "vs @ [y]"]) (auto simp: m_def [symmetric])
  qed
qed (force intro: exI [of _ "[]"])

end
