(* ===== verification/KListSort.thy ===== *)
theory KListSort
  imports KListOps "HOL-Library.Multiset"
begin

text \<open>
  \<open>list_sort\<close> of \<open>lib/kernel/list.c\<close>, a natural merge sort by splicing.  The passes are
  first described on sequences (\<open>run\<close>, \<open>mrg\<close>, \<open>pass\<close>, \<open>passes\<close>); the loops on the links are
  shown to compute them, and the passes to sort.
\<close>

section \<open>The algorithm on sequences\<close>

text \<open>The run that starts at \<open>a\<close>, without \<open>a\<close>, and what follows it.\<close>

fun run :: "(nat \<Rightarrow> nat \<Rightarrow> bool) \<Rightarrow> nat \<Rightarrow> nat list \<Rightarrow> nat list \<times> nat list" where
  "run lt a [] = ([], [])"
| "run lt a (y # ys) = (if lt y a then ([], y # ys) else (case run lt y ys of (r, t) \<Rightarrow> (y # r, t)))"

fun mrg :: "(nat \<Rightarrow> nat \<Rightarrow> bool) \<Rightarrow> nat list \<Rightarrow> nat list \<Rightarrow> nat list" where
  "mrg lt (a # as) (b # bs) = (if \<not> lt b a then a # mrg lt as (b # bs) else b # mrg lt (a # as) bs)"
| "mrg lt [] bs = bs"
| "mrg lt as [] = as"

lemma run_append: "run lt a ys = (r, t) \<Longrightarrow> ys = r @ t"
  by (induction lt a ys arbitrary: r t rule: run.induct) (auto split: if_splits prod.splits)

lemma run_length: "run lt a ys = (r, t) \<Longrightarrow> length t \<le> length ys"
  by (auto dest: run_append)

function pass :: "(nat \<Rightarrow> nat \<Rightarrow> bool) \<Rightarrow> nat list \<Rightarrow> nat \<times> nat list" where
  "pass lt [] = (0, [])"
| "pass lt (a # ys) =
     (case run lt a ys of
        (r, []) \<Rightarrow> (1, a # r)
      | (r, b # zs) \<Rightarrow>
          (case run lt b zs of (q, t) \<Rightarrow>
           (case pass lt t of (n, us) \<Rightarrow> (n + 1, mrg lt (a # r) (b # q) @ us))))"
  by pat_completeness auto
termination
  by (relation "measure (\<lambda>(lt, xs). length xs)") (auto dest!: run_append [OF sym])

lemma pass_One: "run lt a ys = (r, []) \<Longrightarrow> pass lt (a # ys) = (1, a # r)"
  by simp

lemma pass_Two:
  "run lt a ys = (r, b # zs) \<Longrightarrow> run lt b zs = (q, t) \<Longrightarrow>
     pass lt (a # ys) = (fst (pass lt t) + 1, mrg lt (a # r) (b # q) @ snd (pass lt t))"
  by (auto split: prod.split)

declare pass.simps(2) [simp del]

lemma pass_induct [case_names Nil One Two]:
  assumes "P []" "\<And>a ys r. run lt a ys = (r, []) \<Longrightarrow> P (a # ys)"
    and "\<And>a ys r b zs q t. run lt a ys = (r, b # zs) \<Longrightarrow> run lt b zs = (q, t) \<Longrightarrow> P t \<Longrightarrow> P (a # ys)"
  shows "P xs"
proof (induction xs rule: measure_induct_rule [of length])
  case (less xs)
  show ?case
  proof (cases xs)
    case (Cons a ys)
    obtain r t where r: "run lt a ys = (r, t)" by fastforce
    show ?thesis
    proof (cases t)
      case (Cons b zs)
      obtain q u where q: "run lt b zs = (q, u)" by fastforce
      have "length u < length xs" using run_append [OF r] run_append [OF q] \<open>t = b # zs\<close> \<open>xs = a # ys\<close> by simp
      then show ?thesis using assms(3) r q less \<open>t = b # zs\<close> \<open>xs = a # ys\<close> by blast
    qed (use assms(2) r \<open>xs = a # ys\<close> in blast)
  qed (use assms(1) in blast)
qed

lemma run_in_order: "run lt a ys = (r, t) \<Longrightarrow> in_order lt (a # r)"
  by (induction lt a ys arbitrary: r t rule: run.induct) (auto split: if_splits prod.splits)

lemma run_maximal: "run lt a ys = (r, b # t) \<Longrightarrow> lt b (last (a # r))"
  by (induction lt a ys arbitrary: r t rule: run.induct) (auto split: if_splits prod.splits)

lemma mset_mrg: "mset (mrg lt as bs) = mset as + mset bs"
  by (induction lt as bs rule: mrg.induct) auto

lemma set_mrg: "set (mrg lt as bs) = set as \<union> set bs"
  by (induction lt as bs rule: mrg.induct) auto

lemma mset_pass: "mset (snd (pass lt xs)) = mset xs"
proof (induction xs rule: pass_induct [of _ lt])
  case (One a ys r)
  then show ?case using run_append [OF One] by (simp add: pass_One)
next
  case (Two a ys r b zs q t)
  then show ?case using run_append [OF Two(1)] run_append [OF Two(2)] by (simp add: pass_Two mset_mrg del: mrg.simps)
qed simp

lemma in_order_mrg:
  "(\<And>x y. lt x y \<Longrightarrow> \<not> lt y x) \<Longrightarrow> in_order lt as \<Longrightarrow> in_order lt bs \<Longrightarrow> in_order lt (mrg lt as bs)"
proof (induction lt as bs rule: mrg.induct)
  case (1 lt a as b bs)
  show ?case
  proof (cases "lt b a")
    case True
    then have "hd (mrg lt (a # as) bs) = a \<or> hd (mrg lt (a # as) bs) = hd bs \<and> bs \<noteq> []" by (cases bs) auto
    then show ?thesis using 1 True by (auto simp: successively_Cons)
  next
    case False
    then have "hd (mrg lt as (b # bs)) = b \<or> hd (mrg lt as (b # bs)) = hd as \<and> as \<noteq> []" by (cases as) auto
    then show ?thesis using 1 False by (auto simp: successively_Cons)
  qed
qed auto

text \<open>The elements that are neither before nor after \<open>k\<close> keep their order.\<close>

abbreviation peers :: "(nat \<Rightarrow> nat \<Rightarrow> bool) \<Rightarrow> nat \<Rightarrow> nat list \<Rightarrow> nat list" where
  "peers lt k \<equiv> filter (\<lambda>x. \<not> lt x k \<and> \<not> lt k x)"

lemma in_order_sorted_wrt:
  assumes "\<And>x y z. \<not> lt x y \<Longrightarrow> \<not> lt y z \<Longrightarrow> \<not> lt x z"
  shows "in_order lt xs \<longleftrightarrow> sorted_wrt (\<lambda>x y. \<not> lt y x) xs"
  by (rule successively_iff_sorted_wrt_strong) (use assms in blast)

lemma peers_mrg:
  "(\<And>x y z. \<not> lt x y \<Longrightarrow> \<not> lt y z \<Longrightarrow> \<not> lt x z) \<Longrightarrow> in_order lt as \<Longrightarrow>
     peers lt k (mrg lt as bs) = peers lt k as @ peers lt k bs"
proof (induction lt as bs rule: mrg.induct)
  case (1 lt a as b bs)
  have as: "in_order lt as" "\<forall>x\<in>set as. \<not> lt x a"
    using 1(4) in_order_sorted_wrt [of lt "a # as"] 1(3) by (auto simp: successively_Cons)
  show ?case
  proof (cases "lt b a")
    case True
    have "peers lt k (a # as) = []" if "\<not> lt b k" "\<not> lt k b"
      unfolding filter_empty_conv using that True as(2) 1(3) by (metis set_ConsD)
    then show ?thesis using 1(2) [OF _ 1(3,4)] True by auto
  next
    case False
    then show ?thesis using 1(1) [OF _ 1(3) as(1)] by auto
  qed
qed auto

lemma peers_pass:
  assumes "\<And>x y z. \<not> lt x y \<Longrightarrow> \<not> lt y z \<Longrightarrow> \<not> lt x z"
  shows "peers lt k (snd (pass lt xs)) = peers lt k xs"
proof (induction xs rule: pass_induct [of _ lt])
  case (One a ys r)
  then show ?case using run_append [OF One] by (simp add: pass_One)
next
  case (Two a ys r b zs q t)
  have "peers lt k (mrg lt (a # r) (b # q)) = peers lt k (a # r) @ peers lt k (b # q)"
    using peers_mrg [of lt "a # r" k "b # q"] assms run_in_order [OF Two(1)] by blast
  then show ?case using Two run_append [OF Two(1)] run_append [OF Two(2)]
    by (simp add: pass_Two del: mrg.simps)
qed simp

text \<open>The number of runs; a pass leaves at most half of them, rounded up.\<close>

fun runs :: "(nat \<Rightarrow> nat \<Rightarrow> bool) \<Rightarrow> nat list \<Rightarrow> nat" where
  "runs lt (x # y # zs) = (if lt y x then 1 else 0) + runs lt (y # zs)"
| "runs lt [x] = 1"
| "runs lt [] = 0"

lemma runs_in_order: "in_order lt xs \<Longrightarrow> runs lt xs \<le> 1"
  by (induction lt xs rule: runs.induct) auto

lemma runs_le_1: "runs lt xs \<le> 1 \<Longrightarrow> in_order lt xs"
proof (induction lt xs rule: runs.induct)
  case (1 lt x y zs)
  have "0 < runs lt (y # zs)" for y zs by (induction zs arbitrary: y) auto
  then show ?case using 1 by (auto split: if_splits) (metis Suc_le_D add_Suc_right le_zero_eq not_less_eq_eq neq0_conv One_nat_def)
qed auto

lemma runs_append: "runs lt (as @ bs) \<le> runs lt as + runs lt bs"
proof (induction as rule: induct_list012)
  case (2 x)
  then show ?case by (cases bs) auto
qed auto

lemma runs_run: "run lt a ys = (r, t) \<Longrightarrow> runs lt (a # ys) = 1 + runs lt t"
  by (induction lt a ys arbitrary: r t rule: run.induct) (auto split: if_splits prod.splits)

lemma runs_le_length: "runs lt xs \<le> length xs"
  by (induction lt xs rule: runs.induct) auto

lemma pass_count: "fst (pass lt xs) = (runs lt xs + 1) div 2"
proof (induction xs rule: pass_induct [of _ lt])
  case (One a ys r)
  then show ?case using runs_run [OF One] by (simp add: pass_One)
next
  case (Two a ys r b zs q t)
  then show ?case using runs_run [OF Two(1)] runs_run [OF Two(2)] by (simp add: pass_Two del: mrg.simps)
qed simp

lemma pass_runs:
  assumes "\<And>x y. lt x y \<Longrightarrow> \<not> lt y x"
  shows "runs lt (snd (pass lt xs)) \<le> fst (pass lt xs)"
proof (induction xs rule: pass_induct [of _ lt])
  case (One a ys r)
  then show ?case using runs_in_order [OF run_in_order [OF One]] by (simp add: pass_One)
next
  case (Two a ys r b zs q t)
  have "runs lt (mrg lt (a # r) (b # q)) \<le> 1"
    by (intro runs_in_order in_order_mrg assms run_in_order [OF Two(1)] run_in_order [OF Two(2)])
  then show ?case using Two runs_append [of lt "mrg lt (a # r) (b # q)" "snd (pass lt t)"] by (simp add: pass_Two del: mrg.simps)
qed simp

text \<open>The passes until one produces a single run.\<close>

function passes :: "(nat \<Rightarrow> nat \<Rightarrow> bool) \<Rightarrow> nat \<Rightarrow> nat list \<Rightarrow> nat list option" where
  "passes lt 0 xs = None"
| "passes lt (Suc n) xs = (case pass lt xs of (cnt, ys) \<Rightarrow> if cnt > 1 then passes lt n ys else Some ys)"
  by pat_completeness auto
termination
  by (relation "measure (\<lambda>(lt, n, xs). n)") auto

lemma peers_passes:
  assumes "\<And>x y z. \<not> lt x y \<Longrightarrow> \<not> lt y z \<Longrightarrow> \<not> lt x z"
  shows "passes lt n xs = Some ys \<Longrightarrow> peers lt k ys = peers lt k xs"
proof (induction n arbitrary: xs)
  case (Suc n)
  have "peers lt k (snd (pass lt xs)) = peers lt k xs" using peers_pass assms by blast
  then show ?case using Suc by (auto split: prod.splits if_splits)
qed simp

lemma passes_sort:
  assumes asym: "\<And>x y. lt x y \<Longrightarrow> \<not> lt y x"
  shows "runs lt xs < n \<Longrightarrow> \<exists>ys. passes lt n xs = Some ys \<and> mset ys = mset xs \<and> in_order lt ys"
proof (induction n arbitrary: xs)
  case (Suc n)
  obtain cnt ys where p: "pass lt xs = (cnt, ys)" by fastforce
  have k: "runs lt ys \<le> cnt" "cnt = (runs lt xs + 1) div 2" "mset ys = mset xs"
    using pass_runs [of lt xs] asym pass_count [of lt xs] mset_pass [of lt xs] p by simp_all
  show ?case
  proof (cases "cnt > 1")
    case True
    then have "runs lt ys < n" using k Suc(2) by linarith
    then show ?thesis using Suc(1) p True k(3) by fastforce
  next
    case False
    then show ?thesis using p k runs_le_1 [of lt ys] by simp
  qed
qed simp

section \<open>The loops on the links\<close>

lemma run_loop_ring:
  assumes "ring s (us @ a # ys @ b # ws)" "length ys < fuel"
  shows "run_loop fuel s lt a b = Ok (hd (snd (run lt a ys) @ [b]))"
  using assms
proof (induction ys arbitrary: us a fuel)
  case Nil
  then show ?case using ring_next [of s us a b ws] by (cases fuel) auto
next
  case (Cons y ys)
  obtain n where n: "fuel = Suc n" "length ys < n" using Cons(3) by (cases fuel) auto
  have r: "ring s (us @ a # y # ys @ b # ws)" using Cons(2) by simp
  have "y \<noteq> b" using r by (auto simp: ring_def)
  moreover have "list_next s a = Ok y" "list_prev s y = Ok a" using ring_next [OF r] ring_prev [OF r] by auto
  ultimately show ?case using n Cons(1) [of "us @ [a]" y n] Cons(2) by (auto split: prod.split)
qed

lemma find_end_of_run_ring:
  assumes "ring s (us @ a # ys @ b # ws)" "length ys < fuel"
  shows "find_end_of_run fuel s lt a b = Ok (hd (snd (run lt a ys) @ [b]))"
proof -
  have "a \<noteq> 0" "b \<noteq> 0" "a \<noteq> b" using assms(1) by (auto simp: ring_def)
  then show ?thesis using run_loop_ring [OF assms] by (simp add: find_end_of_run_def)
qed

lemma sorted_loop_ring:
  assumes "ring s (us @ a # ys @ b # ws)" "length ys < fuel"
  shows "sorted_loop fuel s lt a b = Ok (in_order lt (a # ys))"
  using assms
proof (induction ys arbitrary: us a fuel)
  case Nil
  then show ?case using ring_next [of s us a b ws] by (cases fuel) auto
next
  case (Cons y ys)
  obtain n where n: "fuel = Suc n" "length ys < n" using Cons(3) by (cases fuel) auto
  have r: "ring s (us @ a # y # ys @ b # ws)" using Cons(2) by simp
  have "y \<noteq> b" using r by (auto simp: ring_def)
  moreover have "list_next s a = Ok y" "list_prev s y = Ok a" using ring_next [OF r] ring_prev [OF r] by auto
  ultimately show ?case using n Cons(1) [of "us @ [a]" y n] Cons(2) by auto
qed

lemma is_sorted_ring:
  assumes "ring s (us @ ys @ b # ws)" "length ys \<le> fuel"
  shows "is_sorted fuel s lt (hd (ys @ [b])) b = Ok (in_order lt ys)"
proof (cases ys)
  case (Cons a zs)
  then have "a \<noteq> b" using assms(1) by (auto simp: ring_def)
  then show ?thesis using Cons sorted_loop_ring [of s us a zs b ws fuel lt] assms by (simp add: is_sorted_def)
qed (simp add: is_sorted_def)

lemma merge_loop_ring:
  assumes "ring s (us @ p # as @ bs @ n # ws)" "length as + length bs < fuel"
  shows "\<exists>s'. merge_loop fuel s lt (hd (as @ bs @ [n])) (hd (bs @ [n])) n = Ok s' \<and> ring s' (us @ p # mrg lt as bs @ n # ws)
    \<and> same_on (- set (us @ p # as @ bs @ n # ws)) s s'"
  using assms
proof (induction lt as bs arbitrary: us p s fuel rule: mrg.induct)
  case (1 lt a as b bs)
  obtain f where f: "fuel = Suc f" using 1(4) by (cases fuel) auto
  have ne: "a \<noteq> b" "b \<noteq> n" using 1(3) by (auto simp: ring_def)
  show ?case
  proof (cases "lt b a")
    case False
    define c where "c = hd (as @ (b # bs) @ [n])"
    have "list_next s a = Ok c"
      using ring_next [of s "us @ [p]" a "hd (as @ b # bs @ n # ws)" "tl (as @ b # bs @ n # ws)"] 1(3)
      unfolding c_def by (cases as) auto
    moreover have "\<exists>s'. merge_loop f s lt c (hd ((b # bs) @ [n])) n = Ok s' \<and> ring s' ((us @ [p]) @ a # mrg lt as (b # bs) @ n # ws)
        \<and> same_on (- set ((us @ [p]) @ a # as @ (b # bs) @ n # ws)) s s'"
      unfolding c_def by (rule 1(1)) (use False 1(3,4) f in auto)
    ultimately show ?thesis using False f ne by simp
  next
    case True
    define c where "c = hd (bs @ [n])"
    have r: "ring s ((us @ p # a # as) @ b # c # tl (bs @ n # ws))" using 1(3) unfolding c_def by (cases bs) auto
    have nx: "list_next s b = Ok c" "list_prev s c = Ok b" using ring_next [OF r] ring_prev [OF r] by auto
    have "ring s (us @ p # (a # as) @ [b] @ c # tl (bs @ n # ws))" using r by simp
    from ring_splice [OF this] obtain s1 where s1: "list_splice s a b c = Ok s1"
      "ring s1 (us @ p # [b] @ (a # as) @ c # tl (bs @ n # ws))"
      "same_on (- set (us @ p # (a # as) @ [b] @ c # tl (bs @ n # ws))) s s1" by auto
    have e: "c # tl (bs @ n # ws) = bs @ n # ws" unfolding c_def by (cases bs) auto
    have "\<exists>s'. merge_loop f s1 lt (hd ((a # as) @ bs @ [n])) (hd (bs @ [n])) n = Ok s' \<and> ring s' ((us @ [p]) @ b # mrg lt (a # as) bs @ n # ws)
        \<and> same_on (- set ((us @ [p]) @ b # (a # as) @ bs @ n # ws)) s1 s'"
      by (rule 1(2)) (use True 1(4) s1(2) f in \<open>auto simp: e\<close>)
    then show ?thesis using True f ne nx s1(1,3) by (auto simp: c_def [symmetric] same_on_def e)
  qed
next
  case (2 lt bs)
  then show ?case by (cases fuel) (auto simp: same_on_def)
next
  case (3 lt a as)
  then show ?case by (cases fuel) (auto simp: same_on_def)
qed

lemma inplace_merge_ring:
  assumes r: "ring s (us @ p # as @ bs @ n # ws)" and f: "length as + length bs < fuel"
    and o: "in_order lt as" "in_order lt bs"
  shows "\<exists>s'. inplace_merge fuel s lt (hd (as @ bs @ [n])) (hd (bs @ [n])) n = Ok s' \<and> ring s' (us @ p # mrg lt as bs @ n # ws)
    \<and> same_on (- set (us @ p # as @ bs @ n # ws)) s s'"
proof -
  have nz: "hd (as @ bs @ [n]) \<noteq> 0" "hd (bs @ [n]) \<noteq> 0" "n \<noteq> 0"
    using r by (cases as; cases bs; auto simp: ring_def)+
  have "is_sorted fuel s lt (hd (bs @ [n])) n = Ok True"
    using is_sorted_ring [of s "us @ p # as" bs n ws fuel lt] r f o(2) by simp
  moreover have "is_sorted fuel s lt (hd (as @ bs @ [n])) (hd (bs @ [n])) = Ok True"
    using is_sorted_ring [of s "us @ [p]" as "hd (bs @ [n])" "tl (bs @ n # ws)" fuel lt] r f o(1)
    by (cases bs; cases as) auto
  ultimately show ?thesis using nz merge_loop_ring [OF r f, of lt] by (simp add: inplace_merge_def)
qed

lemma sort_pass_ring:
  assumes "ring s (us @ p # xs @ [list_end l])" "length xs < fuel" "length xs < m"
  shows "\<exists>s'. sort_pass fuel m s l lt (hd (xs @ [list_end l])) cnt = Ok (cnt + fst (pass lt xs), s')
    \<and> ring s' (us @ p # snd (pass lt xs) @ [list_end l]) \<and> same_on (- set (us @ p # xs @ [list_end l])) s s'"
  using assms
proof (induction xs arbitrary: s us p m cnt rule: pass_induct [of _ lt])
  case Nil
  then show ?case by (cases m) (auto simp: same_on_def)
next
  case (One a ys r)
  obtain k where m: "m = Suc k" using One by (cases m) auto
  have "a \<noteq> list_end l" using One(2) by (auto simp: ring_def)
  moreover have "find_end_of_run fuel s lt a (list_end l) = Ok (list_end l)"
    using find_end_of_run_ring [of s "us @ [p]" a ys "list_end l" "[]" fuel lt] One by simp
  ultimately show ?case using One(1,2) m run_append [OF One(1)] by (simp add: pass_One same_on_def)
next
  case (Two a ys r b zs q t)
  obtain k where m: "m = Suc k" using Two by (cases m) auto
  define n where "n = hd (t @ [list_end l])"
  have e: "ys = r @ b # zs" "zs = q @ t" using run_append [OF Two(1)] run_append [OF Two(2)] by simp_all
  have tl: "t @ [list_end l] = n # tl (t @ [list_end l])" unfolding n_def by simp
  have ne: "a \<noteq> list_end l" "b \<noteq> list_end l" using Two(4) by (auto simp: ring_def e)
  have f1: "find_end_of_run fuel s lt a (list_end l) = Ok b"
    using find_end_of_run_ring [of s "us @ [p]" a ys "list_end l" "[]" fuel lt] Two by simp
  have f2: "find_end_of_run fuel s lt b (list_end l) = Ok n"
    using find_end_of_run_ring [of s "us @ p # a # r" b zs "list_end l" "[]" fuel lt] Two by (simp add: e n_def)
  have "ring s (us @ p # (a # r) @ (b # q) @ n # tl (t @ [list_end l]))"
    using Two(4) by (simp add: e tl [symmetric])
  from inplace_merge_ring [OF this, of fuel lt] obtain s1 where s1:
    "inplace_merge fuel s lt a b n = Ok s1"
    "ring s1 (us @ p # mrg lt (a # r) (b # q) @ t @ [list_end l])"
    "same_on (- set (us @ p # (a # r) @ (b # q) @ t @ [list_end l])) s s1"
    using Two(5) run_in_order [OF Two(1)] run_in_order [OF Two(2)] by (auto simp: e tl [symmetric] simp del: mrg.simps)
  define ms where "ms = mrg lt (a # r) (b # q)"
  have ms: "ms \<noteq> []" "set ms = set (a # r) \<union> set (b # q)"
    unfolding ms_def using set_mrg [of lt "a # r" "b # q"] by (auto simp del: mrg.simps)
  have bl: "butlast ms @ last ms # cs = ms @ cs" for cs
    using ms(1) by (metis append_Cons append_Nil append_assoc append_butlast_last_id)
  have "ring s1 ((us @ p # butlast ms) @ last ms # t @ [list_end l])"
    using s1(2) [folded ms_def] by (simp add: bl)
  from Two(3) [OF this, of k "cnt + 1"] obtain s2 where s2:
    "sort_pass fuel k s1 l lt n (cnt + 1) = Ok (cnt + 1 + fst (pass lt t), s2)"
    "ring s2 (us @ p # ms @ snd (pass lt t) @ [list_end l])"
    "same_on (- set (us @ p # ms @ t @ [list_end l])) s1 s2"
    using Two(5,6) m e by (auto simp: n_def bl)
  have "sort_pass fuel m s l lt (hd ((a # ys) @ [list_end l])) cnt = Ok (cnt + 1 + fst (pass lt t), s2)"
    using m ne f1 f2 s1(1) s2(1) by simp
  moreover have "same_on (- set (us @ p # (a # ys) @ [list_end l])) s s2"
    using s1(3) s2(3) ms(2) by (auto simp: same_on_def e)
  ultimately show ?case using s2(2) Two(1,2) by (simp add: pass_Two ms_def [symmetric] del: mrg.simps)
qed

lemma sort_loop_dll:
  assumes "dll s l xs" "length xs < fuel" "passes lt m xs = Some zs"
  shows "\<exists>s'. sort_loop fuel m s l lt = Ok s' \<and> dll s' l zs \<and> touch l xs s s'"
  using assms
proof (induction m arbitrary: s xs)
  case (Suc m)
  obtain cnt ys where p: "pass lt xs = (cnt, ys)" by fastforce
  have "mset ys = mset xs" using mset_pass [of lt xs] p by simp
  then have ys: "set ys = set xs" "length ys = length xs" by (auto dest: mset_eq_setD mset_eq_length)
  have "ring s ([] @ l_head l # xs @ [list_end l])" using Suc(2) by (simp add: dll_def cells_def list_end_def)
  from sort_pass_ring [OF this Suc(3) Suc(3), of lt 0] obtain s1 where s1:
    "sort_pass fuel fuel s l lt (list_begin s l) 0 = Ok (cnt, s1)" "dll s1 l ys" "touch l xs s s1"
    using p Suc(2) by (auto simp: dll_def cells_def touch_def list_end_def dll_begin)
  show ?case
  proof (cases "cnt > 1")
    case True
    then obtain s2 where "sort_loop fuel m s1 l lt = Ok s2" "dll s2 l zs" "touch l ys s1 s2"
      using Suc(1) [OF s1(2)] Suc(3,4) p ys by auto
    then show ?thesis using s1 True ys by (auto simp: touch_def same_on_def cells_def)
  next
    case False
    then show ?thesis using s1 Suc(4) p by auto
  qed
qed simp

lemma list_sort_dll:
  assumes d: "dll s l xs" and f: "length xs < fuel" and asym: "\<And>x y. lt x y \<Longrightarrow> \<not> lt y x"
  shows "\<exists>s' ys. list_sort fuel s l lt = Ok s' \<and> dll s' l ys \<and> passes lt fuel xs = Some ys
    \<and> mset ys = mset xs \<and> in_order lt ys \<and> touch l xs s s'"
proof -
  obtain ys where ys: "passes lt fuel xs = Some ys" "mset ys = mset xs" "in_order lt ys"
    using passes_sort [of lt xs fuel] asym runs_le_length [of lt xs] f by fastforce
  obtain s' where s': "sort_loop fuel fuel s l lt = Ok s'" "dll s' l ys" "touch l xs s s'"
    using sort_loop_dll [OF d f ys(1)] by blast
  have "length ys = length xs" using ys(2) by (rule mset_eq_length)
  then have "is_sorted fuel s' lt (list_begin s' l) (list_end l) = Ok True"
    using is_sorted_ring [of s' "[l_head l]" ys "l_tail l" "[]" fuel lt] s'(2) f ys(3)
    by (simp add: dll_begin list_end_def) (simp add: dll_def cells_def)
  then show ?thesis using s' ys by (auto simp: list_sort_def)
qed

section \<open>Properties\<close>

definition demo_list :: klist where
  "demo_list = \<lparr>l_head = 1, l_tail = 2\<rparr>"

definition demo_links :: links where
  "demo_links = \<lparr>lprev = (\<lambda>_. 0)(15 := 1, 23 := 15, 14 := 23, 2 := 14), lnext = (\<lambda>_. 0)(1 := 15, 15 := 23, 23 := 14, 14 := 2)\<rparr>"

lemma demo_dll: "dll demo_links demo_list [15, 23, 14]"
  by (simp add: dll_def ring_def cells_def demo_links_def demo_list_def)

text \<open>
  C4: \<open>list_sort\<close> sorts.  For any strict weak order the sort of a well-formed list returns
  without a failed assertion after at most length + 1 rounds of each of its loops; the list
  is well formed again, holds the same elements in order, elements that compare equal keep
  their relative order, and no link outside the list is written.
\<close>
theorem list_sort_stable:
  assumes "dll s l xs" "length xs < fuel"
    and "\<And>x y. lt x y \<Longrightarrow> \<not> lt y x" "\<And>x y z. \<not> lt x y \<Longrightarrow> \<not> lt y z \<Longrightarrow> \<not> lt x z"
  shows "\<exists>s' ys. list_sort fuel s l lt = Ok s' \<and> dll s' l ys \<and> mset ys = mset xs
    \<and> sorted_wrt (\<lambda>x y. \<not> lt y x) ys \<and> (\<forall>k. peers lt k ys = peers lt k xs) \<and> touch l xs s s'"
proof -
  obtain s' ys where r: "list_sort fuel s l lt = Ok s'" "dll s' l ys" "passes lt fuel xs = Some ys"
    "mset ys = mset xs" "in_order lt ys" "touch l xs s s'"
    using list_sort_dll [of s l xs fuel lt] assms(1-3) by blast
  moreover have "sorted_wrt (\<lambda>x y. \<not> lt y x) ys" using in_order_sorted_wrt [of lt ys] assms(4) r(5) by blast
  moreover have "peers lt k ys = peers lt k xs" for k using peers_passes [of lt fuel xs ys k] assms(4) r(3) by blast
  ultimately show ?thesis by blast
qed

theorem list_sort_stable_witness:
  "\<exists>s' ys. list_sort 4 demo_links demo_list (\<lambda>a b. a mod 10 < b mod 10) = Ok s' \<and> dll s' demo_list ys
    \<and> mset ys = mset [15, 23, 14]"
  using list_sort_stable [OF demo_dll, of 4 "\<lambda>a b. a mod 10 < b mod 10"] by auto



text \<open>
  \<open>list_unique\<close> keeps the first of every group of adjacent equal elements and appends the
  others, in their order, to the list of duplicates when one is given; both lists stay well
  formed.
\<close>
lemma list_unique_splits:
  assumes "dll s l xs" "dll s m ds" "set (cells m ds) \<inter> set (cells l xs) = {}" "length xs < fuel"
  shows "\<exists>s'. list_unique fuel s l (Some m) lt = Ok s' \<and> dll s' l (fst (uniq lt xs)) \<and> dll s' m (ds @ snd (uniq lt xs))"
  using list_unique_dll [of s l xs "Some m" ds fuel lt] assms by (auto simp: dups_to_def)



end
