(* ===== verification/Sched.thy ===== *)
theory Sched
  imports KListOps "HOL-Library.Signed_Division"
begin

text \<open>
  The scheduling policy, \<open>threads/scheduler.c\<close>: a fair scheduler that runs the ready thread
  with the least virtual run time.  Threads are named by addresses (0 is the null pointer)
  and their fields are in a store; a ready list is the sequence of its threads, which the
  operations of \<open>lib/kernel/list.c\<close> keep.  Times and virtual run times, 64-bit integers of the
  source, are integers; every reading of the clock is an argument.
\<close>

section \<open>The data\<close>

datatype thread_status = THREAD_RUNNING | THREAD_READY | THREAD_BLOCKED | THREAD_DYING

record thread =
  tid :: int
  status :: thread_status
  tname :: bytes
  nice :: int
  tcpu :: nat
  vruntime :: int
  timer_start :: int
  timer_stop :: int
  pagedir :: nat
  magic :: u32

type_synonym threads = "nat \<Rightarrow> thread"

datatype sched_return_action = RETURN_NONE | RETURN_YIELD

record ready_queue =
  rq_curr :: nat
  idle_thread :: nat
  thread_ticks :: u32
  ready_list :: "nat list"
  nr_ready :: u32
  min_vruntime :: int
  last_time :: int
  active :: bool

definition NICE_MIN :: int where "NICE_MIN = - 20"
definition NICE_DEFAULT :: int where "NICE_DEFAULT = 0"
definition NICE_MAX :: int where "NICE_MAX = 19"

definition INT64_MAX :: int where "INT64_MAX = 2 ^ 63 - 1"

definition max64 :: "int \<Rightarrow> int \<Rightarrow> int" where
  "max64 x y = (if x > y then x else y)"

definition min64 :: "int \<Rightarrow> int \<Rightarrow> int" where
  "min64 x y = (if x < y \<and> x \<noteq> 0 then x else y)"

definition prio_to_weight :: "int list" where
  "prio_to_weight =
    [88761, 71755, 56483, 46273, 36291,
     29154, 23254, 18705, 14949, 11916,
     9548, 7620, 6100, 4904, 3906,
     3121, 2501, 1991, 1586, 1277,
     1024, 820, 655, 526, 423,
     335, 272, 215, 172, 137,
     110, 87, 70, 56, 45,
     36, 29, 23, 18, 15]"

text \<open>An access outside the table, undefined in C, is \<open>Panic\<close>.\<close>

definition weight_at :: "int \<Rightarrow> int outcome" where
  "weight_at i = (if 0 \<le> i \<and> i < 40 then Ok (prio_to_weight ! nat i) else Panic)"

section \<open>Virtual run time\<close>

definition calc_vruntime :: "thread \<Rightarrow> int \<Rightarrow> int outcome" where
  "calc_vruntime t bonus =
     (let d = timer_stop t - timer_start t in
      bind (weight_at (NICE_DEFAULT + bonus)) (\<lambda>w0.
      bind (weight_at (nice t + bonus)) (\<lambda>w.
      Ok (vruntime t + d * w0 sdiv w))))"

definition sched_init :: "ready_queue \<Rightarrow> ready_queue" where
  "sched_init rq = rq\<lparr>ready_list := [], min_vruntime := 0, last_time := 0, active := True\<rparr>"

definition set_min_vruntime :: "threads \<Rightarrow> ready_queue \<Rightarrow> ready_queue" where
  "set_min_vruntime ts rq =
     (let m = INT64_MAX;
          m = (if rq_curr rq \<noteq> 0 then min64 (vruntime (ts (rq_curr rq))) m else m);
          m = foldl (\<lambda>m t. min64 (vruntime (ts t)) m) m (ready_list rq)
      in rq\<lparr>min_vruntime := (if m = INT64_MAX then 0 else m)\<rparr>)"

fun weight_loop :: "threads \<Rightarrow> nat list \<Rightarrow> int \<Rightarrow> int outcome" where
  "weight_loop ts [] tw = Ok tw"
| "weight_loop ts (t # xs) tw = bind (weight_at (nice (ts t) + 20)) (\<lambda>w. weight_loop ts xs (tw + w))"

definition queue_weight :: "threads \<Rightarrow> ready_queue \<Rightarrow> int outcome" where
  "queue_weight ts rq = weight_loop ts (ready_list rq) 0"

definition queue_total_weight :: "threads \<Rightarrow> ready_queue \<Rightarrow> int outcome" where
  "queue_total_weight ts rq =
     bind (if rq_curr rq \<noteq> 0 then weight_at (nice (ts (rq_curr rq)) + 20) else Ok 0) (\<lambda>w.
     bind (weight_loop ts (ready_list rq) w) (\<lambda>tw. Ok (if tw = 0 then 1 else tw)))"

definition calc_ideal_runtime :: "threads \<Rightarrow> ready_queue \<Rightarrow> nat \<Rightarrow> int outcome" where
  "calc_ideal_runtime ts rq cur =
     (let nanos = 4000000;
          n = (if rq_curr rq \<noteq> 0 then uint (nr_ready rq + 1) else uint (nr_ready rq))
      in bind (weight_at (nice (ts cur) + 20)) (\<lambda>w.
         bind (queue_total_weight ts rq) (\<lambda>s. Ok (nanos * n * w sdiv s))))"

definition get_thread_weight :: "thread \<Rightarrow> int outcome" where
  "get_thread_weight t = weight_at (nice t + 20)"

section \<open>The operations of the policy\<close>

text \<open>
  \<open>now\<close> and \<open>now'\<close> are the two readings of the clock.
\<close>

definition sched_unblock ::
  "threads \<Rightarrow> ready_queue \<Rightarrow> nat \<Rightarrow> bool \<Rightarrow> int \<Rightarrow> int \<Rightarrow> (sched_return_action \<times> threads \<times> ready_queue) outcome" where
  "sched_unblock ts rq t initial now now' =
     (let c = rq_curr rq in
      bind
        (if \<not> initial \<and> c \<noteq> 0 then
           let ts = ts(c := (ts c)\<lparr>timer_stop := now\<rparr>) in
           bind (calc_vruntime (ts c) 20) (\<lambda>v.
           let ts = ts(c := (ts c)\<lparr>vruntime := v, timer_start := now'\<rparr>);
               rq = set_min_vruntime ts rq
           in bind (calc_vruntime (ts t) 0) (\<lambda>v.
              let ts = ts(t := (ts t)\<lparr>vruntime := v\<rparr>)
              in Ok (ts(t := (ts t)\<lparr>vruntime := max64 (vruntime (ts t)) (min_vruntime rq - 20000000)\<rparr>), rq)))
         else if initial \<and> c \<noteq> 0 then
           let ts = ts(c := (ts c)\<lparr>timer_stop := now\<rparr>) in
           bind (calc_vruntime (ts c) 20) (\<lambda>v.
           let ts = ts(c := (ts c)\<lparr>vruntime := v\<rparr>);
               rq = (if timer_stop (ts c) - timer_start (ts c) \<noteq> 0 then set_min_vruntime ts rq else rq);
               ts = ts(c := (ts c)\<lparr>timer_start := now'\<rparr>)
           in Ok (ts(t := (ts t)\<lparr>vruntime := (if min_vruntime rq \<noteq> 0 then min_vruntime rq else vruntime (ts c))\<rparr>), rq))
         else Ok (ts, rq)) (\<lambda>(ts, rq).
      let rq = rq\<lparr>ready_list := ready_list rq @ [t], nr_ready := nr_ready rq + 1\<rparr>
      in Ok (if rq_curr rq = 0 \<or> \<not> initial then RETURN_YIELD else RETURN_NONE, ts, rq)))"

definition sched_yield :: "threads \<Rightarrow> ready_queue \<Rightarrow> nat \<Rightarrow> int \<Rightarrow> (threads \<times> ready_queue) outcome" where
  "sched_yield ts rq current now =
     (let rq = rq\<lparr>ready_list := ready_list rq @ [current], nr_ready := nr_ready rq + 1\<rparr>;
          ts = ts(current := (ts current)\<lparr>timer_stop := now\<rparr>)
      in bind (calc_vruntime (ts current) 20) (\<lambda>v. Ok (ts(current := (ts current)\<lparr>vruntime := v\<rparr>), rq)))"

definition before :: "threads \<Rightarrow> nat \<Rightarrow> nat \<Rightarrow> bool" where
  "before ts t u \<longleftrightarrow> vruntime (ts t) < vruntime (ts u) \<or> vruntime (ts t) = vruntime (ts u) \<and> tid (ts t) < tid (ts u)"

definition find_thread :: "threads \<Rightarrow> ready_queue \<Rightarrow> nat outcome" where
  "find_thread ts rq =
     (case ready_list rq of
        [] \<Rightarrow> Panic
      | front # _ \<Rightarrow> Ok (foldl (\<lambda>t_front t. if before ts t t_front then t else t_front) front (ready_list rq)))"

definition sched_pick_next :: "threads \<Rightarrow> ready_queue \<Rightarrow> int \<Rightarrow> (nat \<times> threads \<times> ready_queue) outcome" where
  "sched_pick_next ts rq now =
     (if ready_list rq = [] then Ok (0, ts, rq)
      else
        bind (find_thread ts rq) (\<lambda>ret.
        let rq = rq\<lparr>ready_list := remove1 ret (ready_list rq)\<rparr>;
            ts = ts(ret := (ts ret)\<lparr>timer_start := now\<rparr>)
        in Ok (ret, ts, rq\<lparr>nr_ready := nr_ready rq - 1\<rparr>)))"

definition sched_tick :: "threads \<Rightarrow> ready_queue \<Rightarrow> nat \<Rightarrow> int \<Rightarrow> (sched_return_action \<times> ready_queue) outcome" where
  "sched_tick ts rq current now =
     bind (calc_ideal_runtime ts rq current) (\<lambda>ideal_runtime.
     let rq = rq\<lparr>thread_ticks := thread_ticks rq + word_of_int (now - last_time rq), last_time := now\<rparr>
     in Ok (if uint (thread_ticks rq) \<ge> ideal_runtime then (RETURN_YIELD, rq\<lparr>thread_ticks := 0\<rparr>)
            else (RETURN_NONE, rq)))"

definition sched_block :: "threads \<Rightarrow> nat \<Rightarrow> int \<Rightarrow> threads" where
  "sched_block ts current now = ts(current := (ts current)\<lparr>timer_stop := now\<rparr>)"

section \<open>Weights\<close>

lemma prio_to_weight_bounds: "i < 40 \<Longrightarrow> 15 \<le> prio_to_weight ! i \<and> prio_to_weight ! i \<le> 88761"
proof -
  have "\<forall>w\<in>set prio_to_weight. 15 \<le> w \<and> w \<le> 88761" "length prio_to_weight = 40"
    by (simp_all add: prio_to_weight_def)
  then show "i < 40 \<Longrightarrow> ?thesis" by simp
qed

lemma prio_to_weight_decreasing: "i < j \<Longrightarrow> j < 40 \<Longrightarrow> prio_to_weight ! j < prio_to_weight ! i"
proof -
  have "sorted_wrt (>) prio_to_weight" "length prio_to_weight = 40" by (simp_all add: prio_to_weight_def)
  then show "i < j \<Longrightarrow> j < 40 \<Longrightarrow> ?thesis" by (simp add: sorted_wrt_iff_nth_less)
qed

abbreviation nice_ok :: "thread \<Rightarrow> bool" where
  "nice_ok t \<equiv> NICE_MIN \<le> nice t \<and> nice t \<le> NICE_MAX"

definition weight :: "thread \<Rightarrow> int" where
  "weight t = prio_to_weight ! nat (nice t + 20)"

lemma weight_at_nice [simp]: "nice_ok t \<Longrightarrow> weight_at (nice t + 20) = Ok (weight t)"
  by (simp add: weight_at_def weight_def NICE_MIN_def NICE_MAX_def)

lemma weight_pos: "nice_ok t \<Longrightarrow> 15 \<le> weight t \<and> weight t \<le> 88761"
  unfolding weight_def NICE_MIN_def NICE_MAX_def by (rule prio_to_weight_bounds) linarith

lemma weight_mono:
  assumes "nice_ok t" "nice_ok u" "nice t \<le> nice u"
  shows "weight u \<le> weight t"
proof (cases "nice t = nice u")
  case False
  then have "nat (nice t + 20) < nat (nice u + 20)" "nat (nice u + 20) < 40"
    using assms by (auto simp: NICE_MIN_def NICE_MAX_def)
  then show ?thesis using prio_to_weight_decreasing unfolding weight_def by (simp add: less_imp_le)
qed (simp add: weight_def)

lemma weight_at_returns: "weight_at i = Panic \<or> (\<exists>w. weight_at i = Ok w)"
  by (simp add: weight_at_def)

lemma calc_vruntime_returns: "calc_vruntime t bonus = Panic \<or> (\<exists>v. calc_vruntime t bonus = Ok v)"
  using weight_at_returns [of "NICE_DEFAULT + bonus"] weight_at_returns [of "nice t + bonus"]
  by (auto simp: calc_vruntime_def)

lemma calc_vruntime_run:
  "nice_ok t \<Longrightarrow> calc_vruntime t 20 = Ok (vruntime t + (timer_stop t - timer_start t) * 1024 sdiv weight t)"
  by (simp add: calc_vruntime_def Let_def weight_at_def [of 20] NICE_DEFAULT_def) (simp add: prio_to_weight_def)

lemma sdiv_pos: "0 \<le> a \<Longrightarrow> 0 < b \<Longrightarrow> a sdiv b = a div b" for a b :: int
  by (cases "a = 0") (auto simp: signed_divide_int_def sgn_if)

lemma weight_loop_sum:
  assumes "\<forall>t\<in>set xs. nice_ok (ts t)"
  shows "weight_loop ts xs tw = Ok (tw + sum_list (map (\<lambda>t. weight (ts t)) xs))"
  using assms by (induction xs arbitrary: tw) auto

section \<open>The thread that runs next\<close>

lemma before_asym: "before ts t u \<Longrightarrow> \<not> before ts u t"
  by (auto simp: before_def)

lemma find_thread_least:
  assumes "ready_list rq \<noteq> []"
  shows "\<exists>us t vs. find_thread ts rq = Ok t \<and> ready_list rq = us @ t # vs
    \<and> (\<forall>u\<in>set us. before ts t u) \<and> (\<forall>u\<in>set vs. \<not> before ts u t)"
proof -
  obtain x xs where x: "ready_list rq = x # xs" using assms by (cases "ready_list rq") auto
  define m where "m = foldl (\<lambda>m e. if before ts e m then e else m) x xs"
  have "find_thread ts rq = Ok m" using x by (simp add: find_thread_def m_def before_def)
  moreover have "\<exists>us vs. x # xs = us @ m # vs \<and> (\<forall>u\<in>set us. before ts m u) \<and> (\<forall>v\<in>set vs. \<not> before ts v m)"
    unfolding m_def by (rule foldl_max [of "\<lambda>a b. before ts b a"]) (auto simp: before_def)
  ultimately show ?thesis using x by auto
qed

lemma sched_pick_next_split:
  assumes "ready_list rq \<noteq> []" "distinct (ready_list rq)"
  obtains us t vs where "ready_list rq = us @ t # vs"
    "\<forall>u\<in>set (us @ vs). \<not> before ts u t"
    "sched_pick_next ts rq now =
       Ok (t, ts(t := (ts t)\<lparr>timer_start := now\<rparr>), rq\<lparr>ready_list := us @ vs, nr_ready := nr_ready rq - 1\<rparr>)"
proof -
  obtain us t vs where t: "find_thread ts rq = Ok t" "ready_list rq = us @ t # vs"
    "\<forall>u\<in>set us. before ts t u" "\<forall>u\<in>set vs. \<not> before ts u t" using find_thread_least [OF assms(1)] by blast
  have "t \<notin> set us" using assms(2) t(2) by auto
  then have r: "remove1 t (us @ t # vs) = us @ vs" by (simp add: remove1_append)
  show thesis
  proof (rule that [OF t(2)])
    show "\<forall>u\<in>set (us @ vs). \<not> before ts u t" using t(3,4) before_asym by (metis Un_iff set_append)
    show "sched_pick_next ts rq now =
       Ok (t, ts(t := (ts t)\<lparr>timer_start := now\<rparr>), rq\<lparr>ready_list := us @ vs, nr_ready := nr_ready rq - 1\<rparr>)"
      using t(1,2) r by (simp add: sched_pick_next_def Let_def)
  qed
qed

section \<open>The least virtual run time\<close>

definition runnable :: "ready_queue \<Rightarrow> nat set" where
  "runnable rq = set (ready_list rq) \<union> (if rq_curr rq = 0 then {} else {rq_curr rq})"

lemma min64_fold:
  fixes f :: "nat \<Rightarrow> int" and m :: int
  defines "r \<equiv> \<lambda>m xs. foldl (\<lambda>m t. min64 (f t) m) m xs"
  shows "r m xs \<le> m" "\<forall>t\<in>set xs. f t = 0 \<or> r m xs \<le> f t" "r m xs = m \<or> (\<exists>t\<in>set xs. f t \<noteq> 0 \<and> r m xs = f t)"
proof -
  have "r m xs \<le> m \<and> (\<forall>t\<in>set xs. f t = 0 \<or> r m xs \<le> f t) \<and> (r m xs = m \<or> (\<exists>t\<in>set xs. f t \<noteq> 0 \<and> r m xs = f t))"
    unfolding r_def by (induction xs rule: rev_induct) (auto simp: min64_def)
  then show "r m xs \<le> m" "\<forall>t\<in>set xs. f t = 0 \<or> r m xs \<le> f t" "r m xs = m \<or> (\<exists>t\<in>set xs. f t \<noteq> 0 \<and> r m xs = f t)"
    by auto
qed

lemma set_min_vruntime_min:
  assumes "\<forall>t\<in>runnable rq. vruntime (ts t) < INT64_MAX"
  shows "\<exists>M. set_min_vruntime ts rq = rq\<lparr>min_vruntime := M\<rparr>
    \<and> (\<forall>t\<in>runnable rq. vruntime (ts t) \<noteq> 0 \<longrightarrow> M \<noteq> 0 \<and> M \<le> vruntime (ts t))
    \<and> (M = 0 \<or> (\<exists>t\<in>runnable rq. vruntime (ts t) = M))"
proof -
  let ?f = "\<lambda>t. vruntime (ts t)"
  define m where "m = (if rq_curr rq \<noteq> 0 then min64 (?f (rq_curr rq)) INT64_MAX else INT64_MAX)"
  define r where "r = foldl (\<lambda>m t. min64 (?f t) m) m (ready_list rq)"
  have m: "m = INT64_MAX \<and> (rq_curr rq = 0 \<or> ?f (rq_curr rq) = 0) \<or> rq_curr rq \<noteq> 0 \<and> m = ?f (rq_curr rq) \<and> m \<noteq> 0"
    using assms by (auto simp: m_def min64_def runnable_def)
  note k = min64_fold [where f = ?f and m = m and xs = "ready_list rq", folded r_def]
  have "set_min_vruntime ts rq = rq\<lparr>min_vruntime := (if r = INT64_MAX then 0 else r)\<rparr>"
    by (simp add: set_min_vruntime_def r_def m_def Let_def)
  moreover have "\<forall>t\<in>runnable rq. ?f t \<noteq> 0 \<longrightarrow> (if r = INT64_MAX then 0 else r) \<noteq> 0 \<and> (if r = INT64_MAX then 0 else r) \<le> ?f t"
    using k m assms by (fastforce simp: runnable_def INT64_MAX_def split: if_splits)
  moreover have "(if r = INT64_MAX then 0 else r) = 0 \<or> (\<exists>t\<in>runnable rq. ?f t = (if r = INT64_MAX then 0 else r))"
    using k(3) m by (auto simp: runnable_def)
  ultimately show ?thesis by blast
qed

section \<open>The scheduling period\<close>

lemma ideal_runtime_share:
  assumes "\<forall>t\<in>set (ready_list rq) \<union> {rq_curr rq}. nice_ok (ts t)" "rq_curr rq \<noteq> 0"
    and "unat (nr_ready rq) = length (ready_list rq)" "length (ready_list rq) < 2 ^ 32 - 1"
    and "t \<in> set (rq_curr rq # ready_list rq)"
  shows "calc_ideal_runtime ts rq t =
    Ok (4000000 * int (Suc (length (ready_list rq))) * weight (ts t) div (\<Sum>u\<leftarrow>rq_curr rq # ready_list rq. weight (ts u)))"
proof -
  let ?s = "\<Sum>u\<leftarrow>rq_curr rq # ready_list rq. weight (ts u)"
  have w: "15 \<le> weight (ts u)" if "u \<in> set (rq_curr rq # ready_list rq)" for u
    using weight_pos [of "ts u"] assms(1) that by auto
  have "0 \<le> (\<Sum>u\<leftarrow>ready_list rq. weight (ts u))" by (rule sum_list_nonneg) (use w in force)
  then have s: "0 < ?s" using w [of "rq_curr rq"] by simp
  have "unat (nr_ready rq + 1) = Suc (length (ready_list rq))"
    using assms(3,4) unat_add_lem [of "nr_ready rq" 1] by simp
  then have n: "uint (nr_ready rq + 1) = int (Suc (length (ready_list rq)))" by (simp add: uint_nat)
  have "queue_total_weight ts rq = Ok ?s"
    using assms(1,2) s by (simp add: queue_total_weight_def weight_loop_sum)
  moreover have "weight_at (nice (ts t) + 20) = Ok (weight (ts t))" by (rule weight_at_nice) (use assms(1,5) in auto)
  moreover have "0 \<le> weight (ts t)" using w [OF assms(5)] by simp
  ultimately show ?thesis using assms(2) n s by (simp add: calc_ideal_runtime_def sdiv_pos)
qed

lemma sum_div_le: "0 < s \<Longrightarrow> (\<Sum>x\<leftarrow>xs. c * f x div s) * s \<le> c * (\<Sum>x\<leftarrow>xs. f x)" for s c :: int
proof (induction xs)
  case (Cons x xs)
  have "c * f x div s * s \<le> c * f x" using Cons(2) by (metis div_mult_mod_eq le_add_same_cancel1 pos_mod_sign)
  then show ?case using Cons by (simp add: algebra_simps)
qed simp

lemma sum_div_ge: "0 < s \<Longrightarrow> c * (\<Sum>x\<leftarrow>xs. f x) \<le> ((\<Sum>x\<leftarrow>xs. c * f x div s) + int (length xs)) * s" for s c :: int
proof (induction xs)
  case (Cons x xs)
  have "c * f x < (c * f x div s + 1) * s"
    using Cons(2) by (metis add.commute distrib_right div_mult_mod_eq mult_1 add_strict_left_mono pos_mod_bound)
  then show ?case using Cons by (simp add: algebra_simps)
qed simp

section \<open>What the policy does not change\<close>

text \<open>Only the times of a thread are touched.\<close>

definition static :: "thread \<Rightarrow> int \<times> thread_status \<times> int \<times> nat \<times> u32 \<times> bytes \<times> nat" where
  "static t = (tid t, status t, nice t, tcpu t, magic t, tname t, pagedir t)"

lemma static_upd [simp]:
  "static (t\<lparr>timer_stop := a\<rparr>) = static t" "static (t\<lparr>timer_start := a\<rparr>) = static t" "static (t\<lparr>vruntime := a\<rparr>) = static t"
  by (simp_all add: static_def)

definition timed :: "threads \<Rightarrow> threads \<Rightarrow> bool" where
  "timed ts ts' \<longleftrightarrow> (\<forall>u. static (ts' u) = static (ts u))"

lemma timed_refl [simp]: "timed ts ts"
  by (simp add: timed_def)

lemma timed_trans: "timed ts ts' \<Longrightarrow> timed ts' ts'' \<Longrightarrow> timed ts ts''"
  by (simp add: timed_def)

lemma timed_upd [simp]: "timed ts ts' \<Longrightarrow> static r = static (ts u) \<Longrightarrow> timed ts (ts'(u := r))"
  by (simp add: timed_def)

lemma timed_fields:
  assumes "timed ts ts'"
  shows "tid (ts' u) = tid (ts u)" "status (ts' u) = status (ts u)" "nice (ts' u) = nice (ts u)" "tcpu (ts' u) = tcpu (ts u)"
    "magic (ts' u) = magic (ts u)" "tname (ts' u) = tname (ts u)" "pagedir (ts' u) = pagedir (ts u)"
  using assms by (simp_all add: timed_def static_def)

lemma timed_sched_block [simp]: "timed ts (sched_block ts u now)"
  by (simp add: sched_block_def)

lemma set_min_vruntime_keeps [simp]:
  "ready_list (set_min_vruntime ts rq) = ready_list rq" "nr_ready (set_min_vruntime ts rq) = nr_ready rq"
  "rq_curr (set_min_vruntime ts rq) = rq_curr rq" "idle_thread (set_min_vruntime ts rq) = idle_thread rq"
  by (simp_all add: set_min_vruntime_def Let_def)

lemma sched_unblock_frame:
  assumes "sched_unblock ts rq t initial now now' = Ok (a, ts', rq')"
  shows "timed ts ts'" "ready_list rq' = ready_list rq @ [t]" "nr_ready rq' = nr_ready rq + 1"
    "rq_curr rq' = rq_curr rq" "idle_thread rq' = idle_thread rq" "a = (if rq_curr rq = 0 \<or> \<not> initial then RETURN_YIELD else RETURN_NONE)"
proof -
  have "timed ts ts' \<and> ready_list rq' = ready_list rq @ [t] \<and> nr_ready rq' = nr_ready rq + 1 \<and> rq_curr rq' = rq_curr rq
    \<and> idle_thread rq' = idle_thread rq \<and> a = (if rq_curr rq = 0 \<or> \<not> initial then RETURN_YIELD else RETURN_NONE)"
  proof (cases "rq_curr rq = 0")
    case True
    then show ?thesis using assms by (auto simp: sched_unblock_def)
  next
    case False
    then show ?thesis using assms
      by (cases initial) (clarsimp simp: sched_unblock_def Let_def bind_eq_Ok, (simp add: timed_def)?)+
  qed
  then show "timed ts ts'" "ready_list rq' = ready_list rq @ [t]" "nr_ready rq' = nr_ready rq + 1"
    "rq_curr rq' = rq_curr rq" "idle_thread rq' = idle_thread rq" "a = (if rq_curr rq = 0 \<or> \<not> initial then RETURN_YIELD else RETURN_NONE)"
    by blast+
qed

lemma sched_yield_frame:
  assumes "sched_yield ts rq t now = Ok (ts', rq')"
  shows "timed ts ts'" "rq' = rq\<lparr>ready_list := ready_list rq @ [t], nr_ready := nr_ready rq + 1\<rparr>"
  using assms unfolding sched_yield_def by (auto simp: Let_def outcome_simps)

lemma sched_tick_frame:
  assumes "sched_tick ts rq t now = Ok (a, rq')"
  shows "ready_list rq' = ready_list rq" "nr_ready rq' = nr_ready rq" "rq_curr rq' = rq_curr rq" "idle_thread rq' = idle_thread rq"
  using assms unfolding sched_tick_def by (auto simp: Let_def outcome_simps split: if_splits)

section \<open>Properties\<close>

definition demo_thread :: "int \<Rightarrow> int \<Rightarrow> int \<Rightarrow> thread" where
  "demo_thread i n v = \<lparr>tid = i, status = THREAD_READY, tname = [], nice = n, tcpu = 0, vruntime = v, timer_start = 0, timer_stop = 0, pagedir = 0, magic = 0\<rparr>"

definition demo_threads :: threads where
  "demo_threads = (\<lambda>_. demo_thread 0 0 0)(1 := demo_thread 1 0 50, 2 := demo_thread 2 5 30, 3 := demo_thread 3 (-5) 30)"

definition demo_rq :: ready_queue where
  "demo_rq = \<lparr>rq_curr = 1, idle_thread = 9, thread_ticks = 0, ready_list = [3, 2], nr_ready = 2, min_vruntime = 0, last_time = 0, active = True\<rparr>"



text \<open>
  C30: \<open>sched_pick_next\<close> removes from a non-empty ready list the thread with the least virtual run time,
  of these the one with the least thread identifier, starts its clock and leaves every
  other thread where it was.
\<close>
theorem sched_pick_next_least:
  assumes "ready_list rq \<noteq> []" "distinct (ready_list rq)"
  shows "\<exists>t us vs. ready_list rq = us @ t # vs
    \<and> sched_pick_next ts rq now = Ok (t, ts(t := (ts t)\<lparr>timer_start := now\<rparr>), rq\<lparr>ready_list := us @ vs, nr_ready := nr_ready rq - 1\<rparr>)
    \<and> (\<forall>u\<in>set (ready_list rq). (vruntime (ts t), tid (ts t)) = (vruntime (ts u), tid (ts u))
        \<or> vruntime (ts t) < vruntime (ts u) \<or> vruntime (ts t) = vruntime (ts u) \<and> tid (ts t) < tid (ts u))"
proof -
  obtain us t vs where "ready_list rq = us @ t # vs" "\<forall>u\<in>set (us @ vs). \<not> before ts u t"
    "sched_pick_next ts rq now = Ok (t, ts(t := (ts t)\<lparr>timer_start := now\<rparr>), rq\<lparr>ready_list := us @ vs, nr_ready := nr_ready rq - 1\<rparr>)"
    using sched_pick_next_split [OF assms] by blast
  moreover from this(1,2) have "\<forall>u\<in>set (ready_list rq). u = t \<or> \<not> before ts u t" by auto
  ultimately show ?thesis unfolding before_def by (intro exI [of _ t] exI [of _ us] exI [of _ vs]) fastforce
qed

theorem sched_pick_next_least_witness:
  "\<exists>t us vs. [3, 2] = us @ t # vs \<and> sched_pick_next demo_threads demo_rq 7 =
      Ok (t, demo_threads(t := (demo_threads t)\<lparr>timer_start := 7\<rparr>), demo_rq\<lparr>ready_list := us @ vs, nr_ready := nr_ready demo_rq - 1\<rparr>)"
  using sched_pick_next_least [of demo_rq demo_threads 7] by (auto simp: demo_rq_def)

text \<open>
  C31: a blocked thread with a negative nice value cannot be woken up while another thread runs:
  \<open>sched_unblock\<close> reads the weight table before its first entry.
\<close>
theorem sched_unblock_negative_nice:
  assumes "rq_curr rq \<noteq> 0" "t \<noteq> rq_curr rq" "nice (ts t) < 0"
  shows "sched_unblock ts rq t False now now' = Panic"
proof -
  have "calc_vruntime (ts t) 0 = Panic" using assms(3) by (simp add: calc_vruntime_def weight_at_def NICE_DEFAULT_def)
  moreover obtain v where "calc_vruntime ((ts (rq_curr rq))\<lparr>timer_stop := now\<rparr>) 20 = Panic
      \<or> calc_vruntime ((ts (rq_curr rq))\<lparr>timer_stop := now\<rparr>) 20 = Ok v"
    using calc_vruntime_returns by blast
  ultimately show ?thesis using assms(1,2) by (auto simp: sched_unblock_def Let_def)
qed

theorem sched_unblock_negative_nice_witness:
  "sched_unblock demo_threads (demo_rq\<lparr>ready_list := [2]\<rparr>) 3 False 10 10 = Panic"
  by (rule sched_unblock_negative_nice) (simp_all add: demo_rq_def demo_threads_def demo_thread_def)

end
