(* ===== verification/Threads.thy ===== *)
theory Threads
  imports Sched
begin

text \<open>
  Threads, \<open>threads/thread.c\<close>, on several CPUs.  \<open>running\<close> of a CPU is the thread whose stack the CPU
  is on.  A routine that takes the lock of a ready queue with interrupts off is one step, and
  a context switch moves the CPU to the stack of the next thread and finishes, in that thread,
  with \<open>thread_schedule_tail\<close>.  Pages for new threads come from the page allocator, which is an argument
  (0 for no page); pages given back are collected in \<open>freed\<close>.
\<close>

section \<open>The machine\<close>

record cpu =
  rq :: ready_queue
  running :: nat
  cs :: nat
  idle_ticks :: nat
  user_ticks :: nat
  kernel_ticks :: nat
  in_external_intr :: bool
  yield_on_return :: bool

record machine =
  threads :: threads
  cpus :: "nat \<Rightarrow> cpu"
  ncpu :: nat
  started_others :: bool
  all_list :: "nat list"
  initial_thread :: nat
  next_tid :: int
  cur_time :: int
  ipis :: "nat list"
  freed :: "nat list"

definition THREAD_MAGIC :: u32 where "THREAD_MAGIC = 0xcd6abf4b"
definition THREAD_NAME_MAX :: nat where "THREAD_NAME_MAX = 16"

definition upd_thread :: "nat \<Rightarrow> (thread \<Rightarrow> thread) \<Rightarrow> machine \<Rightarrow> machine" where
  "upd_thread t f m = m\<lparr>threads := (threads m)(t := f (threads m t))\<rparr>"

definition upd_cpu :: "nat \<Rightarrow> (cpu \<Rightarrow> cpu) \<Rightarrow> machine \<Rightarrow> machine" where
  "upd_cpu c f m = m\<lparr>cpus := (cpus m)(c := f (cpus m c))\<rparr>"

definition set_rq :: "nat \<Rightarrow> threads \<Rightarrow> ready_queue \<Rightarrow> machine \<Rightarrow> machine" where
  "set_rq c ts q m = upd_cpu c (\<lambda>p. p\<lparr>rq := q\<rparr>) (m\<lparr>threads := ts\<rparr>)"

definition is_thread :: "machine \<Rightarrow> nat \<Rightarrow> bool" where
  "is_thread m t \<longleftrightarrow> t \<noteq> 0 \<and> magic (threads m t) = THREAD_MAGIC"

definition running_thread :: "machine \<Rightarrow> nat \<Rightarrow> nat" where
  "running_thread m c = running (cpus m c)"

definition thread_current :: "machine \<Rightarrow> nat \<Rightarrow> nat outcome" where
  "thread_current m c =
     (let t = running_thread m c in
      assert (is_thread m t) (assert (status (threads m t) = THREAD_RUNNING) (Ok t)))"

definition thread_name :: "machine \<Rightarrow> nat \<Rightarrow> bytes outcome" where
  "thread_name m c = bind (thread_current m c) (\<lambda>t. Ok (tname (threads m t)))"

definition thread_tid :: "machine \<Rightarrow> nat \<Rightarrow> int outcome" where
  "thread_tid m c = bind (thread_current m c) (\<lambda>t. Ok (tid (threads m t)))"

definition thread_get_nice :: "machine \<Rightarrow> nat \<Rightarrow> int outcome" where
  "thread_get_nice m c = bind (thread_current m c) (\<lambda>t. Ok (nice (threads m t)))"

definition thread_set_nice :: "machine \<Rightarrow> nat \<Rightarrow> int \<Rightarrow> machine outcome" where
  "thread_set_nice m c n = bind (thread_current m c) (\<lambda>t. Ok (upd_thread t (\<lambda>x. x\<lparr>nice := n\<rparr>) m))"

section \<open>Creation\<close>

definition allocate_tid :: "machine \<Rightarrow> int \<times> machine" where
  "allocate_tid m = (next_tid m + 1, m\<lparr>next_tid := next_tid m + 1\<rparr>)"

definition init_thread :: "machine \<Rightarrow> nat \<Rightarrow> bytes \<Rightarrow> int \<Rightarrow> machine outcome" where
  "init_thread m t name n =
     assert (t \<noteq> 0) (assert (NICE_MIN \<le> n \<and> n \<le> NICE_MAX)
     (Ok ((upd_thread t (\<lambda>_. \<lparr>tid = 0, status = THREAD_BLOCKED, tname = take (THREAD_NAME_MAX - 1) name, nice = n, tcpu = 0,
        vruntime = 0, timer_start = 0, timer_stop = 0, pagedir = 0, magic = THREAD_MAGIC\<rparr>) m)\<lparr>all_list := all_list m @ [t]\<rparr>)))"

definition init_boot_thread :: "machine \<Rightarrow> nat \<Rightarrow> nat \<Rightarrow> machine outcome" where
  "init_boot_thread m boot_thread c =
     bind (init_thread m boot_thread (map (\<lambda>c. word_of_nat (of_char c)) ''initial'') NICE_DEFAULT) (\<lambda>m.
     let m = upd_thread boot_thread (\<lambda>x. x\<lparr>status := THREAD_RUNNING\<rparr>) m;
         (i, m) = allocate_tid m;
         m = upd_thread boot_thread (\<lambda>x. x\<lparr>tid := i, tcpu := c\<rparr>) m
     in Ok (upd_cpu c (\<lambda>p. p\<lparr>rq := (rq p)\<lparr>rq_curr := boot_thread\<rparr>\<rparr>) m))"

definition thread_init :: "machine \<Rightarrow> machine outcome" where
  "thread_init m =
     (let m = m\<lparr>all_list := []\<rparr>;
          m = upd_cpu 0 (\<lambda>p. p\<lparr>rq := sched_init (rq p)\<rparr>) m;
          m = m\<lparr>initial_thread := running_thread m 0\<rparr>
      in init_boot_thread m (initial_thread m) 0)"

definition thread_init_on_ap :: "machine \<Rightarrow> nat \<Rightarrow> machine outcome" where
  "thread_init_on_ap m c =
     (let m = upd_cpu c (\<lambda>p. p\<lparr>rq := sched_init (rq p)\<rparr>) m
      in init_boot_thread m (running_thread m c) c)"

text \<open>The frames on the stack of the new thread are not part of the model.\<close>

definition do_thread_create :: "machine \<Rightarrow> nat \<Rightarrow> bytes \<Rightarrow> int \<Rightarrow> (nat \<times> machine) outcome" where
  "do_thread_create m page name n =
     (if page = 0 then Ok (0, m)
      else
        bind (init_thread m page name n) (\<lambda>m.
        let (i, m) = allocate_tid m
        in Ok (page, upd_thread page (\<lambda>x. x\<lparr>tid := i\<rparr>) m)))"

definition thread_start_idle_thread :: "machine \<Rightarrow> nat \<Rightarrow> nat \<Rightarrow> bytes \<Rightarrow> machine outcome" where
  "thread_start_idle_thread m c page idle_name =
     bind (do_thread_create m page idle_name NICE_MAX) (\<lambda>(t, m).
     assert (t \<noteq> 0)
     (let m = upd_thread t (\<lambda>x. x\<lparr>tcpu := c\<rparr>) m
      in Ok (upd_cpu c (\<lambda>p. p\<lparr>rq := (rq p)\<lparr>idle_thread := t\<rparr>\<rparr>) m)))"

definition choose_cpu_for_new_thread :: "machine \<Rightarrow> nat \<Rightarrow> nat" where
  "choose_cpu_for_new_thread m t =
     (if started_others m then nat (tid (threads m t) mod int (ncpu m)) else 0)"

definition wake_up_new_thread :: "machine \<Rightarrow> nat \<Rightarrow> machine outcome" where
  "wake_up_new_thread m t =
     (let m = upd_thread t (\<lambda>x. x\<lparr>status := THREAD_READY\<rparr>) m;
          c = choose_cpu_for_new_thread m t;
          m = upd_thread t (\<lambda>x. x\<lparr>tcpu := c\<rparr>) m
      in bind (sched_unblock (threads m) (rq (cpus m c)) t True (cur_time m) (cur_time m)) (\<lambda>(_, ts, q).
         Ok (set_rq c ts q m)))"

section \<open>Switching\<close>

definition next_thread_to_run :: "machine \<Rightarrow> nat \<Rightarrow> (nat \<times> machine) outcome" where
  "next_thread_to_run m c =
     bind (sched_pick_next (threads m) (rq (cpus m c)) (cur_time m)) (\<lambda>(ret, ts, q).
     let m = set_rq c ts q m
     in Ok (if ret = 0 then idle_thread (rq (cpus m c)) else ret, m))"

definition thread_schedule_tail :: "machine \<Rightarrow> nat \<Rightarrow> nat \<Rightarrow> machine outcome" where
  "thread_schedule_tail m c prev =
     (let cur = running_thread m c;
          m = upd_thread cur (\<lambda>x. x\<lparr>status := THREAD_RUNNING\<rparr>) m
      in if prev \<noteq> 0 \<and> status (threads m prev) = THREAD_DYING \<and> prev \<noteq> initial_thread m
         then assert (prev \<noteq> cur) (Ok (m\<lparr>freed := prev # freed m\<rparr>))
         else Ok m)"

definition schedule :: "machine \<Rightarrow> nat \<Rightarrow> machine outcome" where
  "schedule m c =
     (let cur = running_thread m c in
      bind (next_thread_to_run m c) (\<lambda>(nxt, m).
      assert (status (threads m cur) \<noteq> THREAD_RUNNING) (assert (is_thread m nxt)
      (if cur \<noteq> nxt
       then
         let m = upd_cpu c (\<lambda>p. p\<lparr>cs := cs p + 1,
                   rq := (rq p)\<lparr>rq_curr := (if nxt = idle_thread (rq p) then 0 else nxt)\<rparr>, running := nxt\<rparr>) m
         in thread_schedule_tail m c cur
       else thread_schedule_tail m c 0))))"

section \<open>The operations\<close>

text \<open>The statistics of a tick.\<close>

definition count_tick :: "thread \<Rightarrow> nat \<Rightarrow> cpu \<Rightarrow> cpu" where
  "count_tick x t p =
     (if t = idle_thread (rq p) then p\<lparr>idle_ticks := idle_ticks p + 1\<rparr>
      else if pagedir x \<noteq> 0 then p\<lparr>user_ticks := user_ticks p + 1\<rparr>
      else p\<lparr>kernel_ticks := kernel_ticks p + 1\<rparr>)"

definition thread_tick :: "machine \<Rightarrow> nat \<Rightarrow> machine outcome" where
  "thread_tick m c =
     bind (thread_current m c) (\<lambda>t.
     let m = upd_cpu c (count_tick (threads m t) t) m
     in bind (sched_tick (threads m) (rq (cpus m c)) t (cur_time m)) (\<lambda>(a, q).
        let m = upd_cpu c (\<lambda>p. p\<lparr>rq := q\<rparr>) m
        in Ok (if a = RETURN_YIELD then upd_cpu c (\<lambda>p. p\<lparr>yield_on_return := True\<rparr>) m else m)))"

definition thread_block :: "machine \<Rightarrow> nat \<Rightarrow> machine outcome" where
  "thread_block m c =
     assert (\<not> in_external_intr (cpus m c))
     (bind (thread_current m c) (\<lambda>curr.
      let m = upd_thread curr (\<lambda>x. x\<lparr>status := THREAD_BLOCKED\<rparr>) m
      in schedule (m\<lparr>threads := sched_block (threads m) curr (cur_time m)\<rparr>) c))"

definition thread_unblock :: "machine \<Rightarrow> nat \<Rightarrow> nat \<Rightarrow> machine outcome" where
  "thread_unblock m me t =
     assert (is_thread m t)
     (let c = tcpu (threads m t) in
      assert (status (threads m t) = THREAD_BLOCKED)
      (let m = upd_thread t (\<lambda>x. x\<lparr>status := THREAD_READY\<rparr>) m
       in bind (sched_unblock (threads m) (rq (cpus m c)) t False (cur_time m) (cur_time m)) (\<lambda>(a, ts, q).
          let m = set_rq c ts q m
          in Ok (if a = RETURN_YIELD
                 then if c = me then upd_cpu me (\<lambda>p. p\<lparr>yield_on_return := True\<rparr>) m else m\<lparr>ipis := c # ipis m\<rparr>
                 else m))))"

definition thread_yield :: "machine \<Rightarrow> nat \<Rightarrow> machine outcome" where
  "thread_yield m c =
     bind (thread_current m c) (\<lambda>cur.
     assert (\<not> in_external_intr (cpus m c))
     (let m = upd_thread cur (\<lambda>x. x\<lparr>status := THREAD_READY\<rparr>) m
      in bind (if cur \<noteq> idle_thread (rq (cpus m c))
               then bind (sched_yield (threads m) (rq (cpus m c)) cur (cur_time m)) (\<lambda>(ts, q). Ok (set_rq c ts q m))
               else Ok m) (\<lambda>m. schedule m c)))"

definition do_thread_exit :: "machine \<Rightarrow> nat \<Rightarrow> machine outcome" where
  "do_thread_exit m c =
     bind (thread_current m c) (\<lambda>cur.
     let m = m\<lparr>all_list := remove1 cur (all_list m)\<rparr>;
         m = upd_thread cur (\<lambda>x. x\<lparr>status := THREAD_DYING\<rparr>) m
     in schedule m c)"

definition thread_foreach :: "machine \<Rightarrow> (nat \<Rightarrow> machine \<Rightarrow> machine) \<Rightarrow> machine" where
  "thread_foreach m func = foldl (\<lambda>m t. func t m) m (all_list m)"

text \<open>
  A yield that was requested while interrupts were off, on the way out of a handler or of
  \<open>sema_up\<close>; \<open>level_on\<close> is the interrupt level of the caller.
\<close>

definition intr_yield_if_requested :: "machine \<Rightarrow> nat \<Rightarrow> bool \<Rightarrow> machine outcome" where
  "intr_yield_if_requested m c level_on =
     (if \<not> level_on then Ok m
      else
        let should_yield = yield_on_return (cpus m c);
            m = upd_cpu c (\<lambda>p. p\<lparr>yield_on_return := False\<rparr>) m
        in if should_yield then thread_yield m c else Ok m)"

section \<open>Load balancing\<close>

text \<open>The CPU with the largest load, and the threads that move to the front of the own list.\<close>

fun busiest_loop :: "machine \<Rightarrow> nat \<Rightarrow> nat list \<Rightarrow> nat option \<Rightarrow> int \<Rightarrow> (nat option \<times> int) outcome" where
  "busiest_loop m self [] mx maxLoad = Ok (mx, maxLoad)"
| "busiest_loop m self (index # is) mx maxLoad =
     (if \<not> active (rq (cpus m index)) \<or> index = self then busiest_loop m self is mx maxLoad
      else
        bind (queue_weight (threads m) (rq (cpus m index))) (\<lambda>currLoad.
        if currLoad > maxLoad then busiest_loop m self is (Some index) currLoad
        else busiest_loop m self is mx maxLoad))"

function steal_loop :: "threads \<Rightarrow> nat list \<Rightarrow> nat list \<Rightarrow> int \<Rightarrow> int \<Rightarrow> int \<Rightarrow> bool \<Rightarrow> (threads \<times> nat list \<times> nat list) outcome" where
  "steal_loop ts victim own imbalance diff stolenWeight front =
     (if stolenWeight < imbalance then
        if victim = [] then Panic
        else
          let stolen = (if front then hd victim else last victim);
              victim = (if front then tl victim else butlast victim)
          in bind (get_thread_weight (ts stolen)) (\<lambda>w.
             let v = vruntime (ts stolen) - diff;
                 ts = ts(stolen := (ts stolen)\<lparr>vruntime := (if v < 0 then 0 else v)\<rparr>)
             in steal_loop ts victim (stolen # own) imbalance diff (stolenWeight + w) (\<not> front))
      else Ok (ts, victim, own))"
  by auto
termination
  by (relation "measure (\<lambda>(_, victim, _). length victim)") auto

definition balance_load :: "machine \<Rightarrow> nat \<Rightarrow> machine outcome" where
  "balance_load m self =
     (if \<not> active (rq (cpus m self)) then Ok m
      else
        bind (busiest_loop m self [0..<ncpu m] None 0) (\<lambda>(mx, maxLoad).
        case mx of
          None \<Rightarrow> Ok m
        | Some mx \<Rightarrow>
            bind (queue_weight (threads m) (rq (cpus m self))) (\<lambda>myLoad.
            if maxLoad \<ge> 2 * myLoad then
              let imbalance = (maxLoad - myLoad) sdiv 2;
                  diff = min_vruntime (rq (cpus m self)) - min_vruntime (rq (cpus m mx))
              in bind (steal_loop (threads m) (ready_list (rq (cpus m mx))) (ready_list (rq (cpus m self))) imbalance diff 0 True)
                   (\<lambda>(ts, victim, own).
                 let m = upd_cpu self (\<lambda>p. p\<lparr>rq := (rq p)\<lparr>ready_list := own\<rparr>\<rparr>) (m\<lparr>threads := ts\<rparr>)
                 in Ok (upd_cpu mx (\<lambda>p. p\<lparr>rq := set_min_vruntime ts ((rq p)\<lparr>ready_list := victim\<rparr>)\<rparr>) m))
            else Ok m)))"

declare steal_loop.simps [simp del]

end
