(* ===== verification/ThreadInv.thy ===== *)
theory ThreadInv
  imports Threads
begin

text \<open>
  The invariant of the thread system: every thread is where its status says.  A ready thread is
  in the ready list of its CPU and nowhere else, a running thread is the one its CPU
  runs, and the counters and the current-thread pointers of the ready queues agree with that.
\<close>

section \<open>Projections\<close>

abbreviation rl :: "machine \<Rightarrow> nat \<Rightarrow> nat list" where "rl m c \<equiv> ready_list (rq (cpus m c))"
abbreviation nr :: "machine \<Rightarrow> nat \<Rightarrow> u32" where "nr m c \<equiv> nr_ready (rq (cpus m c))"
abbreviation idl :: "machine \<Rightarrow> nat \<Rightarrow> nat" where "idl m c \<equiv> idle_thread (rq (cpus m c))"
abbreviation cur :: "machine \<Rightarrow> nat \<Rightarrow> nat" where "cur m c \<equiv> rq_curr (rq (cpus m c))"
abbreviation rn :: "machine \<Rightarrow> nat \<Rightarrow> nat" where "rn m c \<equiv> running (cpus m c)"
abbreviation st :: "machine \<Rightarrow> nat \<Rightarrow> thread_status" where "st m t \<equiv> status (threads m t)"
abbreviation tc :: "machine \<Rightarrow> nat \<Rightarrow> nat" where "tc m t \<equiv> tcpu (threads m t)"

definition home :: "machine \<Rightarrow> nat \<Rightarrow> nat set" where
  "home m c = {t \<in> set (all_list m). tc m t = c}"

lemma upd_simps [simp]:
  "threads (upd_thread t f m) = (threads m)(t := f (threads m t))" "cpus (upd_thread t f m) = cpus m"
  "threads (upd_cpu c g m) = threads m" "cpus (upd_cpu c g m) = (cpus m)(c := g (cpus m c))"
  "threads (set_rq c ts q m) = ts" "cpus (set_rq c ts q m) = (cpus m)(c := (cpus m c)\<lparr>rq := q\<rparr>)"
  by (simp_all add: upd_thread_def upd_cpu_def set_rq_def)

lemma upd_frame [simp]:
  "all_list (upd_thread t f m) = all_list m" "ncpu (upd_thread t f m) = ncpu m" "initial_thread (upd_thread t f m) = initial_thread m"
  "all_list (upd_cpu c g m) = all_list m" "ncpu (upd_cpu c g m) = ncpu m" "initial_thread (upd_cpu c g m) = initial_thread m"
  "all_list (set_rq c ts q m) = all_list m" "ncpu (set_rq c ts q m) = ncpu m" "initial_thread (set_rq c ts q m) = initial_thread m"
  "cur_time (upd_thread t f m) = cur_time m" "cur_time (upd_cpu c g m) = cur_time m" "cur_time (set_rq c ts q m) = cur_time m"
  "started_others (upd_thread t f m) = started_others m"
  by (simp_all add: upd_thread_def upd_cpu_def set_rq_def)

section \<open>The invariant\<close>

text \<open>\<open>X\<close> are the CPUs that are about to switch: no thread of theirs has the status of a running one.\<close>

definition cpu_inv :: "nat set \<Rightarrow> machine \<Rightarrow> nat \<Rightarrow> bool" where
  "cpu_inv X m c \<longleftrightarrow>
     distinct (rl m c) \<and> unat (nr m c) = length (rl m c) \<and> set (rl m c) \<subseteq> home m c \<and> idl m c \<in> home m c
     \<and> cur m c = (if rn m c = idl m c then 0 else rn m c) \<and> (c \<notin> X \<longrightarrow> rn m c \<in> home m c)"

definition thread_inv :: "nat set \<Rightarrow> machine \<Rightarrow> nat \<Rightarrow> bool" where
  "thread_inv X m t \<longleftrightarrow>
     0 < t \<and> t < 2 ^ 20 \<and> magic (threads m t) = THREAD_MAGIC \<and> tc m t < ncpu m \<and> st m t \<noteq> THREAD_DYING
     \<and> (t \<in> set (rl m (tc m t)) \<longleftrightarrow> st m t = THREAD_READY \<and> t \<noteq> idl m (tc m t))
     \<and> (st m t = THREAD_RUNNING \<longleftrightarrow> rn m (tc m t) = t \<and> tc m t \<notin> X)"

definition minv :: "nat set \<Rightarrow> machine \<Rightarrow> bool" where
  "minv X m \<longleftrightarrow> (\<forall>c<ncpu m. cpu_inv X m c) \<and> (\<forall>t\<in>set (all_list m). thread_inv X m t) \<and> distinct (all_list m)"

lemma minvD:
  assumes "minv X m"
  shows "c < ncpu m \<Longrightarrow> cpu_inv X m c" "t \<in> set (all_list m) \<Longrightarrow> thread_inv X m t"
  using assms by (auto simp: minv_def)

text \<open>The lists are short enough for their 32-bit counters.\<close>

lemma ready_short:
  assumes "minv X m" "c < ncpu m"
  shows "length (rl m c) < 2 ^ 20 + 1"
proof -
  have "set (rl m c) \<subseteq> {..<2 ^ 20}"
    using minvD(1) [OF assms] minvD(2) [OF assms(1)] by (auto simp: cpu_inv_def home_def thread_inv_def)
  then have "card (set (rl m c)) \<le> 2 ^ 20" using card_mono [of "{..<2 ^ 20 :: nat}" "set (rl m c)"] by simp
  then show ?thesis using minvD(1) [OF assms] distinct_card [of "rl m c"] by (simp add: cpu_inv_def)
qed

lemma nr_inc:
  assumes "unat (n :: u32) = length xs" "length xs < 2 ^ 20 + 1"
  shows "unat (n + 1) = length (xs @ [t])"
  using assms unat_add_lem [of n 1] by simp

lemma nr_dec:
  assumes "unat (n :: u32) = length xs" "t \<in> set xs" "distinct xs"
  shows "unat (n - 1) = length (remove1 t xs)"
proof -
  have "0 < length xs" using assms(2) by (cases xs) auto
  then have "1 \<le> n" using assms(1) by (simp add: word_le_nat_alt Suc_le_eq)
  then show ?thesis using assms by (simp add: unat_sub length_remove1)
qed

section \<open>Switching\<close>

text \<open>What \<open>schedule\<close> does to the fields the invariant speaks of.\<close>

definition least :: "threads \<Rightarrow> nat list \<Rightarrow> nat \<Rightarrow> bool" where
  "least ts xs t \<longleftrightarrow> t \<in> set xs \<and> (\<forall>u\<in>set xs. \<not> before ts u t)"

lemma schedule_fields:
  assumes "schedule m c = Ok m'" "distinct (rl m c)" "0 \<notin> set (rl m c)"
  obtains nxt where "(if rl m c = [] then nxt = idl m c else least (threads m) (rl m c) nxt)"
    "rl m' = (rl m)(c := remove1 nxt (rl m c))" "nr m' c = (if rl m c = [] then nr m c else nr m c - 1)" "\<And>d. d \<noteq> c \<Longrightarrow> nr m' d = nr m d"
    "idl m' = idl m" "cur m' = (cur m)(c := (if rn m c = nxt then cur m c else if nxt = idl m c then 0 else nxt))"
    "rn m' = (rn m)(c := nxt)" "\<And>t. st m' t = (if t = nxt then THREAD_RUNNING else st m t)"
    "\<And>t. tc m' t = tc m t" "\<And>t. magic (threads m' t) = magic (threads m t)" "\<And>t. nice (threads m' t) = nice (threads m t)"
    "all_list m' = all_list m" "ncpu m' = ncpu m"
proof (cases "rl m c = []")
  case True
  have "next_thread_to_run m c = Ok (idl m c, set_rq c (threads m) (rq (cpus m c)) m)"
    using True by (simp add: next_thread_to_run_def sched_pick_next_def)
  then show thesis using assms(1) True
    by (intro that [of "idl m c"])
       (auto simp: schedule_def Let_def running_thread_def thread_schedule_tail_def outcome_simps fun_eq_iff split: if_splits)
next
  case False
  obtain us t vs where t: "rl m c = us @ t # vs" "\<forall>u\<in>set (us @ vs). \<not> before (threads m) u t"
    "sched_pick_next (threads m) (rq (cpus m c)) (cur_time m) = Ok (t, (threads m)(t := (threads m t)\<lparr>timer_start := cur_time m\<rparr>),
       (rq (cpus m c))\<lparr>ready_list := us @ vs, nr_ready := nr m c - 1\<rparr>)"
    using sched_pick_next_split [OF False assms(2), of "threads m" "cur_time m"] by blast
  define ts q where D: "ts = (threads m)(t := (threads m t)\<lparr>timer_start := cur_time m\<rparr>)"
    "q = (rq (cpus m c))\<lparr>ready_list := us @ vs, nr_ready := nr m c - 1\<rparr>"
  have t0: "t \<noteq> 0" "t \<notin> set us" using assms(2,3) t(1) by auto
  have nt: "next_thread_to_run m c = Ok (t, set_rq c ts q m)"
    using t(3) t0 by (simp add: next_thread_to_run_def D)
  have l: "least (threads m) (rl m c) t" using t(1,2) by (auto simp: least_def before_def)
  have r: "remove1 t (rl m c) = us @ vs" using t(1) t0 by (simp add: remove1_append)
  show thesis
    using assms(1) False l r nt
    by (intro that [of t])
       (auto simp: schedule_def Let_def running_thread_def thread_schedule_tail_def outcome_simps fun_eq_iff D split: if_splits)
qed

lemma schedule_minv:
  assumes i: "minv {c} m" and c: "c < ncpu m" and s: "schedule m c = Ok m'"
  shows "minv {} m' \<and> rn m' c \<in> home m c \<and> all_list m' = all_list m \<and> ncpu m' = ncpu m
    \<and> (if rl m c = [] then rn m' c = idl m c else least (threads m) (rl m c) (rn m' c))"
proof -
  have ci: "cpu_inv {c} m c" using minvD(1) [OF i c] .
  have d: "distinct (rl m c)" "set (rl m c) \<subseteq> home m c" "idl m c \<in> home m c" "unat (nr m c) = length (rl m c)"
    using ci by (auto simp: cpu_inv_def)
  have "0 \<notin> set (rl m c)" using d(2) minvD(2) [OF i] by (auto simp: home_def thread_inv_def)
  with s d(1) obtain nxt where n: "(if rl m c = [] then nxt = idl m c else least (threads m) (rl m c) nxt)"
    "rl m' = (rl m)(c := remove1 nxt (rl m c))" "nr m' c = (if rl m c = [] then nr m c else nr m c - 1)" "\<And>d. d \<noteq> c \<Longrightarrow> nr m' d = nr m d"
    "idl m' = idl m" "cur m' = (cur m)(c := (if rn m c = nxt then cur m c else if nxt = idl m c then 0 else nxt))"
    "rn m' = (rn m)(c := nxt)" "\<And>t. st m' t = (if t = nxt then THREAD_RUNNING else st m t)"
    "\<And>t. tc m' t = tc m t" "\<And>t. magic (threads m' t) = magic (threads m t)"
    "all_list m' = all_list m" "ncpu m' = ncpu m" by (rule schedule_fields) blast
  have h: "home m' = home m" by (simp add: home_def fun_eq_iff n(9,11))
  have nh: "nxt \<in> home m c" using n(1) d(2,3) by (auto simp: least_def split: if_splits)
  have nc: "tc m nxt = c" using nh by (simp add: home_def)
  have fn: "f = g \<Longrightarrow> f x = g x" for f g :: "nat \<Rightarrow> 'x" and x by simp
  have "cpu_inv {} m' d" if "d < ncpu m" for d
  proof (cases "d = c")
    case True
    have "unat (nr m' c) = length (rl m' c)"
      using n(1) fn [OF n(2), of c] n(3) d nr_dec [of "nr m c" "rl m c" nxt] by (auto simp: least_def split: if_splits)
    then show ?thesis
      using True ci nh h d fn [OF n(2), of c] fn [OF n(5), of c] fn [OF n(6), of c] fn [OF n(7), of c] set_remove1_subset [of nxt "rl m c"]
      unfolding cpu_inv_def by auto
  next
    case False
    then show ?thesis
      using minvD(1) [OF i that] h fn [OF n(2), of d] fn [OF n(5), of d] fn [OF n(6), of d] fn [OF n(7), of d] n(4) [OF False]
      unfolding cpu_inv_def by auto
  qed
  moreover have "thread_inv {} m' t" if "t \<in> set (all_list m)" for t
  proof -
    have ti: "thread_inv {c} m t" using minvD(2) [OF i that] .
    have rd: "t \<in> set (rl m' (tc m t)) \<longleftrightarrow> t \<in> set (rl m (tc m t)) \<and> t \<noteq> nxt"
      using fn [OF n(2), of "tc m t"] d(1) nc by auto
    show ?thesis
      using ti rd fn [OF n(5), of "tc m t"] fn [OF n(7), of "tc m t"] n(8) [of t] n(9) [of t] n(10) [of t] n(12) nc
      unfolding thread_inv_def by auto
  qed
  ultimately have "minv {} m'" using i n(11,12) by (auto simp: minv_def)
  then show ?thesis using nh n(1,11,12) fn [OF n(7), of c] by auto
qed

section \<open>Entering and leaving the ready lists\<close>

text \<open>Two machines with the same queues, up to fields the invariant does not look at.\<close>

definition same_queues :: "nat set \<Rightarrow> machine \<Rightarrow> machine \<Rightarrow> bool" where
  "same_queues D m m' \<longleftrightarrow>
     (\<forall>c. rn m' c = rn m c \<and> idl m' c = idl m c \<and> cur m' c = cur m c \<and> (c \<notin> D \<longrightarrow> rl m' c = rl m c \<and> nr m' c = nr m c))
     \<and> ncpu m' = ncpu m"

definition same_threads :: "nat set \<Rightarrow> machine \<Rightarrow> machine \<Rightarrow> bool" where
  "same_threads A m m' \<longleftrightarrow>
     (\<forall>t. magic (threads m' t) = magic (threads m t) \<and> tc m' t = tc m t \<and> (t \<notin> A \<longrightarrow> st m' t = st m t))
     \<and> all_list m' = all_list m"

lemma same_home: "same_threads A m m' \<Longrightarrow> home m' = home m"
  by (simp add: same_threads_def home_def fun_eq_iff)

lemma minv_same:
  assumes "minv X m" "same_queues {} m m'" "same_threads {} m m'"
  shows "minv X m'"
proof -
  have "home m' = home m" using assms(3) by (rule same_home)
  then have "cpu_inv X m' c = cpu_inv X m c" for c using assms(2) by (simp add: cpu_inv_def same_queues_def)
  moreover have "thread_inv X m' t = thread_inv X m t" for t
    using assms(2,3) by (simp add: thread_inv_def same_queues_def same_threads_def)
  ultimately show ?thesis using assms by (simp add: minv_def same_queues_def same_threads_def)
qed

text \<open>The running thread stops running without entering a list: it blocks, or it is the idle thread.\<close>

lemma minv_stop:
  assumes i: "minv {} m" and c: "c < ncpu m" and q: "same_queues {} m m'" and t: "same_threads {rn m c} m m'"
    and s: "st m' (rn m c) = THREAD_BLOCKED \<or> st m' (rn m c) = THREAD_READY \<and> rn m c = idl m c"
  shows "minv {c} m'"
proof -
  have rc: "tc m (rn m c) = c" "rn m c \<in> set (all_list m)" using minvD(1) [OF i c] by (auto simp: cpu_inv_def home_def)
  have "home m' = home m" using t by (rule same_home)
  then have "cpu_inv {c} m' d" if "d < ncpu m" for d
    using minvD(1) [OF i that] q by (auto simp: cpu_inv_def same_queues_def)
  moreover have "thread_inv {c} m' u" if "u \<in> set (all_list m)" for u
  proof (cases "u = rn m c")
    case True
    have "u \<notin> set (rl m c)" using minvD(2) [OF i rc(2)] rc(1) True by (auto simp: thread_inv_def)
    then show ?thesis using minvD(2) [OF i rc(2)] rc(1) True q t s by (auto simp: thread_inv_def same_queues_def same_threads_def)
  next
    case False
    then show ?thesis using minvD(2) [OF i that] q t by (auto simp: thread_inv_def same_queues_def same_threads_def)
  qed
  ultimately show ?thesis using i q t by (simp add: minv_def same_queues_def same_threads_def)
qed

text \<open>A thread that is in no list enters the list of its CPU.\<close>

lemma minv_enter:
  assumes i: "minv X m" and u: "u \<in> set (all_list m)" "u \<notin> set (rl m (tc m u))" "u \<noteq> idl m (tc m u)" "st m u \<noteq> THREAD_RUNNING \<or> Y = insert (tc m u) X"
    and Y: "Y = X \<or> Y = insert (tc m u) X \<and> rn m (tc m u) = u"
    and q: "same_queues {tc m u} m m'" and t: "same_threads {u} m m'"
    and e: "rl m' (tc m u) = rl m (tc m u) @ [u]" "nr m' (tc m u) = nr m (tc m u) + 1" "st m' u = THREAD_READY"
  shows "minv Y m'"
proof -
  define c where "c = tc m u"
  have ui: "thread_inv X m u" using minvD(2) [OF i u(1)] .
  then have c: "c < ncpu m" by (simp add: thread_inv_def c_def)
  have h: "home m' = home m" using t by (rule same_home)
  have "cpu_inv Y m' d" if "d < ncpu m" for d
  proof (cases "d = c")
    case True
    have "unat (nr m' c) = length (rl m' c)"
      using nr_inc [of "nr m c" "rl m c" u] ready_short [OF i c] minvD(1) [OF i c] e by (simp add: cpu_inv_def c_def)
    moreover have "u \<in> home m c" using u(1) by (simp add: home_def c_def)
    ultimately show ?thesis using True minvD(1) [OF i c] q h e(1) u(2) Y
      by (auto simp: cpu_inv_def same_queues_def c_def [symmetric])
  next
    case False
    then show ?thesis using minvD(1) [OF i that] q h Y by (auto simp: cpu_inv_def same_queues_def c_def [symmetric])
  qed
  moreover have "thread_inv Y m' v" if "v \<in> set (all_list m)" for v
  proof (cases "v = u")
    case True
    have "rn m c = u \<longrightarrow> c \<in> Y" using ui u(4) Y by (auto simp: thread_inv_def c_def)
    then show ?thesis using True ui u(3) q t e by (auto simp: thread_inv_def same_queues_def same_threads_def c_def [symmetric])
  next
    case False
    have "v \<in> set (rl m' (tc m v)) \<longleftrightarrow> v \<in> set (rl m (tc m v))"
      using False q e(1) by (cases "tc m v = c") (auto simp: same_queues_def c_def)
    moreover have "rn m (tc m v) = v \<and> tc m v \<notin> Y \<longleftrightarrow> rn m (tc m v) = v \<and> tc m v \<notin> X" using Y False by auto
    ultimately show ?thesis using False minvD(2) [OF i that] q t
      by (auto simp: thread_inv_def same_queues_def same_threads_def)
  qed
  ultimately show ?thesis using i q t by (simp add: minv_def same_queues_def same_threads_def)
qed

section \<open>The operations keep the invariant\<close>

lemma minv_current:
  assumes "minv {} m" "c < ncpu m"
  shows "thread_current m c = Ok (rn m c)" "rn m c \<in> set (all_list m)" "tc m (rn m c) = c" "rn m c \<notin> set (rl m c)" "st m (rn m c) = THREAD_RUNNING"
proof -
  show r: "rn m c \<in> set (all_list m)" "tc m (rn m c) = c" using minvD(1) [OF assms] by (auto simp: cpu_inv_def home_def)
  have ti: "thread_inv {} m (rn m c)" using minvD(2) [OF assms(1) r(1)] .
  then show "rn m c \<notin> set (rl m c)" "st m (rn m c) = THREAD_RUNNING" using r(2) by (auto simp: thread_inv_def)
  then show "thread_current m c = Ok (rn m c)"
    using ti by (simp add: thread_current_def Let_def running_thread_def is_thread_def thread_inv_def)
qed

lemma timed_same_threads:
  assumes "timed (threads m) (threads m')" "all_list m' = all_list m"
  shows "same_threads {} m m'"
  using assms timed_fields [OF assms(1)] by (simp add: same_threads_def)

text \<open>Each operation is a change of the queues, after which blocking, yielding and exiting switch.\<close>

lemma thread_block_split:
  assumes i: "minv {} m" and c: "c < ncpu m"
  obtains m1 where "minv {c} m1" "same_queues {} m m1" "same_threads {rn m c} m m1" "st m1 (rn m c) = THREAD_BLOCKED"
    "\<forall>u v. before (threads m1) u v = before (threads m) u v"
    "thread_block m c = assert (\<not> in_external_intr (cpus m c)) (schedule m1 c)"
proof -
  note k = minv_current [OF i c]
  define m1 where "m1 = (upd_thread (rn m c) (\<lambda>x. x\<lparr>status := THREAD_BLOCKED\<rparr>) m)
    \<lparr>threads := sched_block ((threads m)(rn m c := (threads m (rn m c))\<lparr>status := THREAD_BLOCKED\<rparr>)) (rn m c) (cur_time m)\<rparr>"
  have q: "same_queues {} m m1" "same_threads {rn m c} m m1" "st m1 (rn m c) = THREAD_BLOCKED"
    by (simp_all add: same_queues_def same_threads_def m1_def sched_block_def)
  show thesis
  proof (rule that [OF minv_stop [OF i c q(1,2)] q])
    show "thread_block m c = assert (\<not> in_external_intr (cpus m c)) (schedule m1 c)"
      using k(1) by (simp add: thread_block_def m1_def Let_def)
  qed (simp_all add: q(3) before_def m1_def sched_block_def)
qed

lemma thread_block_minv:
  assumes i: "minv {} m" and c: "c < ncpu m" and s: "thread_block m c = Ok m'"
  shows "minv {} m'" "ncpu m' = ncpu m" "rl m c = [] \<Longrightarrow> rn m' c = idl m c" "rl m c \<noteq> [] \<Longrightarrow> least (threads m) (rl m c) (rn m' c)"
proof -
  obtain m1 where m1: "minv {c} m1" "same_queues {} m m1" "same_threads {rn m c} m m1" "st m1 (rn m c) = THREAD_BLOCKED"
    "\<forall>u v. before (threads m1) u v = before (threads m) u v"
    "thread_block m c = assert (\<not> in_external_intr (cpus m c)) (schedule m1 c)" by (rule thread_block_split [OF i c]) blast
  have sch: "schedule m1 c = Ok m'" using s unfolding m1(6) assert_eq_Ok by blast
  have f: "ncpu m1 = ncpu m" "rl m1 c = rl m c" "idl m1 c = idl m c" using m1(2) by (simp_all add: same_queues_def)
  note r = schedule_minv [OF m1(1) _ sch]
  show "minv {} m'" "ncpu m' = ncpu m" "rl m c = [] \<Longrightarrow> rn m' c = idl m c" "rl m c \<noteq> [] \<Longrightarrow> least (threads m) (rl m c) (rn m' c)"
    using r c f by (auto simp: least_def m1(5))
qed

lemma sched_yield_succeeds: "nice_ok (ts t) \<Longrightarrow> \<exists>r. sched_yield ts q t now = Ok r"
  using calc_vruntime_run [of "(ts t)\<lparr>timer_stop := now\<rparr>"] by (simp add: sched_yield_def)

lemma thread_yield_split:
  assumes i: "minv {} m" and c: "c < ncpu m" and s: "(\<exists>m'. thread_yield m c = Ok m') \<or> nice_ok (threads m (rn m c))"
  obtains m1 where "minv {c} m1" "same_queues {c} m m1" "same_threads {rn m c} m m1" "st m1 (rn m c) = THREAD_READY"
    "rl m1 c = (if rn m c = idl m c then rl m c else rl m c @ [rn m c])"
    "thread_yield m c = assert (\<not> in_external_intr (cpus m c)) (schedule m1 c)"
proof -
  note k = minv_current [OF i c]
  define m1 where "m1 = upd_thread (rn m c) (\<lambda>x. x\<lparr>status := THREAD_READY\<rparr>) m"
  show thesis
  proof (cases "rn m c = idl m c")
    case True
    have q: "same_queues {} m m1" "same_threads {rn m c} m m1" by (simp_all add: same_queues_def same_threads_def m1_def)
    show thesis
    proof (rule that [of m1])
      show "minv {c} m1" by (rule minv_stop [OF i c q]) (simp add: True m1_def)
      show "thread_yield m c = assert (\<not> in_external_intr (cpus m c)) (schedule m1 c)"
        using k(1) True by (simp add: thread_yield_def m1_def)
    qed (use q True in \<open>auto simp: same_queues_def m1_def\<close>)
  next
    case False
    obtain ts q where y: "sched_yield (threads m1) (rq (cpus m1 c)) (rn m c) (cur_time m1) = Ok (ts, q)"
      using s sched_yield_succeeds [of "threads m1" "rn m c"] k(1) False
      by (fastforce simp: thread_yield_def m1_def outcome_simps Let_def)
    note f = sched_yield_frame [OF y]
    let ?m2 = "set_rq c ts q m1"
    have e: "same_queues {c} m ?m2" "same_threads {rn m c} m ?m2" "rl ?m2 c = rl m c @ [rn m c]" "nr ?m2 c = nr m c + 1"
      "st ?m2 (rn m c) = THREAD_READY"
      using f(2) timed_fields [OF f(1)] by (simp_all add: same_queues_def same_threads_def m1_def)
    show thesis
    proof (rule that [of ?m2])
      show "minv {c} ?m2" by (rule minv_enter [OF i k(2), of "{c}"]) (use k False e in auto)
      show "thread_yield m c = assert (\<not> in_external_intr (cpus m c)) (schedule ?m2 c)"
        using k(1) False y by (simp add: thread_yield_def m1_def)
    qed (use e False in auto)
  qed
qed

lemma thread_yield_minv:
  assumes i: "minv {} m" and c: "c < ncpu m" and s: "thread_yield m c = Ok m'"
  shows "minv {} m' \<and> ncpu m' = ncpu m"
proof -
  obtain m1 where m1: "minv {c} m1" "same_queues {c} m m1" "same_threads {rn m c} m m1" "st m1 (rn m c) = THREAD_READY"
    "rl m1 c = (if rn m c = idl m c then rl m c else rl m c @ [rn m c])"
    "thread_yield m c = assert (\<not> in_external_intr (cpus m c)) (schedule m1 c)" by (rule thread_yield_split [OF i c]) (use s in blast)
  have sch: "schedule m1 c = Ok m'" using s unfolding m1(6) assert_eq_Ok by blast
  then show ?thesis using schedule_minv [OF m1(1) _ sch] c m1(2) by (simp add: same_queues_def)
qed

lemma thread_unblock_split:
  assumes "thread_unblock m me u = Ok m'"
  shows "st m u = THREAD_BLOCKED" "same_queues {tc m u} m m'" "same_threads {u} m m'"
    "rl m' (tc m u) = rl m (tc m u) @ [u]" "nr m' (tc m u) = nr m (tc m u) + 1" "st m' u = THREAD_READY"
    "\<forall>t. nice (threads m' t) = nice (threads m t)"
proof -
  define c m1 where D: "c = tc m u" "m1 = upd_thread u (\<lambda>x. x\<lparr>status := THREAD_READY\<rparr>) m"
  obtain a ts q where y: "sched_unblock (threads m1) (rq (cpus m1 c)) u False (cur_time m1) (cur_time m1) = Ok (a, ts, q)"
    and b: "st m u = THREAD_BLOCKED" and m': "m' = (if c = me then upd_cpu me (\<lambda>p. p\<lparr>yield_on_return := True\<rparr>) (set_rq c ts q m1)
        else (set_rq c ts q m1)\<lparr>ipis := c # ipis (set_rq c ts q m1)\<rparr>) \<or> m' = set_rq c ts q m1"
    using assms by (auto simp: thread_unblock_def D outcome_simps Let_def split: if_splits)
  note f = sched_unblock_frame [OF y]
  show "st m u = THREAD_BLOCKED" by (rule b)
  show "same_queues {tc m u} m m'" using f m' by (auto simp: same_queues_def D)
  show "same_threads {u} m m'" using timed_fields [OF f(1)] m' by (auto simp: same_threads_def D)
  show "rl m' (tc m u) = rl m (tc m u) @ [u]" "nr m' (tc m u) = nr m (tc m u) + 1" "st m' u = THREAD_READY"
    using f timed_fields(2) [OF f(1), of u] m' by (auto simp: D)
  show "\<forall>t. nice (threads m' t) = nice (threads m t)" using timed_fields(3) [OF f(1)] m' by (auto simp: D)
qed

lemma thread_unblock_minv:
  assumes i: "minv {} m" and u: "u \<in> set (all_list m)" "u \<noteq> idl m (tc m u)" and s: "thread_unblock m me u = Ok m'"
  shows "minv {} m' \<and> ncpu m' = ncpu m"
proof -
  note k = thread_unblock_split [OF s]
  have "u \<notin> set (rl m (tc m u))" using minvD(2) [OF i u(1)] k(1) by (simp add: thread_inv_def)
  then have "minv {} m'" by (intro minv_enter [OF i u(1) _ u(2)]) (use k in auto)
  then show ?thesis using k(2) by (simp add: same_queues_def)
qed

lemma do_thread_exit_minv:
  assumes i: "minv {} m" and c: "c < ncpu m" and ni: "rn m c \<noteq> idl m c" and s: "do_thread_exit m c = Ok m'"
  shows "minv {} m' \<and> ncpu m' = ncpu m \<and> all_list m' = remove1 (rn m c) (all_list m)"
proof -
  note k = minv_current [OF i c]
  define m1 where "m1 = upd_thread (rn m c) (\<lambda>x. x\<lparr>status := THREAD_DYING\<rparr>) (m\<lparr>all_list := remove1 (rn m c) (all_list m)\<rparr>)"
  have sch: "schedule m1 c = Ok m'" using s k(1) by (simp add: do_thread_exit_def m1_def Let_def)
  have al: "set (all_list m1) = set (all_list m) - {rn m c}" using i by (simp add: m1_def minv_def)
  have h: "home m1 d = home m d - {rn m c}" for d using al by (auto simp: home_def m1_def)
  have "cpu_inv {c} m1 d" if "d < ncpu m" for d
  proof -
    have "rn m c \<notin> set (rl m d)" "rn m c \<noteq> idl m d" "d \<noteq> c \<longrightarrow> rn m d \<noteq> rn m c"
      using minvD(1) [OF i that] k ni by (auto simp: cpu_inv_def home_def)
    then show ?thesis using minvD(1) [OF i that] h [of d] by (auto simp: cpu_inv_def m1_def)
  qed
  moreover have "thread_inv {c} m1 u" if "u \<in> set (all_list m1)" for u
  proof -
    have u: "u \<in> set (all_list m)" "u \<noteq> rn m c" using that al by auto
    then have "rn m (tc m u) = u \<longleftrightarrow> rn m (tc m u) = u \<and> tc m u \<noteq> c" by auto
    moreover have "thread_inv {} m u" using minvD(2) [OF i u(1)] .
    ultimately show ?thesis using u(2) by (simp add: thread_inv_def m1_def)
  qed
  ultimately have "minv {c} m1" using i by (simp add: minv_def m1_def)
  from schedule_minv [OF this _ sch] c show ?thesis by (auto simp: m1_def)
qed

lemma thread_tick_same:
  assumes "thread_tick m c = Ok m'"
  shows "same_queues {} m m'" "same_threads {} m m'"
proof -
  have p: "rq (count_tick x t p) = rq p" "running (count_tick x t p) = running p" for x t p by (simp_all add: count_tick_def)
  obtain t a q where y: "sched_tick (threads m) (rq (cpus m c)) t (cur_time m) = Ok (a, q)"
    and m': "same_queues {} (upd_cpu c (\<lambda>p. p\<lparr>rq := q\<rparr>) m) m'" "threads m' = threads m" "all_list m' = all_list m"
    using assms by (auto simp: thread_tick_def bind_eq_Ok Let_def p same_queues_def)
  note f = sched_tick_frame [OF y]
  show "same_queues {} m m'" "same_threads {} m m'" using m' f by (auto simp: same_queues_def same_threads_def)
qed

lemma thread_tick_minv: "minv {} m \<Longrightarrow> thread_tick m c = Ok m' \<Longrightarrow> minv {} m' \<and> ncpu m' = ncpu m"
  using minv_same [of "{}" m m'] thread_tick_same [of m c m'] by (simp add: same_queues_def)

lemma thread_set_nice_minv:
  assumes i: "minv {} m" and s: "thread_set_nice m c n = Ok m'"
  shows "minv {} m' \<and> ncpu m' = ncpu m"
proof -
  have "same_queues {} m m' \<and> same_threads {} m m' \<and> ncpu m' = ncpu m"
    using s by (auto simp: thread_set_nice_def outcome_simps same_queues_def same_threads_def)
  then show ?thesis using minv_same [OF i] by blast
qed

text \<open>A new thread: the page is one that no thread uses.\<close>

lemma do_thread_create_minv:
  assumes i: "minv {} m" and n: "0 < ncpu m" and pg: "0 < page" "page < 2 ^ 20" "page \<notin> set (all_list m)"
    and s: "do_thread_create m page name nc = Ok (t, m')"
  shows "t = page \<and> minv {} m' \<and> page \<in> set (all_list m') \<and> st m' page = THREAD_BLOCKED \<and> ncpu m' = ncpu m
    \<and> (\<forall>c<ncpu m. page \<notin> set (rl m' c) \<and> page \<noteq> idl m' c \<and> page \<noteq> rn m' c)"
proof -
  have f: "t = page" "rl m' = rl m" "nr m' = nr m" "idl m' = idl m" "cur m' = cur m" "rn m' = rn m" "ncpu m' = ncpu m"
    "all_list m' = all_list m @ [page]" "st m' page = THREAD_BLOCKED" "tc m' page = 0" "magic (threads m' page) = THREAD_MAGIC"
    "\<And>u. u \<noteq> page \<Longrightarrow> threads m' u = threads m u"
    using s pg(1) by (auto simp: do_thread_create_def init_thread_def allocate_tid_def outcome_simps Let_def)
  have ff: "rl m' c = rl m c" "nr m' c = nr m c" "idl m' c = idl m c" "cur m' c = cur m c" "rn m' c = rn m c" for c
    using f by (metis)+
  have h: "home m c \<subseteq> home m' c" for c using f(8,12) pg(3) by (force simp: home_def)
  have out: "page \<notin> set (rl m c) \<and> page \<noteq> idl m c \<and> page \<noteq> rn m c" if "c < ncpu m" for c
    using minvD(1) [OF i that] pg(3) by (auto simp: cpu_inv_def home_def)
  have "cpu_inv {} m' c" if "c < ncpu m" for c
    using minvD(1) [OF i that] h [of c] ff by (auto simp: cpu_inv_def)
  moreover have "thread_inv {} m' u" if "u \<in> set (all_list m')" for u
  proof (cases "u = page")
    case True
    then show ?thesis using f pg n out [of 0] ff by (auto simp: thread_inv_def)
  next
    case False
    then show ?thesis using minvD(2) [OF i, of u] that f ff by (auto simp: thread_inv_def)
  qed
  ultimately show ?thesis using i f(1,7,8,9) out ff pg(3) by (auto simp: minv_def)
qed

lemma wake_up_new_thread_minv:
  assumes i: "minv {} m" and u: "u \<in> set (all_list m)" "st m u = THREAD_BLOCKED"
    and o: "\<forall>c<ncpu m. u \<notin> set (rl m c) \<and> u \<noteq> idl m c \<and> u \<noteq> rn m c" and s: "wake_up_new_thread m u = Ok m'"
  shows "minv {} m' \<and> ncpu m' = ncpu m"
proof -
  define c where "c = choose_cpu_for_new_thread (upd_thread u (\<lambda>x. x\<lparr>status := THREAD_READY\<rparr>) m) u"
  define m0 where "m0 = upd_thread u (\<lambda>x. x\<lparr>tcpu := c\<rparr>) m"
  define m1 where "m1 = upd_thread u (\<lambda>x. x\<lparr>tcpu := c\<rparr>) (upd_thread u (\<lambda>x. x\<lparr>status := THREAD_READY\<rparr>) m)"
  have n: "0 < ncpu m" using minvD(2) [OF i u(1)] by (auto simp: thread_inv_def)
  then have cn: "c < ncpu m" by (simp add: c_def choose_cpu_for_new_thread_def nat_less_iff)
  have h: "home m d - {u} = home m0 d - {u}" for d by (auto simp: home_def m0_def)
  have "cpu_inv {} m0 d" if "d < ncpu m" for d
    using minvD(1) [OF i that] h [of d] o that by (auto simp: cpu_inv_def m0_def)
  moreover have "thread_inv {} m0 v" if "v \<in> set (all_list m)" for v
    using minvD(2) [OF i that] o cn u by (cases "v = u") (auto simp: thread_inv_def m0_def)
  ultimately have i0: "minv {} m0" using i by (simp add: minv_def m0_def)
  obtain a ts q where y: "sched_unblock (threads m1) (rq (cpus m1 c)) u True (cur_time m1) (cur_time m1) = Ok (a, ts, q)"
    and m': "m' = set_rq c ts q m1"
    using s by (auto simp: wake_up_new_thread_def m1_def outcome_simps Let_def c_def [symmetric])
  note f = sched_unblock_frame [OF y]
  have sq: "same_queues {c} m0 m'" using f m' by (auto simp: same_queues_def m0_def m1_def)
  have st: "same_threads {u} m0 m'" using timed_fields [OF f(1)] m' by (auto simp: same_threads_def m0_def m1_def)
  have e: "rl m' c = rl m0 c @ [u]" "nr m' c = nr m0 c + 1" "st m' u = THREAD_READY"
    using f timed_fields(2) [OF f(1), of u] m' by (auto simp: m0_def m1_def)
  have c0: "tc m0 u = c" by (simp add: m0_def)
  have "minv {} m'"
    by (rule minv_enter [OF i0, of u]) (use u o cn sq st e c0 in \<open>auto simp: m0_def\<close>)
  then show ?thesis using m' by (simp add: m1_def)
qed

section \<open>No assertion fails\<close>

lemma schedule_succeeds:
  assumes i: "minv {c} m" and c: "c < ncpu m" and s: "st m (rn m c) \<noteq> THREAD_RUNNING"
  shows "\<exists>m'. schedule m c = Ok m'"
proof -
  have d: "distinct (rl m c)" "set (rl m c) \<subseteq> home m c" "idl m c \<in> home m c" using minvD(1) [OF i c] by (auto simp: cpu_inv_def)
  have th: "0 < t \<and> magic (threads m t) = THREAD_MAGIC" if "t \<in> home m c" for t
    using minvD(2) [OF i] that by (auto simp: home_def thread_inv_def)
  obtain nxt ts q where n: "next_thread_to_run m c = Ok (nxt, set_rq c ts q m)" "nxt \<in> home m c" "timed (threads m) ts"
  proof (cases "rl m c = []")
    case True
    then show thesis
      using d(3) by (intro that [of "idl m c" "threads m" "rq (cpus m c)"]) (simp_all add: next_thread_to_run_def sched_pick_next_def)
  next
    case False
    obtain us t vs where t: "rl m c = us @ t # vs" "\<forall>u\<in>set (us @ vs). \<not> before (threads m) u t" "sched_pick_next (threads m) (rq (cpus m c)) (cur_time m) =
        Ok (t, (threads m)(t := (threads m t)\<lparr>timer_start := cur_time m\<rparr>), (rq (cpus m c))\<lparr>ready_list := us @ vs, nr_ready := nr m c - 1\<rparr>)"
      using sched_pick_next_split [OF False d(1), of "threads m" "cur_time m"] by blast
    have "t \<in> home m c" using d(2) t(1) by auto
    moreover from this have "t \<noteq> 0" using th by blast
    ultimately show thesis
      using t(3) by (intro that [of t "(threads m)(t := (threads m t)\<lparr>timer_start := cur_time m\<rparr>)"
          "(rq (cpus m c))\<lparr>ready_list := us @ vs, nr_ready := nr m c - 1\<rparr>"]) (simp_all add: next_thread_to_run_def)
  qed
  have "magic (ts nxt) = THREAD_MAGIC" "status (ts (rn m c)) = st m (rn m c)" "nxt \<noteq> 0" "magic (threads m nxt) = THREAD_MAGIC"
    using n(2,3) th timed_fields by auto
  then show ?thesis using n(1) s
    by (simp add: schedule_def running_thread_def is_thread_def thread_schedule_tail_def Let_def)
qed

lemma thread_yield_succeeds:
  assumes i: "minv {} m" and c: "c < ncpu m" and e: "\<not> in_external_intr (cpus m c)" and n: "nice_ok (threads m (rn m c))"
  shows "\<exists>m'. thread_yield m c = Ok m'"
proof -
  obtain m1 where m1: "minv {c} m1" "same_queues {c} m m1" "same_threads {rn m c} m m1" "st m1 (rn m c) = THREAD_READY"
    "rl m1 c = (if rn m c = idl m c then rl m c else rl m c @ [rn m c])"
    "thread_yield m c = assert (\<not> in_external_intr (cpus m c)) (schedule m1 c)" by (rule thread_yield_split [OF i c]) (use n in blast)
  then show ?thesis using schedule_succeeds [OF m1(1)] c e by (simp add: same_queues_def)
qed

lemma thread_block_succeeds:
  assumes i: "minv {} m" and c: "c < ncpu m" and e: "\<not> in_external_intr (cpus m c)"
  shows "\<exists>m'. thread_block m c = Ok m'"
proof -
  obtain m1 where m1: "minv {c} m1" "same_queues {} m m1" "same_threads {rn m c} m m1" "st m1 (rn m c) = THREAD_BLOCKED"
    "\<forall>u v. before (threads m1) u v = before (threads m) u v"
    "thread_block m c = assert (\<not> in_external_intr (cpus m c)) (schedule m1 c)" by (rule thread_block_split [OF i c]) blast
  then show ?thesis using schedule_succeeds [OF m1(1)] c e by (simp add: same_queues_def)
qed

lemma thread_tick_succeeds:
  assumes i: "minv {} m" and c: "c < ncpu m" and n: "\<forall>t\<in>set (all_list m). nice_ok (threads m t)"
  shows "\<exists>m'. thread_tick m c = Ok m'"
proof -
  note k = minv_current [OF i c]
  have p: "rq (count_tick x t p) = rq p" for x t p by (simp add: count_tick_def)
  have r: "set (rl m c) \<subseteq> set (all_list m)" "cur m c = 0 \<or> cur m c \<in> set (all_list m)"
    using minvD(1) [OF i c] by (auto simp: cpu_inv_def home_def)
  then have nk: "\<forall>t\<in>set (rl m c). nice_ok (threads m t)" "cur m c = 0 \<or> nice_ok (threads m (cur m c))" "nice_ok (threads m (rn m c))"
    using n k(2) by auto
  then have "\<exists>s. queue_total_weight (threads m) (rq (cpus m c)) = Ok s"
    by (auto simp: queue_total_weight_def weight_loop_sum)
  then have "\<exists>r. sched_tick (threads m) (rq (cpus m c)) (rn m c) (cur_time m) = Ok r"
    using nk(3) by (auto simp: sched_tick_def calc_ideal_runtime_def Let_def)
  then show ?thesis using k(1) by (auto simp: thread_tick_def p Let_def)
qed

end
