(* ===== verification/ThreadSteps.thy ===== *)
theory ThreadSteps
  imports ThreadInv
begin

text \<open>
  Executions of the thread system as sequences of steps of any CPUs, and what holds in every
  state they reach.
\<close>

text \<open>
  A step is one operation of \<open>thread.c\<close>.  Only a blocked thread that is not an idle thread is unblocked
  (the callers take it from a wait list), the idle thread does not exit, and the page
  allocator gives a page that no thread uses.
\<close>

inductive sched_step :: "machine \<Rightarrow> machine \<Rightarrow> bool" where
  yield: "c < ncpu m \<Longrightarrow> thread_yield m c = Ok m' \<Longrightarrow> sched_step m m'"
| block: "c < ncpu m \<Longrightarrow> thread_block m c = Ok m' \<Longrightarrow> sched_step m m'"
| unblock: "u \<in> set (all_list m) \<Longrightarrow> u \<noteq> idl m (tc m u) \<Longrightarrow> thread_unblock m c u = Ok m' \<Longrightarrow> sched_step m m'"
| create: "0 < ncpu m \<Longrightarrow> 0 < page \<Longrightarrow> page < 2 ^ 20 \<Longrightarrow> page \<notin> set (all_list m) \<Longrightarrow> do_thread_create m page name n = Ok (t, m1) \<Longrightarrow>
    wake_up_new_thread m1 t = Ok m' \<Longrightarrow> sched_step m m'"
| exit: "c < ncpu m \<Longrightarrow> rn m c \<noteq> idl m c \<Longrightarrow> do_thread_exit m c = Ok m' \<Longrightarrow> sched_step m m'"
| tick: "c < ncpu m \<Longrightarrow> thread_tick m c = Ok m' \<Longrightarrow> sched_step m m'"
| set_nice: "thread_set_nice m c n = Ok m' \<Longrightarrow> sched_step m m'"
| time: "sched_step m (m\<lparr>cur_time := now\<rparr>)"
| ipi: "sched_step m (upd_cpu c (\<lambda>p. p\<lparr>yield_on_return := y, in_external_intr := e\<rparr>) m)"

lemma sched_step_minv: "sched_step m m' \<Longrightarrow> minv {} m \<Longrightarrow> minv {} m'"
proof (induction rule: sched_step.induct)
  case (create m page name n t m1 m')
  from do_thread_create_minv [OF create(7,1-5)] wake_up_new_thread_minv [of m1 t m'] create(6) show ?case by auto
next
  case (time m now)
  then show ?case by (rule minv_same) (auto simp: same_queues_def same_threads_def)
next
  case (ipi m c y e)
  then show ?case by (rule minv_same) (auto simp: same_queues_def same_threads_def)
next
  case (yield c m m')
  then show ?case using thread_yield_minv(1) by blast
next
  case (block c m m')
  then show ?case using thread_block_minv(1) by blast
next
  case (unblock u m c m')
  then show ?case using thread_unblock_minv [of m u c m'] by blast
next
  case (exit c m m')
  then show ?case using do_thread_exit_minv by blast
next
  case (tick c m m')
  then show ?case using thread_tick_minv by blast
next
  case (set_nice m c n m')
  then show ?case using thread_set_nice_minv by blast
qed

lemma sched_steps_minv: "sched_step\<^sup>*\<^sup>* m m' \<Longrightarrow> minv {} m \<Longrightarrow> minv {} m'"
  by (induction rule: rtranclp_induct) (auto intro: sched_step_minv)

section \<open>Booting\<close>

lemma boot_minv:
  assumes i: "thread_init m = Ok m1" and s: "thread_start_idle_thread m1 0 page name = Ok m2"
    and n: "ncpu m = 1" "nr m 0 = 0" and r: "0 < rn m 0" "rn m 0 < 2 ^ 20" "0 < page" "page < 2 ^ 20" "page \<noteq> rn m 0"
  shows "minv {} m2"
proof -
  let ?t = "rn m 0"
  have f1: "rl m1 0 = []" "nr m1 0 = 0" "cur m1 0 = ?t" "rn m1 0 = ?t" "ncpu m1 = 1" "all_list m1 = [?t]"
    "st m1 ?t = THREAD_RUNNING" "tc m1 ?t = 0" "magic (threads m1 ?t) = THREAD_MAGIC"
    using i n by (auto simp: thread_init_def init_boot_thread_def init_thread_def allocate_tid_def sched_init_def running_thread_def
        outcome_simps Let_def)
  have f2: "rl m2 0 = []" "nr m2 0 = 0" "cur m2 0 = ?t" "rn m2 0 = ?t" "idl m2 0 = page" "ncpu m2 = 1" "all_list m2 = [?t, page]"
    "st m2 ?t = THREAD_RUNNING" "tc m2 ?t = 0" "magic (threads m2 ?t) = THREAD_MAGIC"
    "st m2 page = THREAD_BLOCKED" "tc m2 page = 0" "magic (threads m2 page) = THREAD_MAGIC"
    using s f1 r by (auto simp: thread_start_idle_thread_def do_thread_create_def init_thread_def allocate_tid_def outcome_simps Let_def)
  have "home m2 0 = {?t, page}" using f2 by (auto simp: home_def)
  then have "cpu_inv {} m2 0" using f2 r(5) by (simp add: cpu_inv_def)
  moreover have "thread_inv {} m2 ?t" "thread_inv {} m2 page" using f2 r by (simp_all add: thread_inv_def)
  ultimately show ?thesis using f2(6,7) r(5) by (auto simp: minv_def)
qed

section \<open>Properties\<close>

definition boot_machine :: machine where
  "boot_machine = \<lparr>threads = (\<lambda>_. demo_thread 0 0 0),
     cpus = (\<lambda>_. \<lparr>rq = \<lparr>rq_curr = 0, idle_thread = 0, thread_ticks = 0, ready_list = [], nr_ready = 0, min_vruntime = 0, last_time = 0, active = False\<rparr>,
       running = 1, cs = 0, idle_ticks = 0, user_ticks = 0, kernel_ticks = 0, in_external_intr = False, yield_on_return = False\<rparr>),
     ncpu = 1, started_others = False, all_list = [], initial_thread = 0, next_tid = 0, cur_time = 0, ipis = [], freed = []\<rparr>"



definition busy_machine :: machine where
  "busy_machine = boot_machine\<lparr>
     threads := (\<lambda>_. demo_thread 0 0 0)(1 := (demo_thread 1 0 9)\<lparr>status := THREAD_RUNNING, magic := THREAD_MAGIC\<rparr>,
       2 := (demo_thread 2 19 0)\<lparr>status := THREAD_BLOCKED, magic := THREAD_MAGIC\<rparr>,
       3 := (demo_thread 3 0 8)\<lparr>magic := THREAD_MAGIC\<rparr>, 4 := (demo_thread 4 0 7)\<lparr>magic := THREAD_MAGIC\<rparr>),
     cpus := (\<lambda>c. (cpus boot_machine c)\<lparr>rq := (rq (cpus boot_machine c))\<lparr>rq_curr := 1, idle_thread := 2, ready_list := [3, 4], nr_ready := 2\<rparr>\<rparr>),
     all_list := [1, 2, 3, 4]\<rparr>"

lemma busy_minv: "minv {} busy_machine"
proof -
  have "home busy_machine 0 = {1, 2, 3, 4}"
    by (auto simp: home_def busy_machine_def boot_machine_def demo_thread_def)
  then have "cpu_inv {} busy_machine 0"
    by (simp add: cpu_inv_def) (simp add: busy_machine_def boot_machine_def)
  moreover have "thread_inv {} busy_machine t" if "t \<in> {1, 2, 3, 4}" for t
    using that by (auto simp: thread_inv_def busy_machine_def boot_machine_def demo_thread_def)
  moreover have "ncpu busy_machine = 1" "all_list busy_machine = [1, 2, 3, 4]" by (simp_all add: busy_machine_def boot_machine_def)
  ultimately show ?thesis by (simp add: minv_def)
qed



end
