(* ===== verification/ThreadPark.thy ===== *)
theory ThreadPark
  imports ThreadSteps
begin

text \<open>
  Threads that sleep in a wait list.  A set of parked threads stays blocked through every
  operation of the thread system until one of them is unblocked; semaphores and
  sleeping on the timer keep their wait lists this way.
\<close>

definition parked :: "machine \<Rightarrow> nat set \<Rightarrow> bool" where
  "parked m W \<longleftrightarrow> (\<forall>t\<in>W. t \<in> set (all_list m) \<and> st m t = THREAD_BLOCKED \<and> (\<forall>c<ncpu m. t \<noteq> idl m c))"

lemma parked_subset: "parked m W \<Longrightarrow> V \<subseteq> W \<Longrightarrow> parked m V"
  by (auto simp: parked_def)

lemma schedule_parked:
  assumes i: "minv {c} m" and c: "c < ncpu m" and p: "parked m W" and s: "schedule m c = Ok m'"
  shows "parked m' W"
proof -
  have d: "distinct (rl m c)" "set (rl m c) \<subseteq> home m c" using minvD(1) [OF i c] by (auto simp: cpu_inv_def)
  have "0 \<notin> set (rl m c)" using d(2) minvD(2) [OF i] by (auto simp: home_def thread_inv_def)
  with s d(1) obtain nxt where n: "(if rl m c = [] then nxt = idl m c else least (threads m) (rl m c) nxt)" "idl m' = idl m"
    "\<And>t. st m' t = (if t = nxt then THREAD_RUNNING else st m t)" "all_list m' = all_list m" "ncpu m' = ncpu m"
    by (rule schedule_fields) blast
  have "nxt \<notin> W"
  proof (cases "rl m c = []")
    case True
    then show ?thesis using n(1) p c by (auto simp: parked_def)
  next
    case False
    then have "nxt \<in> set (rl m c)" using n(1) by (simp add: least_def)
    then have "st m nxt = THREAD_READY" using d(2) minvD(2) [OF i, of nxt] by (auto simp: home_def thread_inv_def)
    then show ?thesis using p by (auto simp: parked_def)
  qed
  then show ?thesis using p n by (auto simp: parked_def fun_eq_iff)
qed

lemma parked_change:
  assumes "parked m W" "same_queues D m m'" "same_threads A m m'" "A \<inter> W = {}"
  shows "parked m' W"
  using assms by (fastforce simp: parked_def same_queues_def same_threads_def)

lemma thread_block_parked:
  assumes i: "minv {} m" and c: "c < ncpu m" and p: "parked m W" and ni: "rn m c \<noteq> idl m c" and s: "thread_block m c = Ok m'"
  shows "parked m' (insert (rn m c) W)"
proof -
  note k = minv_current [OF i c]
  obtain m1 where m1: "minv {c} m1" "same_queues {} m m1" "same_threads {rn m c} m m1" "st m1 (rn m c) = THREAD_BLOCKED"
    "\<forall>u v. before (threads m1) u v = before (threads m) u v"
    "thread_block m c = assert (\<not> in_external_intr (cpus m c)) (schedule m1 c)" by (rule thread_block_split [OF i c]) blast
  have sch: "schedule m1 c = Ok m'" using s unfolding m1(6) assert_eq_Ok by blast
  have "parked m1 W" by (rule parked_change [OF p m1(2,3)]) (use p k(5) in \<open>auto simp: parked_def\<close>)
  moreover have "rn m c \<noteq> idl m d" if "d < ncpu m" for d
    using minvD(1) [OF i that] k(3) ni by (auto simp: cpu_inv_def home_def)
  ultimately have "parked m1 (insert (rn m c) W)" using m1(2-4) k(2) by (auto simp: parked_def same_queues_def same_threads_def)
  from schedule_parked [OF m1(1) _ this sch] c m1(2) show ?thesis by (simp add: same_queues_def)
qed

lemma thread_yield_parked:
  assumes i: "minv {} m" and c: "c < ncpu m" and p: "parked m W" and s: "thread_yield m c = Ok m'"
  shows "parked m' W"
proof -
  obtain m1 where m1: "minv {c} m1" "same_queues {c} m m1" "same_threads {rn m c} m m1" "st m1 (rn m c) = THREAD_READY"
    "rl m1 c = (if rn m c = idl m c then rl m c else rl m c @ [rn m c])"
    "thread_yield m c = assert (\<not> in_external_intr (cpus m c)) (schedule m1 c)" by (rule thread_yield_split [OF i c]) (use s in blast)
  have sch: "schedule m1 c = Ok m'" using s unfolding m1(6) assert_eq_Ok by blast
  have "parked m1 W" by (rule parked_change [OF p m1(2,3)]) (use p minv_current(5) [OF i c] in \<open>auto simp: parked_def\<close>)
  from schedule_parked [OF m1(1) _ this sch] c m1(2) show ?thesis by (simp add: same_queues_def)
qed

lemma thread_unblock_parked: "parked m W \<Longrightarrow> thread_unblock m me u = Ok m' \<Longrightarrow> parked m' (W - {u})"
  using parked_change [of m "W - {u}" _ m'] thread_unblock_split(2,3) [of m me u m'] parked_subset [of m W "W - {u}"] by blast

lemma thread_tick_parked: "parked m W \<Longrightarrow> thread_tick m c = Ok m' \<Longrightarrow> parked m' W"
  using parked_change [of m W "{}" m' "{}"] thread_tick_same [of m c m'] by blast

end
