(* ===== verification/Synch.thy ===== *)
theory Synch
  imports ThreadPark
begin

text \<open>
  Semaphores, locks and condition variables, \<open>threads/synch.c\<close>.  The spinlock of a semaphore makes
  each of its operations one step, up to the point where the caller sleeps: a
  \<open>sema_down\<close> that returns \<open>False\<close> has blocked its caller, which makes the same test again when it next
  runs.  \<open>c\<close> is the CPU of the caller, \<open>level_on\<close> its interrupt level.
\<close>

section \<open>Semaphores\<close>

record semaphore =
  sem_value :: u32
  waiters :: "nat list"

definition sema_init :: "u32 \<Rightarrow> semaphore" where
  "sema_init v = \<lparr>sem_value = v, waiters = []\<rparr>"

definition sema_down :: "machine \<Rightarrow> nat \<Rightarrow> semaphore \<Rightarrow> (bool \<times> machine \<times> semaphore) outcome" where
  "sema_down m c s =
     assert (\<not> in_external_intr (cpus m c))
     (if sem_value s = 0 then
        bind (thread_current m c) (\<lambda>t.
        bind (thread_block m c) (\<lambda>m. Ok (False, m, s\<lparr>waiters := waiters s @ [t]\<rparr>)))
      else Ok (True, m, s\<lparr>sem_value := sem_value s - 1\<rparr>))"

definition sema_try_down :: "semaphore \<Rightarrow> bool \<times> semaphore" where
  "sema_try_down s =
     (if sem_value s > 0 then (True, s\<lparr>sem_value := sem_value s - 1\<rparr>) else (False, s))"

definition sema_up :: "machine \<Rightarrow> nat \<Rightarrow> bool \<Rightarrow> semaphore \<Rightarrow> (machine \<times> semaphore) outcome" where
  "sema_up m c level_on s =
     bind (case waiters s of
             [] \<Rightarrow> Ok (m, s)
           | t # ts \<Rightarrow> bind (thread_unblock m c t) (\<lambda>m. Ok (m, s\<lparr>waiters := ts\<rparr>))) (\<lambda>(m, s).
     let s = s\<lparr>sem_value := sem_value s + 1\<rparr>
     in bind (intr_yield_if_requested m c level_on) (\<lambda>m. Ok (m, s)))"

section \<open>Locks\<close>

record lock =
  holder :: nat
  lock_sema :: semaphore

definition lock_init :: lock where
  "lock_init = \<lparr>holder = 0, lock_sema = sema_init 1\<rparr>"

definition lock_held_by_current_thread :: "machine \<Rightarrow> nat \<Rightarrow> lock \<Rightarrow> bool outcome" where
  "lock_held_by_current_thread m c l = bind (thread_current m c) (\<lambda>t. Ok (holder l = t))"

text \<open>From the call of \<open>sema_down\<close> on; also what a thread does that was woken up in it.\<close>

definition lock_take :: "machine \<Rightarrow> nat \<Rightarrow> lock \<Rightarrow> (bool \<times> machine \<times> lock) outcome" where
  "lock_take m c l =
     bind (sema_down m c (lock_sema l)) (\<lambda>(took, m, s).
     let l = l\<lparr>lock_sema := s\<rparr>
     in if took then bind (thread_current m c) (\<lambda>t. Ok (True, m, l\<lparr>holder := t\<rparr>)) else Ok (False, m, l))"

definition lock_acquire :: "machine \<Rightarrow> nat \<Rightarrow> lock \<Rightarrow> (bool \<times> machine \<times> lock) outcome" where
  "lock_acquire m c l =
     assert (\<not> in_external_intr (cpus m c))
     (bind (lock_held_by_current_thread m c l) (\<lambda>held.
      if held then Panic else lock_take m c l))"

definition lock_try_acquire :: "machine \<Rightarrow> nat \<Rightarrow> lock \<Rightarrow> (bool \<times> lock) outcome" where
  "lock_try_acquire m c l =
     bind (lock_held_by_current_thread m c l) (\<lambda>held.
     if held then Panic
     else
       let (success, s) = sema_try_down (lock_sema l);
           l = l\<lparr>lock_sema := s\<rparr>
       in if success then bind (thread_current m c) (\<lambda>t. Ok (True, l\<lparr>holder := t\<rparr>)) else Ok (False, l))"

definition lock_release :: "machine \<Rightarrow> nat \<Rightarrow> bool \<Rightarrow> lock \<Rightarrow> (machine \<times> lock) outcome" where
  "lock_release m c level_on l =
     bind (lock_held_by_current_thread m c l) (\<lambda>held.
     if \<not> held then Panic
     else
       let l = l\<lparr>holder := 0\<rparr>
       in bind (sema_up m c level_on (lock_sema l)) (\<lambda>(m, s). Ok (m, l\<lparr>lock_sema := s\<rparr>)))"

section \<open>Condition variables\<close>

text \<open>
  A condition variable lists the semaphores of its waiters; \<open>sems\<close> is the store of these. \<open>cond_wait\<close> is
  made of three parts: entering, \<open>sema_down\<close> on the new semaphore, and \<open>lock_acquire\<close>.
\<close>

type_synonym condition = "nat list"

definition cond_init :: condition where
  "cond_init = []"

definition cond_wait_enter ::
  "machine \<Rightarrow> nat \<Rightarrow> bool \<Rightarrow> (nat \<Rightarrow> semaphore) \<Rightarrow> condition \<Rightarrow> lock \<Rightarrow> nat \<Rightarrow> (machine \<times> (nat \<Rightarrow> semaphore) \<times> condition \<times> lock) outcome" where
  "cond_wait_enter m c level_on sems cond l waiter =
     assert (\<not> in_external_intr (cpus m c))
     (bind (lock_held_by_current_thread m c l) (\<lambda>held. assert held
     (let sems = sems(waiter := sema_init 0);
          cond = cond @ [waiter]
      in bind (lock_release m c level_on l) (\<lambda>(m, l). Ok (m, sems, cond, l)))))"

definition cond_signal ::
  "machine \<Rightarrow> nat \<Rightarrow> bool \<Rightarrow> (nat \<Rightarrow> semaphore) \<Rightarrow> condition \<Rightarrow> lock \<Rightarrow> (machine \<times> (nat \<Rightarrow> semaphore) \<times> condition) outcome" where
  "cond_signal m c level_on sems cond l =
     assert (\<not> in_external_intr (cpus m c))
     (bind (lock_held_by_current_thread m c l) (\<lambda>held. assert held
     (case cond of
        [] \<Rightarrow> Ok (m, sems, cond)
      | w # ws \<Rightarrow> bind (sema_up m c level_on (sems w)) (\<lambda>(m, s). Ok (m, sems(w := s), ws)))))"

function cond_broadcast ::
  "machine \<Rightarrow> nat \<Rightarrow> bool \<Rightarrow> (nat \<Rightarrow> semaphore) \<Rightarrow> condition \<Rightarrow> lock \<Rightarrow> (machine \<times> (nat \<Rightarrow> semaphore) \<times> condition) outcome" where
  "cond_broadcast m c level_on sems cond l =
     (if cond = [] then Ok (m, sems, cond)
      else bind (cond_signal m c level_on sems cond l) (\<lambda>(m, sems, cond). cond_broadcast m c level_on sems cond l))"
  by auto
termination
  by (relation "measure (\<lambda>(_, _, _, _, cond, _). length cond)")
     (auto simp: cond_signal_def outcome_simps split: list.splits)

declare cond_broadcast.simps [simp del]

end
