(* ===== verification/SynchInv.thy ===== *)
theory SynchInv
  imports Synch
begin

text \<open>
  Locks used by any number of threads on any number of CPUs: mutual exclusion and the
  absence of lost wake-ups, together with the invariant of the thread system.
\<close>

text \<open>
  A state is the machine, the lock and the threads that \<open>lock_release\<close> has woken up and that have not run since.
  Besides operations on the lock, threads yield, tick, and block and unblock elsewhere.
\<close>

inductive lock_step :: "machine \<times> lock \<times> nat set \<Rightarrow> machine \<times> lock \<times> nat set \<Rightarrow> bool" where
  acquire: "c < ncpu m \<Longrightarrow> rn m c \<noteq> idl m c \<Longrightarrow> rn m c \<notin> W \<Longrightarrow> lock_acquire m c l = Ok (b, m', l') \<Longrightarrow> lock_step (m, l, W) (m', l', W)"
| retry: "c < ncpu m \<Longrightarrow> rn m c \<noteq> idl m c \<Longrightarrow> rn m c \<in> W \<Longrightarrow> lock_take m c l = Ok (b, m', l') \<Longrightarrow>
    lock_step (m, l, W) (m', l', W - {rn m c})"
| attempt: "c < ncpu m \<Longrightarrow> lock_try_acquire m c l = Ok (b, l') \<Longrightarrow> lock_step (m, l, W) (m, l', W)"
| release: "c < ncpu m \<Longrightarrow> lock_release m c level_on l = Ok (m', l') \<Longrightarrow>
    lock_step (m, l, W) (m', l', W \<union> set (take 1 (waiters (lock_sema l))))"
| yield: "c < ncpu m \<Longrightarrow> thread_yield m c = Ok m' \<Longrightarrow> lock_step (m, l, W) (m', l, W)"
| tick: "c < ncpu m \<Longrightarrow> thread_tick m c = Ok m' \<Longrightarrow> lock_step (m, l, W) (m', l, W)"
| block: "c < ncpu m \<Longrightarrow> rn m c \<noteq> idl m c \<Longrightarrow> thread_block m c = Ok m' \<Longrightarrow> lock_step (m, l, W) (m', l, W)"
| unblock: "u \<in> set (all_list m) \<Longrightarrow> u \<noteq> idl m (tc m u) \<Longrightarrow> u \<notin> set (waiters (lock_sema l)) \<Longrightarrow> thread_unblock m c u = Ok m' \<Longrightarrow>
    lock_step (m, l, W) (m', l, W)"

definition linv :: "machine \<times> lock \<times> nat set \<Rightarrow> bool" where
  "linv = (\<lambda>(m, l, W). minv {} m \<and> parked m (set (waiters (lock_sema l))) \<and> distinct (waiters (lock_sema l))
     \<and> sem_value (lock_sema l) = (if holder l = 0 then 1 else 0)
     \<and> (waiters (lock_sema l) \<noteq> [] \<and> holder l = 0 \<longrightarrow> W \<noteq> {}))"

lemma linv_take:
  assumes i: "linv (m, l, W)" and c: "c < ncpu m" and ni: "rn m c \<noteq> idl m c" and s: "lock_take m c l = Ok (b, m', l')"
  shows "linv (m', l', W')" "b \<longrightarrow> holder l = 0 \<and> holder l' = rn m c \<and> holder l' \<noteq> 0"
proof -
  have mi: "minv {} m" and p: "parked m (set (waiters (lock_sema l)))" using i by (auto simp: linv_def)
  note k = minv_current [OF mi c]
  have nz: "rn m c \<noteq> 0" using minvD(2) [OF mi k(2)] by (simp add: thread_inv_def)
  have "linv (m', l', W') \<and> (b \<longrightarrow> holder l = 0 \<and> holder l' = rn m c \<and> holder l' \<noteq> 0)"
  proof (cases "sem_value (lock_sema l) = 0")
    case True
    then obtain m1 where m1: "thread_block m c = Ok m1" "m' = m1" "b = False" "l' = l\<lparr>lock_sema := (lock_sema l)\<lparr>waiters := waiters (lock_sema l) @ [rn m c]\<rparr>\<rparr>"
      using s k(1) by (auto simp: lock_take_def sema_down_def outcome_simps Let_def split: if_splits)
    have "holder l \<noteq> 0" using True i by (auto simp: linv_def split: if_splits)
    moreover have "rn m c \<notin> set (waiters (lock_sema l))" using p k(5) by (auto simp: parked_def)
    ultimately show ?thesis
      using i m1 thread_block_minv(1) [OF mi c m1(1)] thread_block_parked [OF mi c p ni m1(1)] by (simp add: linv_def)
  next
    case False
    then have "b = True" "m' = m" "l' = l\<lparr>lock_sema := (lock_sema l)\<lparr>sem_value := sem_value (lock_sema l) - 1\<rparr>, holder := rn m c\<rparr>"
      using s k(1) by (auto simp: lock_take_def sema_down_def outcome_simps Let_def split: if_splits)
    moreover have "holder l = 0" using False i by (auto simp: linv_def split: if_splits)
    ultimately show ?thesis using i nz by (simp add: linv_def)
  qed
  then show "linv (m', l', W')" "b \<longrightarrow> holder l = 0 \<and> holder l' = rn m c \<and> holder l' \<noteq> 0" by auto
qed

lemma sema_up_parked:
  assumes i: "minv {} m" and c: "c < ncpu m" and p: "parked m (set (waiters s))" and d: "distinct (waiters s)"
    and u: "sema_up m c level_on s = Ok (m', s')"
  shows "minv {} m' \<and> parked m' (set (waiters s')) \<and> s' = s\<lparr>waiters := tl (waiters s), sem_value := sem_value s + 1\<rparr>"
proof -
  obtain m1 where m1: "minv {} m1" "ncpu m1 = ncpu m" "parked m1 (set (tl (waiters s)))"
    and y: "intr_yield_if_requested m1 c level_on = Ok m'" and s': "s' = s\<lparr>waiters := tl (waiters s), sem_value := sem_value s + 1\<rparr>"
  proof (cases "waiters s")
    case Nil
    then show thesis using u i p that [of m] by (auto simp: sema_up_def outcome_simps Let_def)
  next
    case (Cons t ts)
    then obtain m1 where u1: "thread_unblock m c t = Ok m1" "intr_yield_if_requested m1 c level_on = Ok m'"
      "s' = s\<lparr>waiters := ts, sem_value := sem_value s + 1\<rparr>" using u by (auto simp: sema_up_def outcome_simps Let_def)
    have t: "t \<in> set (all_list m)" "t \<noteq> idl m (tc m t)"
      using p Cons minvD(2) [OF i, of t] by (auto simp: parked_def thread_inv_def)
    have "parked m1 (set (waiters s) - {t})" by (rule thread_unblock_parked [OF p u1(1)])
    moreover have "set (waiters s) - {t} = set ts" using d Cons by auto
    ultimately show thesis using that [of m1] thread_unblock_minv [OF i t u1(1)] u1 Cons by simp
  qed
  define m2 where "m2 = upd_cpu c (\<lambda>p. p\<lparr>yield_on_return := False\<rparr>) m1"
  have same: "same_queues {} m1 m2" "same_threads {} m1 m2" by (auto simp: m2_def same_queues_def same_threads_def)
  have m2: "minv {} m2" "parked m2 (set (tl (waiters s)))" "c < ncpu m2"
    using minv_same [OF m1(1) same] parked_change [OF m1(3) same] c m1(2) by (simp_all add: m2_def)
  have "m' = m1 \<or> m' = m2 \<or> thread_yield m2 c = Ok m'"
    using y by (auto simp: intr_yield_if_requested_def m2_def Let_def split: if_splits)
  then show ?thesis using m1 m2 s' thread_yield_minv [OF m2(1,3)] thread_yield_parked [OF m2(1,3,2)] by auto
qed

lemma linv_step: "lock_step x y \<Longrightarrow> linv x \<Longrightarrow> linv y"
proof (induction rule: lock_step.induct)
  case (acquire c m W l b m' l')
  then have "lock_take m c l = Ok (b, m', l')" by (auto simp: lock_acquire_def outcome_simps split: if_splits)
  then show ?case using linv_take(1) acquire by blast
next
  case (retry c m W l b m' l')
  then show ?case using linv_take(1) by blast
next
  case (attempt c m l b l' W)
  then have k: "minv {} m" "thread_current m c = Ok (rn m c)" "rn m c \<in> set (all_list m)" using minv_current by (auto simp: linv_def)
  then have "rn m c \<noteq> 0" using minvD(2) [OF k(1,3)] by (simp add: thread_inv_def)
  then show ?case using attempt k(2)
    by (auto simp: linv_def lock_try_acquire_def lock_held_by_current_thread_def sema_try_down_def split: if_splits)
next
  case (release c m level_on l m' l' W)
  then have i: "minv {} m" "parked m (set (waiters (lock_sema l)))" "distinct (waiters (lock_sema l))" by (auto simp: linv_def)
  note k = minv_current [OF i(1) release(1)]
  have nz: "rn m c \<noteq> 0" using minvD(2) [OF i(1) k(2)] by (simp add: thread_inv_def)
  obtain s where h: "holder l = rn m c" and u: "sema_up m c level_on (lock_sema l) = Ok (m', s)" and l': "l' = l\<lparr>holder := 0, lock_sema := s\<rparr>"
    using release(2) k(1) by (auto simp: lock_release_def lock_held_by_current_thread_def outcome_simps Let_def split: if_splits)
  note r = sema_up_parked [OF i(1) release(1) i(2,3) u]
  have "sem_value (lock_sema l) = 0" using release(3) h nz by (simp add: linv_def)
  then show ?case using r l' i(3) by (cases "waiters (lock_sema l)") (auto simp: linv_def)
next
  case (yield c m m' l W)
  then show ?case using thread_yield_minv [of m c m'] thread_yield_parked [of m c "set (waiters (lock_sema l))" m'] by (auto simp: linv_def)
next
  case (tick c m m' l W)
  then show ?case using thread_tick_minv [of m c m'] thread_tick_parked [of m "set (waiters (lock_sema l))" c m'] by (auto simp: linv_def)
next
  case (block c m m' l W)
  then have "parked m' (insert (rn m c) (set (waiters (lock_sema l))))" using thread_block_parked by (auto simp: linv_def)
  then show ?case using block thread_block_minv(1) [of m c m'] parked_subset [of m' _ "set (waiters (lock_sema l))"] by (auto simp: linv_def)
next
  case (unblock u m l c m' W)
  then have "parked m' (set (waiters (lock_sema l)) - {u})"
    using thread_unblock_parked [of m "set (waiters (lock_sema l))" c u m'] by (simp add: linv_def)
  then show ?case using unblock thread_unblock_minv [of m u c m'] by (auto simp: linv_def)
qed

lemma linv_steps: "lock_step\<^sup>*\<^sup>* x y \<Longrightarrow> linv x \<Longrightarrow> linv y"
  by (induction rule: rtranclp_induct) (auto intro: linv_step)



end
