(* ===== verification/Timer.thy ===== *)
theory Timer
  imports ThreadPark
begin

text \<open>
  Sleeping on the timer, \<open>devices/timer.c\<close>: the list of sleeping threads ordered by the tick they wait
  for, and the timer interrupt that wakes them up.  \<open>c\<close> is the CPU of the caller.
\<close>

record timer =
  ticks :: int
  waiting_threads :: "(int \<times> nat) list"

definition TIMER_FREQ :: int where "TIMER_FREQ = 1000"
definition NSEC_PER_SEC :: int where "NSEC_PER_SEC = 1000000000"

definition timer_init :: "timer \<Rightarrow> timer" where
  "timer_init k = k\<lparr>waiting_threads := []\<rparr>"

definition timer_ticks :: "timer \<Rightarrow> int" where
  "timer_ticks k = ticks k"

definition timer_elapsed :: "timer \<Rightarrow> int \<Rightarrow> int" where
  "timer_elapsed k thn = timer_ticks k - thn"

definition timer_sleep_lessThan :: "int \<times> nat \<Rightarrow> int \<times> nat \<Rightarrow> bool" where
  "timer_sleep_lessThan a b \<longleftrightarrow> fst a < fst b"

text \<open>The first part of \<open>timer_sleep\<close>; the caller is blocked afterwards.\<close>

definition timer_sleep :: "machine \<Rightarrow> timer \<Rightarrow> nat \<Rightarrow> bool \<Rightarrow> int \<Rightarrow> (machine \<times> timer) outcome" where
  "timer_sleep m k c level_on n =
     assert level_on
     (bind (thread_current m c) (\<lambda>t.
      let this_wait = (n + timer_ticks k, t);
          ws = waiting_threads k;
          k = k\<lparr>waiting_threads := takeWhile (\<lambda>y. \<not> timer_sleep_lessThan this_wait y) ws @
                this_wait # dropWhile (\<lambda>y. \<not> timer_sleep_lessThan this_wait y) ws\<rparr>
      in bind (thread_block m c) (\<lambda>m. Ok (m, k))))"

fun awaken_loop :: "machine \<Rightarrow> nat \<Rightarrow> int \<Rightarrow> (int \<times> nat) list \<Rightarrow> (machine \<times> (int \<times> nat) list) outcome" where
  "awaken_loop m c now [] = Ok (m, [])"
| "awaken_loop m c now (w # ws) =
     (if fst w > now then Ok (m, w # ws)
      else if fst w < now then bind (thread_unblock m c (snd w)) (\<lambda>m. awaken_loop m c now ws)
      else bind (awaken_loop m c now ws) (\<lambda>(m, ws). Ok (m, w # ws)))"

definition awaken_sleeping_threads :: "machine \<Rightarrow> timer \<Rightarrow> nat \<Rightarrow> (machine \<times> timer) outcome" where
  "awaken_sleeping_threads m k c =
     bind (awaken_loop m c (ticks k) (waiting_threads k)) (\<lambda>(m, ws). Ok (m, k\<lparr>waiting_threads := ws\<rparr>))"

definition timer_settime :: "machine \<Rightarrow> int \<Rightarrow> machine" where
  "timer_settime m t = m\<lparr>cur_time := t\<rparr>"

definition timer_gettime :: "machine \<Rightarrow> int" where
  "timer_gettime m = cur_time m"

definition timer_interrupt :: "machine \<Rightarrow> timer \<Rightarrow> nat \<Rightarrow> (machine \<times> timer) outcome" where
  "timer_interrupt m k c =
     bind (if c = 0 then
             let k = k\<lparr>ticks := ticks k + 1\<rparr> in
             bind (awaken_sleeping_threads m k c) (\<lambda>(m, k).
             Ok (timer_settime m (timer_ticks k * NSEC_PER_SEC sdiv TIMER_FREQ), k))
           else Ok (m, k)) (\<lambda>(m, k).
     bind (thread_tick m c) (\<lambda>m. Ok (m, k)))"

text \<open>The number of ticks of a sleep of \<open>num / denom\<close> seconds; none is a busy wait.\<close>

definition real_time_sleep :: "machine \<Rightarrow> timer \<Rightarrow> nat \<Rightarrow> bool \<Rightarrow> int \<Rightarrow> int \<Rightarrow> (machine \<times> timer) outcome" where
  "real_time_sleep m k c level_on num denom =
     (let n = num * TIMER_FREQ sdiv denom in
      assert level_on
      (if n > 0 then timer_sleep m k c level_on n
       else assert (denom smod 1000 = 0) (Ok (m, k))))"

definition timer_msleep :: "machine \<Rightarrow> timer \<Rightarrow> nat \<Rightarrow> bool \<Rightarrow> int \<Rightarrow> (machine \<times> timer) outcome" where
  "timer_msleep m k c level_on ms = real_time_sleep m k c level_on ms 1000"

definition timer_usleep :: "machine \<Rightarrow> timer \<Rightarrow> nat \<Rightarrow> bool \<Rightarrow> int \<Rightarrow> (machine \<times> timer) outcome" where
  "timer_usleep m k c level_on us = real_time_sleep m k c level_on us (1000 * 1000)"

definition timer_nsleep :: "machine \<Rightarrow> timer \<Rightarrow> nat \<Rightarrow> bool \<Rightarrow> int \<Rightarrow> (machine \<times> timer) outcome" where
  "timer_nsleep m k c level_on ns = real_time_sleep m k c level_on ns (1000 * 1000 * 1000)"

section \<open>Waking up succeeds\<close>

lemma sched_unblock_succeeds:
  assumes "rq_curr q = 0 \<or> nice_ok (ts (rq_curr q))" "nice_ok (ts t)" "0 \<le> nice (ts t)"
  shows "\<exists>r. sched_unblock ts q t False now now' = Ok r"
proof -
  have wake: "\<exists>v. calc_vruntime x 0 = Ok v" if "nice x = nice (ts t)" for x
    using assms(2,3) that by (auto simp: calc_vruntime_def weight_at_def NICE_DEFAULT_def NICE_MAX_def)
  have run: "\<exists>v. calc_vruntime x 20 = Ok v" if "nice x = nice (ts (rq_curr q))" "rq_curr q \<noteq> 0" for x
    using calc_vruntime_run [of x] assms(1) that by auto
  show ?thesis
  proof (cases "rq_curr q = 0")
    case False
    define c where "c = rq_curr q"
    obtain v1 where v1: "calc_vruntime ((ts c)\<lparr>timer_stop := now\<rparr>) 20 = Ok v1" using run [of "(ts c)\<lparr>timer_stop := now\<rparr>"] False by (auto simp: c_def)
    define ts2 where "ts2 = ts(c := (ts c)\<lparr>timer_stop := now, vruntime := v1, timer_start := now'\<rparr>)"
    have "nice (ts2 t) = nice (ts t)" by (simp add: ts2_def)
    then obtain v2 where "calc_vruntime (ts2 t) 0 = Ok v2" using wake by blast
    then show ?thesis using False v1
      by (cases "t = c") (simp_all add: sched_unblock_def Let_def c_def [symmetric] ts2_def)
  qed (simp add: sched_unblock_def)
qed

abbreviation calm :: "machine \<Rightarrow> bool" where
  "calm m \<equiv> \<forall>t\<in>set (all_list m). 0 \<le> nice (threads m t) \<and> nice (threads m t) \<le> NICE_MAX"

lemma thread_unblock_succeeds:
  assumes i: "minv {} m" and p: "parked m {u}" and n: "calm m"
  shows "\<exists>m'. thread_unblock m me u = Ok m'"
proof -
  have u: "u \<in> set (all_list m)" "st m u = THREAD_BLOCKED" using p by (auto simp: parked_def)
  note ti = minvD(2) [OF i u(1)]
  define c where "c = tc m u"
  have c: "c < ncpu m" using ti by (simp add: thread_inv_def c_def)
  define ts where "ts = (threads m)(u := (threads m u)\<lparr>status := THREAD_READY\<rparr>)"
  have nt: "nice (ts t) = nice (threads m t)" for t by (simp add: ts_def)
  have "cur m c = 0 \<or> cur m c \<in> set (all_list m)" using minvD(1) [OF i c] by (auto simp: cpu_inv_def home_def)
  then have "rq_curr (rq (cpus m c)) = 0 \<or> nice_ok (ts (rq_curr (rq (cpus m c))))" using n nt by (force simp: NICE_MIN_def)
  moreover have "nice_ok (ts u)" "0 \<le> nice (ts u)" using n u(1) nt by (force simp: NICE_MIN_def)+
  ultimately obtain r where "sched_unblock ts (rq (cpus m c)) u False (cur_time m) (cur_time m) = Ok r"
    using sched_unblock_succeeds by blast
  then show ?thesis using ti u(2)
    by (cases r) (auto simp: thread_unblock_def Let_def is_thread_def thread_inv_def c_def [symmetric] ts_def [symmetric])
qed

section \<open>Due threads wake up\<close>

abbreviation due :: "int \<Rightarrow> (int \<times> nat) list \<Rightarrow> nat set" where
  "due now ws \<equiv> snd ` {w \<in> set ws. fst w < now}"

lemma awaken_loop_due:
  assumes "minv {} m" "parked m (snd ` set ws)" "distinct (map snd ws)" "sorted (map fst ws)" "calm m"
  shows "\<exists>m'. awaken_loop m c now ws = Ok (m', filter (\<lambda>w. now \<le> fst w) ws) \<and> minv {} m'
    \<and> (\<forall>V. parked m V \<longrightarrow> parked m' (V - due now ws)) \<and> calm m'
    \<and> (\<forall>t\<in>due now ws. st m' t = THREAD_READY) \<and> (\<forall>t. t \<notin> due now ws \<longrightarrow> st m' t = st m t)"
  using assms
proof (induction ws arbitrary: m)
  case (Cons w ws)
  have nw: "snd w \<notin> snd ` set ws" using Cons(4) by auto
  have dw: "distinct (map snd ws)" "sorted (map fst ws)" using Cons(4,5) by simp_all
  consider "fst w > now" | "fst w < now" | "fst w = now" by linarith
  then show ?case
  proof cases
    case 1
    then have "filter (\<lambda>w. now \<le> fst w) (w # ws) = w # ws" "due now (w # ws) = {}" using Cons(5) by (force intro: filter_True)+
    then show ?thesis using 1 Cons(2-6) by (simp only:) auto
  next
    case 2
    have p: "parked m {snd w}" using parked_subset [OF Cons(3)] by simp
    obtain m1 where m1: "thread_unblock m c (snd w) = Ok m1" using thread_unblock_succeeds [OF Cons(2) p Cons(6)] by blast
    note k = thread_unblock_split [OF m1]
    have u: "snd w \<in> set (all_list m)" "snd w \<noteq> idl m (tc m (snd w))"
      using p minvD(2) [OF Cons(2), of "snd w"] by (auto simp: parked_def thread_inv_def)
    have i1: "minv {} m1" using thread_unblock_minv [OF Cons(2) u m1] by simp
    have "snd ` set (w # ws) - {snd w} = snd ` set ws" using nw by force
    then have p1: "parked m1 (snd ` set ws)" using thread_unblock_parked [OF Cons(3) m1] by simp
    have c1: "calm m1" using Cons(6) k(3,7) by (simp add: same_threads_def)
    obtain m' where m': "awaken_loop m1 c now ws = Ok (m', filter (\<lambda>w. now \<le> fst w) ws)" "minv {} m'"
      "\<forall>V. parked m1 V \<longrightarrow> parked m' (V - due now ws)" "calm m'"
      "\<forall>t\<in>due now ws. st m' t = THREAD_READY" "\<forall>t. t \<notin> due now ws \<longrightarrow> st m' t = st m1 t"
      using Cons(1) [OF i1 p1 dw c1] by blast
    have d: "due now (w # ws) = insert (snd w) (due now ws)" using 2 by auto
    have "parked m' (V - insert (snd w) (due now ws))" if "parked m V" for V
    proof -
      have "parked m' (V - {snd w} - due now ws)" using m'(3) thread_unblock_parked [OF that m1] by blast
      moreover have "V - {snd w} - due now ws = V - insert (snd w) (due now ws)" by blast
      ultimately show ?thesis by argo
    qed
    moreover have "st m' (snd w) = THREAD_READY" using m'(6) [rule_format, of "snd w"] k(6) nw by auto
    moreover have "\<forall>t. t \<notin> insert (snd w) (due now ws) \<longrightarrow> st m' t = st m t" using m'(6) k(3) by (auto simp: same_threads_def)
    ultimately show ?thesis unfolding d using 2 m1 m'(1,2,4,5) by (intro exI [of _ m']) simp
  next
    case 3
    have p: "parked m (snd ` set ws)" using parked_subset [OF Cons(3)] by auto
    have d: "due now (w # ws) = due now ws" using 3 by auto
    show ?thesis unfolding d using Cons(1) [OF Cons(2) p dw Cons(6)] 3 by auto
  qed
qed simp

lemma awaken_loop_ncpu: "awaken_loop m c now ws = Ok (m', ws') \<Longrightarrow> ncpu m' = ncpu m"
  by (induction ws arbitrary: m ws') (auto simp: outcome_simps same_queues_def dest: thread_unblock_split(2) split: if_splits)

section \<open>Properties\<close>

lemma sorted_insert:
  fixes ws :: "(int \<times> nat) list"
  assumes "sorted (map fst ws)"
  shows "sorted (map fst (takeWhile (\<lambda>y. \<not> timer_sleep_lessThan x y) ws @ x # dropWhile (\<lambda>y. \<not> timer_sleep_lessThan x y) ws))"
  using assms
proof (induction ws)
  case (Cons w ws)
  then show ?case by (auto simp: timer_sleep_lessThan_def dest: set_takeWhileD set_dropWhileD)
qed simp

text \<open>
  C33: sleepers wake up one tick after their time and not before.  When CPU 0 handles the timer interrupt that makes
  the tick count \<open>n\<close>, with the wait list in order and no negative nice value, exactly the sleeping threads
  that wait for a tick before \<open>n\<close> become ready and leave the list; the others stay blocked in it, in their
  order; the thread system stays well placed and no assertion fails.  \<open>timer_sleep\<close> keeps the list in order.
\<close>
theorem timer_wakes_due:
  assumes "minv {} m" "parked m (snd ` set (waiting_threads k))" "distinct (map snd (waiting_threads k))"
    "sorted (map fst (waiting_threads k))" "calm m" "0 < ncpu m"
  shows "\<exists>m' k'. timer_interrupt m k 0 = Ok (m', k') \<and> ticks k' = ticks k + 1 \<and> minv {} m'
    \<and> waiting_threads k' = filter (\<lambda>w. ticks k' \<le> fst w) (waiting_threads k)
    \<and> parked m' (snd ` set (waiting_threads k'))
    \<and> (\<forall>w\<in>set (waiting_threads k). fst w < ticks k' \<longrightarrow> st m' (snd w) = THREAD_READY)
    \<and> (\<forall>c level_on n m1 k1. timer_sleep m k c level_on n = Ok (m1, k1) \<longrightarrow> sorted (map fst (waiting_threads k1)))"
proof -
  let ?ws = "waiting_threads k" and ?n = "ticks k + 1"
  obtain m1 where m1: "awaken_loop m 0 ?n ?ws = Ok (m1, filter (\<lambda>w. ?n \<le> fst w) ?ws)" "minv {} m1"
    "\<forall>V. parked m V \<longrightarrow> parked m1 (V - due ?n ?ws)" "calm m1" "\<forall>t\<in>due ?n ?ws. st m1 t = THREAD_READY"
    using awaken_loop_due [OF assms(1-5), of 0 ?n] by blast
  define m2 where "m2 = timer_settime m1 (?n * NSEC_PER_SEC sdiv TIMER_FREQ)"
  have s: "same_queues {} m1 m2" "same_threads {} m1 m2" by (simp_all add: same_queues_def same_threads_def m2_def timer_settime_def)
  have i2: "minv {} m2" using minv_same [OF m1(2) s] .
  have n2: "\<forall>t\<in>set (all_list m2). nice_ok (threads m2 t)" using m1(4) by (force simp: m2_def timer_settime_def NICE_MIN_def)
  have "ncpu m2 = ncpu m" using awaken_loop_ncpu [OF m1(1)] by (simp add: m2_def timer_settime_def)
  then obtain m' where m': "thread_tick m2 0 = Ok m'" using thread_tick_succeeds [OF i2 _ n2, of 0] assms(6) by auto
  have i': "minv {} m'" using thread_tick_minv [OF i2 m'] by simp
  have st': "st m' t = st m1 t" for t using thread_tick_same(2) [OF m'] s(2) by (simp add: same_threads_def)
  have d: "snd ` set ?ws - due ?n ?ws = snd ` set (filter (\<lambda>w. ?n \<le> fst w) ?ws)"
  proof -
    have "snd ` (set ?ws - {w \<in> set ?ws. fst w < ?n}) = snd ` set ?ws - due ?n ?ws"
      by (rule inj_on_image_set_diff [of snd "set ?ws"]) (use assms(3) in \<open>auto simp: distinct_map\<close>)
    moreover have "set ?ws - {w \<in> set ?ws. fst w < ?n} = set (filter (\<lambda>w. ?n \<le> fst w) ?ws)" by (auto simp: not_less)
    ultimately show ?thesis by simp
  qed
  have "parked m1 (snd ` set (filter (\<lambda>w. ?n \<le> fst w) ?ws))" using m1(3) assms(2) unfolding d [symmetric] by blast
  then have p': "parked m' (snd ` set (filter (\<lambda>w. ?n \<le> fst w) ?ws))"
    using thread_tick_parked [OF parked_change [OF _ s] m'] by simp
  have r: "timer_interrupt m k 0 = Ok (m', k\<lparr>ticks := ?n, waiting_threads := filter (\<lambda>w. ?n \<le> fst w) ?ws\<rparr>)"
    using m1(1) m' by (simp add: timer_interrupt_def awaken_sleeping_threads_def timer_ticks_def m2_def)
  have z: "sorted (map fst (waiting_threads k1))" if sl: "timer_sleep m k c level_on n = Ok (m1, k1)" for c level_on n m1 k1
  proof -
    obtain t where "waiting_threads k1 = takeWhile (\<lambda>y. \<not> timer_sleep_lessThan (n + ticks k, t) y) ?ws @
        (n + ticks k, t) # dropWhile (\<lambda>y. \<not> timer_sleep_lessThan (n + ticks k, t) y) ?ws"
      using sl by (auto simp: timer_sleep_def outcome_simps Let_def timer_ticks_def)
    then show ?thesis using sorted_insert [OF assms(4), of "(n + ticks k, t)"] by simp
  qed
  have "\<forall>w\<in>set ?ws. fst w < ?n \<longrightarrow> st m' (snd w) = THREAD_READY" using m1(5) st' by auto
  then show ?thesis using r i' p' z
    by (intro exI [of _ m'] exI [of _ "k\<lparr>ticks := ?n, waiting_threads := filter (\<lambda>w. ?n \<le> fst w) ?ws\<rparr>"]) simp
qed

definition demo_timer :: timer where
  "demo_timer = \<lparr>ticks = 7, waiting_threads = [(7, 3), (9, 4)]\<rparr>"

definition sleepy_machine :: machine where
  "sleepy_machine = busy_machine\<lparr>
     threads := (threads busy_machine)(3 := (threads busy_machine 3)\<lparr>status := THREAD_BLOCKED\<rparr>, 4 := (threads busy_machine 4)\<lparr>status := THREAD_BLOCKED\<rparr>),
     cpus := (\<lambda>c. (cpus busy_machine c)\<lparr>rq := (rq (cpus busy_machine c))\<lparr>ready_list := [], nr_ready := 0\<rparr>\<rparr>)\<rparr>"

lemma sleepy_minv: "minv {} sleepy_machine"
proof -
  have "home sleepy_machine 0 = {1, 2, 3, 4}"
    by (auto simp: home_def sleepy_machine_def busy_machine_def boot_machine_def demo_thread_def)
  then have "cpu_inv {} sleepy_machine 0"
    by (simp add: cpu_inv_def) (simp add: sleepy_machine_def busy_machine_def boot_machine_def)
  moreover have "thread_inv {} sleepy_machine t" if "t \<in> {1, 2, 3, 4}" for t
    using that by (auto simp: thread_inv_def sleepy_machine_def busy_machine_def boot_machine_def demo_thread_def)
  moreover have "ncpu sleepy_machine = 1" "all_list sleepy_machine = [1, 2, 3, 4]"
    by (simp_all add: sleepy_machine_def busy_machine_def boot_machine_def)
  ultimately show ?thesis by (simp add: minv_def)
qed

theorem timer_wakes_due_witness:
  "\<exists>m' k'. timer_interrupt sleepy_machine demo_timer 0 = Ok (m', k') \<and> waiting_threads k' = [(9, 4)] \<and> st m' 3 = THREAD_READY"
proof -
  have "parked sleepy_machine (snd ` set (waiting_threads demo_timer))" "calm sleepy_machine" "0 < ncpu sleepy_machine"
    by (auto simp: parked_def demo_timer_def sleepy_machine_def busy_machine_def boot_machine_def demo_thread_def NICE_MAX_def)
  then show ?thesis using timer_wakes_due [OF sleepy_minv, of demo_timer] by (fastforce simp: demo_timer_def)
qed

end
