(* ===== verification/Hash.thy ===== *)
theory Hash
  imports Bytes "HOL-Library.Multiset"
begin

text \<open>
  Hash tables, \<open>lib/kernel/hash.c\<close>.  A bucket is the sequence of its elements, which the operations of
  \<open>lib/kernel/list.c\<close> keep; the hash function \<open>hf\<close> and the comparison \<open>lt\<close> of the table are arguments, and so is
  whether \<open>malloc\<close> finds memory for new buckets.
\<close>

section \<open>The data and the operations\<close>

record 'a hash =
  elem_cnt :: u32
  bucket_cnt :: u32
  buckets :: "'a list list"

definition find_bucket :: "('a \<Rightarrow> u32) \<Rightarrow> 'a hash \<Rightarrow> 'a \<Rightarrow> nat" where
  "find_bucket hf h e = unat (hf e AND (bucket_cnt h - 1))"

definition same_elem :: "('a \<Rightarrow> 'a \<Rightarrow> bool) \<Rightarrow> 'a \<Rightarrow> 'a \<Rightarrow> bool" where
  "same_elem lt hi e \<longleftrightarrow> \<not> lt hi e \<and> \<not> lt e hi"

fun find_elem :: "('a \<Rightarrow> 'a \<Rightarrow> bool) \<Rightarrow> 'a list \<Rightarrow> 'a \<Rightarrow> 'a option" where
  "find_elem lt [] e = None"
| "find_elem lt (hi # bucket) e = (if \<not> lt hi e \<and> \<not> lt e hi then Some hi else find_elem lt bucket e)"

definition turn_off_least_1bit :: "u32 \<Rightarrow> u32" where
  "turn_off_least_1bit x = x AND (x - 1)"

definition is_power_of_2 :: "u32 \<Rightarrow> bool" where
  "is_power_of_2 x \<longleftrightarrow> x \<noteq> 0 \<and> turn_off_least_1bit x = 0"

definition BEST_ELEMS_PER_BUCKET :: u32 where "BEST_ELEMS_PER_BUCKET = 2"

lemma turn_off_less: "x \<noteq> 0 \<Longrightarrow> turn_off_least_1bit x < x"
proof -
  assume "x \<noteq> 0"
  then have "x - 1 < x" by (simp add: word_less_nat_alt unat_sub word_le_nat_alt Suc_le_eq unat_gt_0)
  moreover have "x AND (x - 1) \<le> x - 1" by (rule word_and_le1)
  ultimately show ?thesis unfolding turn_off_least_1bit_def by (rule le_less_trans [rotated])
qed

text \<open>
  The loop that makes the number of buckets a power of 2.  It never ends on 0, so it is a partial function; None
  is a loop that does not return.
\<close>

partial_function (option) power_loop :: "u32 \<Rightarrow> u32 option" where
  [code]: "power_loop x = (if is_power_of_2 x then Some x else power_loop (turn_off_least_1bit x))"

definition new_bucket_cnt :: "u32 \<Rightarrow> u32 option" where
  "new_bucket_cnt n =
    (let c = n div BEST_ELEMS_PER_BUCKET;
         c = (if c < 4 then 4 else c)
     in power_loop c)"

definition push_bucket :: "'a hash \<Rightarrow> nat \<Rightarrow> 'a \<Rightarrow> 'a hash" where
  "push_bucket h i e = h\<lparr>buckets := (buckets h)[i := e # buckets h ! i]\<rparr>"

definition move_elem :: "('a \<Rightarrow> u32) \<Rightarrow> 'a \<Rightarrow> 'a hash \<Rightarrow> 'a hash" where
  "move_elem hf e h = push_bucket h (find_bucket hf h e) e"

definition SIZEOF_LIST :: u32 where "SIZEOF_LIST = 16"

text \<open>\<open>mem\<close> says for which sizes \<open>malloc\<close> returns a block.\<close>

definition rehash :: "('a \<Rightarrow> u32) \<Rightarrow> (u32 \<Rightarrow> bool) \<Rightarrow> 'a hash \<Rightarrow> 'a hash outcome" where
  "rehash hf mem h =
    (case new_bucket_cnt (elem_cnt h) of
       None \<Rightarrow> Hang
     | Some n \<Rightarrow>
         if n = bucket_cnt h then Ok h
         else if \<not> mem (SIZEOF_LIST * n) then Ok h
         else
           let old_buckets = buckets h;
               h = h\<lparr>buckets := replicate (unat n) [], bucket_cnt := n\<rparr>
           in Ok (fold (fold (move_elem hf)) old_buckets h))"

definition insert_elem :: "'a hash \<Rightarrow> nat \<Rightarrow> 'a \<Rightarrow> 'a hash" where
  "insert_elem h i e = push_bucket (h\<lparr>elem_cnt := elem_cnt h + 1\<rparr>) i e"

text \<open>\<open>list_remove\<close> takes the element out of the list it is in.\<close>

definition remove_elem :: "'a hash \<Rightarrow> 'a \<Rightarrow> 'a hash" where
  "remove_elem h e = h\<lparr>elem_cnt := elem_cnt h - 1, buckets := map (remove1 e) (buckets h)\<rparr>"

text \<open>\<open>hash_clear\<close>: the elements the destructor is called for, in the order of the calls, and the table after it.\<close>

fun clear_bucket :: "bool \<Rightarrow> 'a list \<Rightarrow> 'a list" where
  "clear_bucket destructor [] = []"
| "clear_bucket destructor (e # bucket) = (if destructor then e # clear_bucket destructor bucket else [])"

definition hash_clear :: "bool \<Rightarrow> 'a hash \<Rightarrow> 'a list \<times> 'a hash" where
  "hash_clear destructor h =
    (concat (map (clear_bucket destructor) (buckets h)),
     h\<lparr>buckets := map (\<lambda>_. []) (buckets h), elem_cnt := 0\<rparr>)"

definition hash_destroy :: "bool \<Rightarrow> 'a hash \<Rightarrow> 'a list" where
  "hash_destroy destructor h = (if destructor then fst (hash_clear destructor h) else [])"

definition hash_init :: "(u32 \<Rightarrow> bool) \<Rightarrow> 'a hash option" where
  "hash_init mem =
    (if mem (SIZEOF_LIST * 4)
     then Some (snd (hash_clear False \<lparr>elem_cnt = 0, bucket_cnt = 4, buckets = replicate 4 []\<rparr>))
     else None)"

definition hash_insert ::
  "('a \<Rightarrow> u32) \<Rightarrow> ('a \<Rightarrow> 'a \<Rightarrow> bool) \<Rightarrow> (u32 \<Rightarrow> bool) \<Rightarrow> 'a hash \<Rightarrow> 'a \<Rightarrow> ('a option \<times> 'a hash) outcome" where
  "hash_insert hf lt mem h e =
    (let bucket = find_bucket hf h e;
         old = find_elem lt (buckets h ! bucket) e;
         h = (if old = None then insert_elem h bucket e else h)
     in bind (rehash hf mem h) (\<lambda>h. Ok (old, h)))"

definition hash_replace ::
  "('a \<Rightarrow> u32) \<Rightarrow> ('a \<Rightarrow> 'a \<Rightarrow> bool) \<Rightarrow> (u32 \<Rightarrow> bool) \<Rightarrow> 'a hash \<Rightarrow> 'a \<Rightarrow> ('a option \<times> 'a hash) outcome" where
  "hash_replace hf lt mem h e =
    (let bucket = find_bucket hf h e;
         old = find_elem lt (buckets h ! bucket) e;
         h = (case old of Some x \<Rightarrow> remove_elem h x | None \<Rightarrow> h);
         h = insert_elem h bucket e
     in bind (rehash hf mem h) (\<lambda>h. Ok (old, h)))"

definition hash_find :: "('a \<Rightarrow> u32) \<Rightarrow> ('a \<Rightarrow> 'a \<Rightarrow> bool) \<Rightarrow> 'a hash \<Rightarrow> 'a \<Rightarrow> 'a option" where
  "hash_find hf lt h e = find_elem lt (buckets h ! find_bucket hf h e) e"

definition hash_delete ::
  "('a \<Rightarrow> u32) \<Rightarrow> ('a \<Rightarrow> 'a \<Rightarrow> bool) \<Rightarrow> (u32 \<Rightarrow> bool) \<Rightarrow> 'a hash \<Rightarrow> 'a \<Rightarrow> ('a option \<times> 'a hash) outcome" where
  "hash_delete hf lt mem h e =
    (case find_elem lt (buckets h ! find_bucket hf h e) e of
       None \<Rightarrow> Ok (None, h)
     | Some found \<Rightarrow> bind (rehash hf mem (remove_elem h found)) (\<lambda>h. Ok (Some found, h)))"

text \<open>\<open>hash_apply\<close>: the action is a step on a state of its own.\<close>

definition hash_apply :: "('a \<Rightarrow> 's \<Rightarrow> 's) \<Rightarrow> 'a hash \<Rightarrow> 's \<Rightarrow> 's" where
  "hash_apply action h s = fold (fold action) (buckets h) s"

definition hash_size :: "'a hash \<Rightarrow> u32" where "hash_size h = elem_cnt h"

definition hash_empty :: "'a hash \<Rightarrow> bool" where "hash_empty h \<longleftrightarrow> elem_cnt h = 0"

text \<open>
  An iterator: the number of its bucket and its place in that bucket's list, 0 for the head, \<open>k\<close> for the
  \<open>k\<close>-th element and one more than the length for the tail; None is the null pointer.
\<close>

record hash_iterator =
  it_bucket :: nat
  it_elem :: "nat option"

definition hash_first :: "hash_iterator" where
  "hash_first = \<lparr>it_bucket = 0, it_elem = Some 0\<rparr>"

function hash_next_loop :: "'a hash \<Rightarrow> nat \<Rightarrow> nat \<Rightarrow> hash_iterator" where
  "hash_next_loop h b p =
    (if p = Suc (length (buckets h ! b)) then
       if Suc b \<ge> unat (bucket_cnt h) then \<lparr>it_bucket = Suc b, it_elem = None\<rparr>
       else hash_next_loop h (Suc b) 1
     else \<lparr>it_bucket = b, it_elem = Some p\<rparr>)"
  by auto
termination
  by (relation "measure (\<lambda>(h, b, p). unat (bucket_cnt h) - b)") auto

declare hash_next_loop.simps [simp del]

definition hash_cur :: "'a hash \<Rightarrow> hash_iterator \<Rightarrow> 'a option" where
  "hash_cur h i = map_option (\<lambda>p. buckets h ! it_bucket i ! (p - 1)) (it_elem i)"

definition hash_next :: "'a hash \<Rightarrow> hash_iterator \<Rightarrow> ('a option \<times> hash_iterator) outcome" where
  "hash_next h i =
    (case it_elem i of
       None \<Rightarrow> Panic
     | Some p \<Rightarrow> let i = hash_next_loop h (it_bucket i) (Suc p) in Ok (hash_cur h i, i))"

subsection \<open>The hash functions\<close>

definition FNV_32_PRIME :: u32 where "FNV_32_PRIME = 16777619"
definition FNV_32_BASIS :: u32 where "FNV_32_BASIS = 2166136261"

definition hash_bytes :: "u8 list \<Rightarrow> u32" where
  "hash_bytes buf = fold (\<lambda>b h. (h * FNV_32_PRIME) XOR ucast b) buf FNV_32_BASIS"

fun hash_string_loop :: "u8 list \<Rightarrow> u32 \<Rightarrow> u32" where
  "hash_string_loop [] h = h"
| "hash_string_loop (c # s) h = (if c = 0 then h else hash_string_loop s ((h * FNV_32_PRIME) XOR ucast c))"

definition hash_string :: "u8 list \<Rightarrow> u32" where
  "hash_string s = hash_string_loop s FNV_32_BASIS"

definition hash_int :: "u32 \<Rightarrow> u32" where
  "hash_int i = hash_bytes (map (\<lambda>k. ucast (drop_bit (8 * k) i)) [0..<4])"

section \<open>The number of buckets\<close>

lemma bit_unat: "bit (x :: u32) k \<longleftrightarrow> odd (unat x div 2 ^ k)"
proof -
  have "bit x k \<longleftrightarrow> bit (unat x) k" by (simp add: bit_unsigned_iff bit_imp_le_length)
  then show ?thesis by (simp add: bit_iff_odd)
qed

lemma turn_off_top:
  assumes "2 ^ k < unat (x :: u32)" "unat x < 2 ^ Suc k"
  shows "2 ^ k \<le> unat (turn_off_least_1bit x)"
proof -
  have one: "unat (x - 1) = unat x - 1" using assms(1) by (subst unat_sub) (auto simp: word_le_nat_alt)
  have "unat x div 2 ^ k = 1" "unat (x - 1) div 2 ^ k = 1"
    using assms unfolding one by (auto intro!: div_nat_eqI)
  then have "odd (unat (turn_off_least_1bit x) div 2 ^ k)"
    unfolding turn_off_least_1bit_def bit_unat [symmetric] bit_and_iff by (simp add: bit_unat)
  then show ?thesis by (metis div_less even_zero linorder_not_less)
qed

lemma turn_off_power:
  assumes "unat (x :: u32) = 2 ^ k"
  shows "turn_off_least_1bit x = 0"
proof (rule bit_eqI)
  fix n
  have one: "unat (x - 1) = 2 ^ k - 1" using assms by (subst unat_sub) (auto simp: word_le_nat_alt)
  have "\<not> (bit x n \<and> bit (x - 1) n)"
  proof (cases "n = k")
    case True
    then show ?thesis unfolding bit_unat one by simp
  next
    case False
    then have "even ((2 :: nat) ^ k div 2 ^ n)" by (cases "n \<le> k") (auto simp flip: power_diff)
    then show ?thesis unfolding bit_unat assms by simp
  qed
  then show "bit (turn_off_least_1bit x) n \<longleftrightarrow> bit 0 n"
    unfolding turn_off_least_1bit_def by (simp add: bit_and_iff)
qed

lemma power_loop_result:
  assumes "2 ^ k \<le> unat x" "unat x < 2 ^ Suc k"
  shows "\<exists>y. power_loop x = Some y \<and> unat y = 2 ^ k"
  using assms
proof (induction "unat x" arbitrary: x rule: less_induct)
  case less
  then have "x \<noteq> 0" by auto
  show ?case
  proof (cases "unat x = 2 ^ k")
    case True
    then show ?thesis
      using \<open>x \<noteq> 0\<close> by (subst power_loop.simps) (simp add: is_power_of_2_def turn_off_power)
  next
    case False
    have top: "2 ^ k \<le> unat (turn_off_least_1bit x)"
      by (rule turn_off_top) (use less.prems False in auto)
    moreover have "unat (turn_off_least_1bit x) < unat x"
      using turn_off_less [OF \<open>x \<noteq> 0\<close>] by (simp add: word_less_nat_alt)
    ultimately have "\<exists>y. power_loop (turn_off_least_1bit x) = Some y \<and> unat y = 2 ^ k"
      using less.prems by (intro less.hyps) auto
    moreover have "\<not> is_power_of_2 x" using top unfolding is_power_of_2_def by auto
    ultimately show ?thesis by (subst power_loop.simps) simp
  qed
qed

lemma power_between: "0 < n \<Longrightarrow> \<exists>k. 2 ^ k \<le> n \<and> n < (2 :: nat) ^ Suc k"
  using ex_power_ivl1 [of 2 n] by simp

lemma power_loop_returns:
  assumes "x \<noteq> 0"
  obtains y k where "power_loop x = Some y" "unat y = 2 ^ k" "2 ^ k \<le> unat x" "unat x < 2 ^ Suc k"
proof -
  from power_between [of "unat x"] assms obtain k where k: "2 ^ k \<le> unat x" "unat x < 2 ^ Suc k"
    by (auto simp: unat_gt_0)
  with power_loop_result [OF k] show thesis by (auto intro: that)
qed


section \<open>The table as a set\<close>

definition elems :: "'a hash \<Rightarrow> 'a list" where "elems h = concat (buckets h)"

definition placed :: "('a \<Rightarrow> u32) \<Rightarrow> 'a hash \<Rightarrow> bool" where
  "placed hf h \<longleftrightarrow> bucket_cnt h \<noteq> 0 \<and> length (buckets h) = unat (bucket_cnt h) \<and>
    (\<forall>i<length (buckets h). \<forall>e\<in>set (buckets h ! i). find_bucket hf h e = i)"

definition unlike :: "('a \<Rightarrow> 'a \<Rightarrow> bool) \<Rightarrow> 'a list \<Rightarrow> bool" where
  "unlike lt es \<longleftrightarrow> distinct es \<and> (\<forall>x\<in>set es. \<forall>y\<in>set es. same_elem lt x y \<longrightarrow> x = y)"

definition hash_inv :: "('a \<Rightarrow> u32) \<Rightarrow> ('a \<Rightarrow> 'a \<Rightarrow> bool) \<Rightarrow> 'a hash \<Rightarrow> bool" where
  "hash_inv hf lt h \<longleftrightarrow> placed hf h \<and> is_power_of_2 (bucket_cnt h) \<and> unlike lt (elems h) \<and>
    unat (elem_cnt h) = length (elems h)"

text \<open>What \<open>hash.h\<close> asks of the two functions: elements that compare equal are alike, and hash alike.\<close>

definition hash_contract :: "('a \<Rightarrow> u32) \<Rightarrow> ('a \<Rightarrow> 'a \<Rightarrow> bool) \<Rightarrow> bool" where
  "hash_contract hf lt \<longleftrightarrow> equivp (same_elem lt) \<and> (\<forall>x y. same_elem lt x y \<longrightarrow> hf x = hf y)"

lemma find_bucket_bound: "placed hf h \<Longrightarrow> find_bucket hf h e < length (buckets h)"
proof -
  assume p: "placed hf h"
  then have "0 < unat (bucket_cnt h)" by (simp add: placed_def unat_gt_0)
  then have "unat (bucket_cnt h - 1) < unat (bucket_cnt h)"
    by (subst unat_sub) (auto simp: word_le_nat_alt)
  moreover have "unat (hf e AND (bucket_cnt h - 1)) \<le> unat (bucket_cnt h - 1)"
    using word_and_le1 [of "hf e" "bucket_cnt h - 1"] by (simp add: word_le_nat_alt)
  ultimately show ?thesis using p unfolding placed_def find_bucket_def by linarith
qed

lemma find_elem_Some: "find_elem lt xs e = Some x \<Longrightarrow> x \<in> set xs \<and> same_elem lt x e"
  by (induction xs) (auto simp: same_elem_def split: if_splits)

lemma find_elem_None: "find_elem lt xs e = None \<longleftrightarrow> (\<forall>x\<in>set xs. \<not> same_elem lt x e)"
  by (induction xs) (auto simp: same_elem_def)

lemma placed_in_bucket:
  assumes "placed hf h"
  shows "x \<in> set (buckets h ! find_bucket hf h x) \<longleftrightarrow> x \<in> set (elems h)"
proof
  assume "x \<in> set (buckets h ! find_bucket hf h x)"
  then show "x \<in> set (elems h)"
    using find_bucket_bound [OF assms, of x] by (auto simp: elems_def)
next
  assume "x \<in> set (elems h)"
  then obtain b where b: "b \<in> set (buckets h)" "x \<in> set b" by (auto simp: elems_def)
  then obtain i where "i < length (buckets h)" "x \<in> set (buckets h ! i)"
    by (auto simp: in_set_conv_nth [of b])
  then show "x \<in> set (buckets h ! find_bucket hf h x)" using assms by (auto simp: placed_def)
qed

lemma find_bucket_same: "hash_contract hf lt \<Longrightarrow> same_elem lt x e \<Longrightarrow> find_bucket hf h x = find_bucket hf h e"
  unfolding hash_contract_def find_bucket_def by simp

text \<open>What \<open>hash_find\<close> returns.\<close>

lemma hash_find_Some:
  assumes "hash_contract hf lt" "placed hf h" "hash_find hf lt h e = Some x"
  shows "x \<in> set (elems h)" "same_elem lt x e"
proof -
  from find_elem_Some [OF assms(3) [unfolded hash_find_def]]
  have x: "x \<in> set (buckets h ! find_bucket hf h e)" "same_elem lt x e" by auto
  then show "x \<in> set (elems h)" "same_elem lt x e"
    using find_bucket_same [OF assms(1) x(2)] placed_in_bucket [OF assms(2), of x] by auto
qed

lemma hash_find_None:
  assumes "hash_contract hf lt" "placed hf h"
  shows "hash_find hf lt h e = None \<longleftrightarrow> (\<forall>x\<in>set (elems h). \<not> same_elem lt x e)"
proof -
  have "x \<in> set (buckets h ! find_bucket hf h e) \<longleftrightarrow> x \<in> set (elems h)" if "same_elem lt x e" for x
    using find_bucket_same [OF assms(1) that] placed_in_bucket [OF assms(2), of x] by auto
  then show ?thesis unfolding hash_find_def find_elem_None by blast
qed

subsection \<open>The steps on buckets\<close>

lemma mset_push: "i < length xs \<Longrightarrow> mset (concat (xs[i := e # xs ! i])) = add_mset e (mset (concat xs))"
  by (induction xs arbitrary: i) (auto split: nat.splits)

lemma mset_remove_nth:
  assumes "i < length xs" "e \<in> set (xs ! i)" "\<forall>j<length xs. j \<noteq> i \<longrightarrow> e \<notin> set (xs ! j)"
  shows "add_mset e (mset (concat (map (remove1 e) xs))) = mset (concat xs)"
proof -
  have "map (remove1 e) xs = xs[i := remove1 e (xs ! i)]"
    by (rule nth_equalityI) (use assms in \<open>auto simp: nth_list_update remove1_idem\<close>)
  moreover have "mset (concat (xs[i := e # remove1 e (xs ! i)])) = mset (concat xs)"
    using assms(1,2) by (induction xs arbitrary: i) (auto split: nat.splits)
  ultimately show ?thesis using mset_push [of i "xs[i := remove1 e (xs ! i)]" e] assms(1) by simp
qed

lemma push_placed:
  assumes "placed hf h"
  shows "placed hf (push_bucket h (find_bucket hf h e) e)"
    "mset (elems (push_bucket h (find_bucket hf h e) e)) = add_mset e (mset (elems h))"
proof -
  have i: "find_bucket hf h e < length (buckets h)" by (rule find_bucket_bound [OF assms])
  then show "mset (elems (push_bucket h (find_bucket hf h e) e)) = add_mset e (mset (elems h))"
    by (simp add: push_bucket_def elems_def mset_push)
  show "placed hf (push_bucket h (find_bucket hf h e) e)"
    using assms i by (auto simp: placed_def push_bucket_def find_bucket_def nth_list_update)
qed

lemma moves_placed:
  "placed hf h \<Longrightarrow> placed hf (fold (move_elem hf) es h) \<and>
    mset (elems (fold (move_elem hf) es h)) = mset es + mset (elems h) \<and>
    bucket_cnt (fold (move_elem hf) es h) = bucket_cnt h \<and> elem_cnt (fold (move_elem hf) es h) = elem_cnt h"
proof (induction es arbitrary: h)
  case (Cons e es)
  from Cons.IH [OF push_placed(1) [OF Cons.prems, of e]] push_placed(2) [OF Cons.prems, of e]
  show ?case by (simp add: move_elem_def push_bucket_def)
qed simp

lemma fold_fold: "fold (fold f) xss s = fold f (concat xss) s"
  by (induction xss arbitrary: s) auto

lemma remove_placed:
  assumes "placed hf h" "e \<in> set (elems h)"
  shows "placed hf (remove_elem h e)" "add_mset e (mset (elems (remove_elem h e))) = mset (elems h)"
proof -
  have e: "e \<in> set (buckets h ! find_bucket hf h e)" using assms by (simp add: placed_in_bucket)
  have others: "\<forall>j<length (buckets h). j \<noteq> find_bucket hf h e \<longrightarrow> e \<notin> set (buckets h ! j)"
    using assms(1) by (auto simp: placed_def)
  show "placed hf (remove_elem h e)"
    using assms(1) by (auto simp: placed_def remove_elem_def find_bucket_def dest!: set_mp [OF set_remove1_subset])
  show "add_mset e (mset (elems (remove_elem h e))) = mset (elems h)"
    using mset_remove_nth [OF find_bucket_bound [OF assms(1)] e] others by (simp add: elems_def remove_elem_def)
qed


subsection \<open>Changing the number of buckets\<close>

lemma placed_empty: "n \<noteq> 0 \<Longrightarrow> placed hf (h\<lparr>buckets := replicate (unat n) [], bucket_cnt := n\<rparr>)"
  by (auto simp: placed_def)

lemma elems_empty: "elems (h\<lparr>buckets := replicate n [], bucket_cnt := c\<rparr>) = []"
  by (auto simp: elems_def)

lemma new_bucket_cnt_returns: "\<exists>c. new_bucket_cnt n = Some c \<and> is_power_of_2 c"
proof -
  define m where "m = (let c = n div BEST_ELEMS_PER_BUCKET in if c < 4 then 4 else c)"
  have "m \<noteq> 0" by (auto simp: m_def Let_def)
  then obtain y k where y: "power_loop m = Some y" "unat y = 2 ^ k" by (rule power_loop_returns)
  then have "y \<noteq> 0" by auto
  with y turn_off_power [OF y(2)] show ?thesis
    by (auto simp: new_bucket_cnt_def m_def Let_def is_power_of_2_def)
qed

lemma rehash_ok:
  assumes "placed hf h" "is_power_of_2 (bucket_cnt h)"
  shows "\<exists>h'. rehash hf mem h = Ok h' \<and> placed hf h' \<and> is_power_of_2 (bucket_cnt h') \<and>
    elem_cnt h' = elem_cnt h \<and> mset (elems h') = mset (elems h)"
proof -
  obtain n where n: "new_bucket_cnt (elem_cnt h) = Some n" "is_power_of_2 n"
    using new_bucket_cnt_returns by blast
  then have "n \<noteq> 0" by (simp add: is_power_of_2_def)
  from moves_placed [OF placed_empty [OF this], where es = "concat (buckets h)"] assms n show ?thesis
    by (auto simp: rehash_def fold_fold elems_empty elems_def [of h, symmetric])
qed

subsection \<open>The operations as operations on sets\<close>

lemma hash_invI:
  assumes "placed hf h'" "is_power_of_2 (bucket_cnt h')" "mset (elems h') = mset es" "unlike lt es"
    "unat (elem_cnt h') = length es"
  shows "hash_inv hf lt h'"
  using assms mset_eq_setD [OF assms(3)] mset_eq_length [OF assms(3)] mset_eq_imp_distinct_iff [OF assms(3)]
  by (simp add: hash_inv_def unlike_def)

lemma hash_invD:
  assumes "hash_inv hf lt h"
  shows "placed hf h" "is_power_of_2 (bucket_cnt h)" "unlike lt (elems h)" "unat (elem_cnt h) = length (elems h)"
  using assms by (simp_all add: hash_inv_def)

lemma unlike_cong: "mset xs = mset ys \<Longrightarrow> unlike lt xs = unlike lt ys"
  using mset_eq_setD [of xs ys] mset_eq_imp_distinct_iff [of xs ys] by (simp add: unlike_def)

lemma same_elem_sym: "same_elem lt x y \<Longrightarrow> same_elem lt y x"
  by (auto simp: same_elem_def)

lemma same_elem_refl: "hash_contract hf lt \<Longrightarrow> same_elem lt x x"
  unfolding hash_contract_def by (auto intro: equivp_reflp)

lemma same_elem_trans: "hash_contract hf lt \<Longrightarrow> same_elem lt x y \<Longrightarrow> same_elem lt y z \<Longrightarrow> same_elem lt x z"
  unfolding hash_contract_def by (auto intro: equivp_transp)

lemma insert_elem_ok:
  assumes c: "hash_contract hf lt"
  assumes "placed hf h" "is_power_of_2 (bucket_cnt h)" "unlike lt (elems h)" "unat (elem_cnt h) = length (elems h)"
    "length (elems h) < 2 ^ 29" "\<forall>x\<in>set (elems h). \<not> same_elem lt x e"
    "i = find_bucket hf h e"
  shows "\<exists>h'. rehash hf mem (insert_elem h i e) = Ok h' \<and> hash_inv hf lt h' \<and>
    set (elems h') = insert e (set (elems h))"
proof -
  define h1 where "h1 = h\<lparr>elem_cnt := elem_cnt h + 1\<rparr>"
  have p1: "placed hf h1" "find_bucket hf h1 e = i" "elems h1 = elems h"
    using assms(2,8) by (auto simp: h1_def placed_def find_bucket_def elems_def)
  define h2 where "h2 = insert_elem h i e"
  have h2: "h2 = push_bucket h1 (find_bucket hf h1 e) e" by (simp add: h2_def insert_elem_def h1_def [symmetric] p1(2))
  have p2: "placed hf h2" "mset (elems h2) = mset (e # elems h)" "bucket_cnt h2 = bucket_cnt h" "elem_cnt h2 = elem_cnt h + 1"
    using push_placed [OF p1(1), of e] by (simp_all add: h2 p1(3)) (simp_all add: push_bucket_def h1_def)
  from rehash_ok [OF p2(1)] obtain h' where h': "rehash hf mem h2 = Ok h'" "placed hf h'"
      "is_power_of_2 (bucket_cnt h')" "elem_cnt h' = elem_cnt h + 1" "mset (elems h') = mset (e # elems h)"
    using assms(3) p2 by auto
  have "unlike lt (e # elems h)"
    using assms(4,7) same_elem_refl [OF c] by (auto simp: unlike_def dest: same_elem_sym)
  moreover have "unat (elem_cnt h') = length (e # elems h)"
    using assms(5,6) unfolding h'(4) by (subst unat_add_lem [THEN iffD1]) auto
  ultimately have "hash_inv hf lt h'" by (rule hash_invI [OF h'(2,3,5)])
  with h' mset_eq_setD [OF h'(5)] show ?thesis by (auto simp: h2_def)
qed


lemma remove_elem_ok:
  assumes "hash_inv hf lt h" "x \<in> set (elems h)"
  shows "placed hf (remove_elem h x)" "is_power_of_2 (bucket_cnt (remove_elem h x))"
    "unlike lt (elems (remove_elem h x))" "unat (elem_cnt (remove_elem h x)) = length (elems (remove_elem h x))"
    "set (elems (remove_elem h x)) = set (elems h) - {x}"
proof -
  note inv = hash_invD [OF assms(1)]
  note r = remove_placed [OF inv(1) assms(2)]
  show "placed hf (remove_elem h x)" by (rule r(1))
  show "is_power_of_2 (bucket_cnt (remove_elem h x))" using inv(2) by (simp add: remove_elem_def)
  from r(2) have m: "mset (x # elems (remove_elem h x)) = mset (elems h)" by simp
  with unlike_cong [OF m] inv(3) have u: "unlike lt (x # elems (remove_elem h x))" by simp
  then show "unlike lt (elems (remove_elem h x))" by (auto simp: unlike_def)
  show "set (elems (remove_elem h x)) = set (elems h) - {x}"
    using u mset_eq_setD [OF m] by (auto simp: unlike_def)
  have "length (elems h) = Suc (length (elems (remove_elem h x)))" using mset_eq_length [OF m] by simp
  moreover from this inv(4) have "unat (elem_cnt h - 1) = unat (elem_cnt h) - 1"
    by (subst unat_sub) (auto simp: word_le_nat_alt)
  ultimately show "unat (elem_cnt (remove_elem h x)) = length (elems (remove_elem h x))"
    using inv(4) by (simp add: remove_elem_def)
qed

lemma found_unique:
  assumes "hash_contract hf lt" "hash_inv hf lt h" "hash_find hf lt h e = Some x"
  shows "{y \<in> set (elems h). same_elem lt y e} = {x}"
proof -
  note x = hash_find_Some [OF assms(1) hash_invD(1) [OF assms(2)] assms(3)]
  have "y = x" if y: "y \<in> set (elems h)" "same_elem lt y e" for y
    using hash_invD(3) [OF assms(2)] same_elem_trans [OF assms(1) y(2) same_elem_sym [OF x(2)]] y(1) x(1)
    unfolding unlike_def by blast
  then show ?thesis using x by blast
qed

lemma hash_insert_ok:
  assumes "hash_contract hf lt" "hash_inv hf lt h" "length (elems h) < 2 ^ 29"
  shows "\<exists>h'. hash_insert hf lt mem h e = Ok (hash_find hf lt h e, h') \<and> hash_inv hf lt h' \<and>
    set (elems h') = (if hash_find hf lt h e = None then insert e (set (elems h)) else set (elems h))"
proof (cases "hash_find hf lt h e")
  case None
  note inv = hash_invD [OF assms(2)]
  from None hash_find_None [OF assms(1) inv(1)]
  have "\<forall>x\<in>set (elems h). \<not> same_elem lt x e" by blast
  from insert_elem_ok [OF assms(1) inv assms(3) this refl, of mem] obtain h' where
    "rehash hf mem (insert_elem h (find_bucket hf h e) e) = Ok h'" "hash_inv hf lt h'"
    "set (elems h') = insert e (set (elems h))" by blast
  then show ?thesis using None by (simp add: hash_insert_def hash_find_def Let_def)
next
  case (Some x)
  note inv = hash_invD [OF assms(2)]
  from rehash_ok [OF inv(1,2)] obtain h' where h': "rehash hf mem h = Ok h'" "placed hf h'"
      "is_power_of_2 (bucket_cnt h')" "elem_cnt h' = elem_cnt h" "mset (elems h') = mset (elems h)" by blast
  have "hash_inv hf lt h'" by (rule hash_invI [OF h'(2,3,5) inv(3)]) (simp add: h'(4) inv(4))
  then show ?thesis using h'(1) Some mset_eq_setD [OF h'(5)]
    by (simp add: hash_insert_def hash_find_def Let_def)
qed

lemma hash_delete_ok:
  assumes "hash_contract hf lt" "hash_inv hf lt h"
  shows "\<exists>h'. hash_delete hf lt mem h e = Ok (hash_find hf lt h e, h') \<and> hash_inv hf lt h' \<and>
    set (elems h') = set (elems h) - {x. same_elem lt x e}"
proof (cases "hash_find hf lt h e")
  case None
  then have "set (elems h) - {x. same_elem lt x e} = set (elems h)"
    using hash_find_None [OF assms(1) hash_invD(1) [OF assms(2)], of e] by auto
  then show ?thesis using None assms(2) by (simp add: hash_delete_def hash_find_def)
next
  case (Some x)
  have "x \<in> set (elems h)" by (rule hash_find_Some(1) [OF assms(1) hash_invD(1) [OF assms(2)] Some])
  note r = remove_elem_ok [OF assms(2) this]
  from rehash_ok [OF r(1,2)] obtain h' where h': "rehash hf mem (remove_elem h x) = Ok h'" "placed hf h'"
      "is_power_of_2 (bucket_cnt h')" "elem_cnt h' = elem_cnt (remove_elem h x)"
      "mset (elems h') = mset (elems (remove_elem h x))" by blast
  have "hash_inv hf lt h'" by (rule hash_invI [OF h'(2,3,5) r(3)]) (simp add: h'(4) r(4))
  moreover have "set (elems h') = set (elems h) - {x. same_elem lt x e}"
    using mset_eq_setD [OF h'(5)] r(5) found_unique [OF assms Some] by auto
  ultimately show ?thesis using h'(1) Some by (simp add: hash_delete_def hash_find_def)
qed

lemma remove_elem_find_bucket [simp]: "find_bucket hf (remove_elem h x) e = find_bucket hf h e"
  by (simp add: find_bucket_def remove_elem_def)

lemma hash_replace_ok:
  assumes "hash_contract hf lt" "hash_inv hf lt h" "length (elems h) < 2 ^ 29"
  shows "\<exists>h'. hash_replace hf lt mem h e = Ok (hash_find hf lt h e, h') \<and> hash_inv hf lt h' \<and>
    set (elems h') = insert e (set (elems h) - {x. same_elem lt x e})"
proof (cases "hash_find hf lt h e")
  case None
  from hash_find_None [OF assms(1) hash_invD(1) [OF assms(2)], of e] None
  have n: "\<forall>x\<in>set (elems h). \<not> same_elem lt x e" by blast
  then have "set (elems h) - {x. same_elem lt x e} = set (elems h)" by auto
  moreover from insert_elem_ok [OF assms(1) hash_invD [OF assms(2)] assms(3) n refl, of mem] obtain h' where
    "rehash hf mem (insert_elem h (find_bucket hf h e) e) = Ok h'" "hash_inv hf lt h'"
    "set (elems h') = insert e (set (elems h))" by blast
  ultimately show ?thesis using None by (simp add: hash_replace_def hash_find_def Let_def)
next
  case (Some x)
  have x: "x \<in> set (elems h)" by (rule hash_find_Some(1) [OF assms(1) hash_invD(1) [OF assms(2)] Some])
  note r = remove_elem_ok [OF assms(2) x]
  have e: "set (elems (remove_elem h x)) = set (elems h) - {x. same_elem lt x e}"
    using r(5) found_unique [OF assms(1,2) Some] by auto
  have "length (elems (remove_elem h x)) < 2 ^ 29"
    using mset_eq_length [OF remove_placed(2) [OF hash_invD(1) [OF assms(2)] x, folded mset.simps(2)]] assms(3) by simp
  moreover have "\<forall>y\<in>set (elems (remove_elem h x)). \<not> same_elem lt y e" unfolding e by blast
  ultimately obtain h' where "rehash hf mem (insert_elem (remove_elem h x) (find_bucket hf h e) e) = Ok h'"
    "hash_inv hf lt h'" "set (elems h') = insert e (set (elems (remove_elem h x)))"
    using insert_elem_ok [OF assms(1) r(1-4) _ _ refl, of e mem] by auto
  then show ?thesis using Some by (simp add: hash_replace_def hash_find_def Let_def e)
qed

section \<open>Iteration\<close>

text \<open>The elements an iterator has yet to visit.\<close>

definition rest :: "'a hash \<Rightarrow> hash_iterator \<Rightarrow> 'a list" where
  "rest h i = (case it_elem i of None \<Rightarrow> []
     | Some p \<Rightarrow> drop p (buckets h ! it_bucket i) @ concat (drop (Suc (it_bucket i)) (buckets h)))"

lemma hash_next_loop_rest:
  assumes "length (buckets h) = unat (bucket_cnt h)" "b < unat (bucket_cnt h)" "p \<le> length (buckets h ! b)"
    "drop p (buckets h ! b) @ concat (drop (Suc b) (buckets h)) = ys"
  shows "it_elem (hash_next_loop h b (Suc p)) = None \<and> ys = [] \<or>
    (\<exists>q. hash_cur h (hash_next_loop h b (Suc p)) = Some q \<and> ys = q # rest h (hash_next_loop h b (Suc p)) \<and>
      it_bucket (hash_next_loop h b (Suc p)) < unat (bucket_cnt h) \<and>
      the (it_elem (hash_next_loop h b (Suc p))) \<le> length (buckets h ! it_bucket (hash_next_loop h b (Suc p))))"
  using assms
proof (induction h b "Suc p" arbitrary: p rule: hash_next_loop.induct)
  case (1 h b p)
  show ?case
  proof (cases "p = length (buckets h ! b)")
    case False
    then have p: "p < length (buckets h ! b)" using 1(4) by simp
    then have "ys = buckets h ! b ! p # drop (Suc p) (buckets h ! b) @ concat (drop (Suc b) (buckets h))"
      using 1(5) by (simp flip: Cons_nth_drop_Suc)
    moreover have e: "hash_next_loop h b (Suc p) = \<lparr>it_bucket = b, it_elem = Some (Suc p)\<rparr>"
      using False by (subst hash_next_loop.simps) simp
    ultimately show ?thesis using p 1(3) unfolding e by (simp add: hash_cur_def rest_def)
  next
    case True
    show ?thesis
    proof (cases "Suc b < unat (bucket_cnt h)")
      case False
      then have e: "hash_next_loop h b (Suc p) = \<lparr>it_bucket = Suc b, it_elem = None\<rparr>"
        using True by (subst hash_next_loop.simps) simp
      show ?thesis using False True 1(2,5) unfolding e by simp
    next
      case s: True
      then have e: "hash_next_loop h b (Suc p) = hash_next_loop h (Suc b) 1"
        using True by (subst hash_next_loop.simps) simp
      have "drop 0 (buckets h ! Suc b) @ concat (drop (Suc (Suc b)) (buckets h)) = ys"
        using 1(2,5) s True by (simp flip: Cons_nth_drop_Suc)
      from 1(1) [OF _ _ _ 1(2) s _ this] True s show ?thesis unfolding e by simp
    qed
  qed
qed


text \<open>The iteration idiom of the comment on \<open>hash_first\<close>, with the elements it visits.\<close>

fun hash_walk :: "nat \<Rightarrow> 'a hash \<Rightarrow> hash_iterator \<Rightarrow> 'a list outcome" where
  "hash_walk 0 h i = Hang"
| "hash_walk (Suc n) h i =
    bind (hash_next h i) (\<lambda>(e, i). case e of None \<Rightarrow> Ok []
      | Some x \<Rightarrow> bind (hash_walk n h i) (\<lambda>xs. Ok (x # xs)))"

lemma hash_walk_rest:
  assumes "length (buckets h) = unat (bucket_cnt h)" "it_bucket i < unat (bucket_cnt h)" "it_elem i = Some p"
    "p \<le> length (buckets h ! it_bucket i)" "rest h i = ys"
  shows "hash_walk (Suc (length ys)) h i = Ok ys"
  using assms(2-)
proof (induction ys arbitrary: i p)
  case Nil
  from Nil(2,4) have "drop p (buckets h ! it_bucket i) @ concat (drop (Suc (it_bucket i)) (buckets h)) = []"
    by (simp add: rest_def)
  from hash_next_loop_rest [OF assms(1) Nil(1) Nil(3) this] Nil(2) show ?case
    by (auto simp: hash_next_def hash_cur_def)
next
  case (Cons y ys)
  define i' where "i' = hash_next_loop h (it_bucket i) (Suc p)"
  from hash_next_loop_rest [OF assms(1) Cons(2,4), of "y # ys", folded i'_def] Cons(3,5)
  have i': "hash_cur h i' = Some y" "rest h i' = ys" "it_bucket i' < unat (bucket_cnt h)"
    "the (it_elem i') \<le> length (buckets h ! it_bucket i')" by (auto simp: rest_def)
  from i'(1) obtain q where q: "it_elem i' = Some q" by (auto simp: hash_cur_def)
  from Cons.IH [OF i'(3) q _ i'(2)] i'(4) q have "hash_walk (Suc (length ys)) h i' = Ok ys" by simp
  then show ?case using Cons(3) i'(1)
    by (subst hash_walk.simps) (simp add: hash_next_def i'_def [symmetric] del: hash_walk.simps)
qed

lemma hash_walk_all: "placed hf h \<Longrightarrow> hash_walk (Suc (length (elems h))) h hash_first = Ok (elems h)"
proof (rule hash_walk_rest [where p = 0])
  assume p: "placed hf h"
  then show "length (buckets h) = unat (bucket_cnt h)" by (simp add: placed_def)
  show n: "it_bucket hash_first < unat (bucket_cnt h)" using p by (simp add: hash_first_def placed_def unat_gt_0)
  have "drop 0 (buckets h) = buckets h ! 0 # drop (Suc 0) (buckets h)"
    using p n by (subst Cons_nth_drop_Suc) (auto simp: hash_first_def placed_def)
  then have "buckets h = buckets h ! 0 # drop (Suc 0) (buckets h)" by simp
  from arg_cong [OF this, of concat] show "rest h hash_first = elems h"
    by (simp add: rest_def hash_first_def elems_def)
qed (simp_all add: hash_first_def)

lemma clear_bucket_True [simp]: "clear_bucket True b = b"
  by (induction b) auto

lemma clear_buckets [simp]: "map (clear_bucket True) bs = bs"
  by (simp add: map_idI)

lemma hash_clear_inv:
  assumes "placed hf h" "is_power_of_2 (bucket_cnt h)"
  shows "hash_inv hf lt (snd (hash_clear d h))" "elems (snd (hash_clear d h)) = []"
proof -
  show e: "elems (snd (hash_clear d h)) = []" by (simp add: hash_clear_def elems_def)
  show "hash_inv hf lt (snd (hash_clear d h))"
    using assms unfolding hash_inv_def e by (auto simp: hash_clear_def placed_def unlike_def)
qed

lemma hash_init_inv: "mem 64 \<Longrightarrow> \<exists>h. hash_init mem = Some h \<and> hash_inv hf lt h \<and> elems h = []"
proof -
  assume m: "mem 64"
  have "placed hf \<lparr>elem_cnt = 0, bucket_cnt = 4, buckets = replicate 4 []\<rparr>"
    by (auto simp: placed_def nth_append)
  from hash_clear_inv(1) [OF this, of lt False] hash_clear_inv(2) [OF this, of False] m show ?thesis
    by (simp add: hash_init_def SIZEOF_LIST_def is_power_of_2_def turn_off_least_1bit_def)
qed

section \<open>The properties\<close>

text \<open>
  C34: A hash table behaves as a set of elements no two of which compare equal.  With a comparison under which
  equality is an equivalence and a hash function that agrees with it, and fewer than \<open>2 ^ 29\<close> elements (the
  bound that keeps the size asked of \<open>malloc\<close> in 32 bits): \<open>hash_find\<close> returns the equal element exactly
  when there is one; \<open>hash_insert\<close>, \<open>hash_replace\<close> and \<open>hash_delete\<close> return that element, keep the
  invariant (every element in the bucket of its hash, the count right, the number of buckets a power of 2) and
  add, replace or remove exactly what they should, whether or not rehashing gets its memory.
\<close>

theorem hash_refines_set:
  assumes "hash_contract hf lt" "hash_inv hf lt h" "length (elems h) < 2 ^ 29"
  shows "(\<forall>x. hash_find hf lt h e = Some x \<longleftrightarrow> x \<in> set (elems h) \<and> same_elem lt x e) \<and>
    (\<exists>h'. hash_insert hf lt mem h e = Ok (hash_find hf lt h e, h') \<and> hash_inv hf lt h' \<and>
      set (elems h') = (if hash_find hf lt h e = None then insert e (set (elems h)) else set (elems h))) \<and>
    (\<exists>h'. hash_replace hf lt mem h e = Ok (hash_find hf lt h e, h') \<and> hash_inv hf lt h' \<and>
      set (elems h') = insert e (set (elems h) - {x. same_elem lt x e})) \<and>
    (\<exists>h'. hash_delete hf lt mem h e = Ok (hash_find hf lt h e, h') \<and> hash_inv hf lt h' \<and>
      set (elems h') = set (elems h) - {x. same_elem lt x e})"
proof (intro conjI allI)
  fix x
  note p = hash_invD(1) [OF assms(2)]
  show "hash_find hf lt h e = Some x \<longleftrightarrow> x \<in> set (elems h) \<and> same_elem lt x e"
  proof
    assume "hash_find hf lt h e = Some x"
    from hash_find_Some [OF assms(1) p this] show "x \<in> set (elems h) \<and> same_elem lt x e" ..
  next
    assume x: "x \<in> set (elems h) \<and> same_elem lt x e"
    with hash_find_None [OF assms(1) p, of e] obtain y where y: "hash_find hf lt h e = Some y" by auto
    from found_unique [OF assms(1,2) y] x y show "hash_find hf lt h e = Some x" by auto
  qed
qed (rule hash_insert_ok [OF assms] hash_replace_ok [OF assms] hash_delete_ok [OF assms(1,2)])+

definition small_table :: "nat hash" where
  "small_table = \<lparr>elem_cnt = 3, bucket_cnt = 4, buckets = [[4, 8], [], [], [7]]\<rparr>"

lemma same_elem_nat [simp]: "same_elem (<) x y \<longleftrightarrow> x = (y :: nat)"
  by (auto simp: same_elem_def)

lemma small_contract: "hash_contract of_nat ((<) :: nat \<Rightarrow> nat \<Rightarrow> bool)"
  by (auto simp: hash_contract_def equivp_def fun_eq_iff)

lemma small_inv: "hash_inv of_nat (<) small_table"
  by code_simp

theorem hash_refines_set_witness:
  "hash_find of_nat (<) small_table 7 = Some 7 \<and>
    (\<exists>h'. hash_insert of_nat (<) (\<lambda>_. True) small_table 5 = Ok (None, h') \<and> set (elems h') = {4, 5, 7, 8}) \<and>
    (\<exists>h'. hash_delete of_nat (<) (\<lambda>_. True) small_table 8 = Ok (Some 8, h') \<and> set (elems h') = {4, 7})"
proof -
  have n: "length (elems small_table) < 2 ^ 29" by (simp add: small_table_def elems_def)
  have e: "set (elems small_table) = {4, 8, 7}" by (simp add: small_table_def elems_def)
  have f: "hash_find of_nat (<) small_table 5 = None" "hash_find of_nat (<) small_table 8 = Some 8"
    by code_simp+
  note r = hash_refines_set [OF small_contract small_inv n]
  from r [of 7 "\<lambda>_. True"] r [of 5 "\<lambda>_. True"] r [of 8 "\<lambda>_. True"] show ?thesis
    unfolding e f by auto
qed

text \<open>
  C35: A table starts empty, \<open>hash_clear\<close> and \<open>hash_destroy\<close> with a destructor call it once for each element
  and \<open>hash_clear\<close> leaves an empty table, \<open>hash_apply\<close> calls its action once for each element, and the
  iteration idiom of \<open>hash_first\<close> and \<open>hash_next\<close> ends after visiting each element once.
\<close>

theorem hash_life_cycle:
  assumes "hash_inv hf lt h" "mem 64"
  shows "(\<exists>h0. hash_init mem = Some h0 \<and> hash_inv hf lt h0 \<and> elems h0 = []) \<and>
    (\<exists>h'. hash_clear True h = (elems h, h') \<and> hash_inv hf lt h' \<and> elems h' = []) \<and>
    hash_destroy True h = elems h \<and>
    hash_apply (\<lambda>x xs. xs @ [x]) h [] = elems h \<and>
    hash_walk (Suc (length (elems h))) h hash_first = Ok (elems h) \<and>
    distinct (elems h) \<and> unat (hash_size h) = length (elems h) \<and> (hash_empty h \<longleftrightarrow> elems h = [])"
proof -
  note inv = hash_invD [OF assms(1)]
  have "fold (\<lambda>x xs. xs @ [x]) es acc = acc @ es" for es acc :: "'a list"
    by (induction es arbitrary: acc) auto
  then have "hash_apply (\<lambda>x xs. xs @ [x]) h [] = elems h"
    by (simp add: hash_apply_def fold_fold elems_def)
  moreover have "fst (hash_clear True h) = elems h" by (simp add: hash_clear_def elems_def)
  moreover from inv(4) have "elem_cnt h = 0 \<longleftrightarrow> elems h = []" by (auto simp: unat_eq_0)
  ultimately show ?thesis
    using inv hash_init_inv [of mem hf lt, OF assms(2)] hash_clear_inv(1) [OF inv(1,2), of lt True]
      hash_clear_inv(2) [OF inv(1,2), of True] hash_walk_all [OF inv(1)]
    by (auto simp: hash_destroy_def hash_size_def hash_empty_def unlike_def prod_eq_iff)
qed

theorem hash_life_cycle_witness:
  "hash_walk 4 small_table hash_first = Ok [4, 8, 7] \<and> hash_destroy True small_table = [4, 8, 7]"
  using hash_life_cycle [OF small_inv, of "\<lambda>_. True"] by (simp add: small_table_def elems_def numeral_eq_Suc)

text \<open>
  C36: The loop of \<open>rehash\<close> that turns off bits ends for every number but 0, and gives the largest power of 2
  not above the number.
\<close>

theorem power_loop_ends:
  assumes "x \<noteq> 0"
  shows "\<exists>y k. power_loop x = Some y \<and> unat y = 2 ^ k \<and> 2 ^ k \<le> unat x \<and> unat x < 2 ^ Suc k"
  by (rule power_loop_returns [OF assms]) blast

theorem power_loop_ends_witness:
  "\<exists>y k. power_loop 100 = Some y \<and> unat y = 2 ^ k \<and> 2 ^ k \<le> (100 :: nat) \<and> 100 < (2 :: nat) ^ Suc k"
  using power_loop_ends [of 100] by simp

end
