(* ===== verification/Palloc.thy ===== *)
theory Palloc
  imports Bitmap
begin

text \<open>
  Page allocation, \<open>threads/palloc.c\<close>, with the address arithmetic of \<open>threads/vaddr.h\<close>.  Addresses are 32-bit
  words and the null pointer is 0.  The pool's lock makes the scan of the bitmap atomic; an operation here is one
  such section.  The contents of memory are a function of the address.
\<close>

section \<open>Addresses\<close>

definition PGBITS :: nat where "PGBITS = 12"
definition PGSIZE :: u32 where "PGSIZE = 4096"
definition PGMASK :: u32 where "PGMASK = 4095"
definition PHYS_BASE :: u32 where "PHYS_BASE = 0xC0000000"

definition pg_ofs :: "u32 \<Rightarrow> u32" where "pg_ofs va = va AND PGMASK"
definition pg_no :: "u32 \<Rightarrow> u32" where "pg_no va = drop_bit PGBITS va"
definition pg_round_up :: "u32 \<Rightarrow> u32" where "pg_round_up va = (va + PGSIZE - 1) AND NOT PGMASK"
definition pg_round_down :: "u32 \<Rightarrow> u32" where "pg_round_down va = va AND NOT PGMASK"
definition is_user_vaddr :: "u32 \<Rightarrow> bool" where "is_user_vaddr vaddr \<longleftrightarrow> vaddr < PHYS_BASE"
definition is_kernel_vaddr :: "u32 \<Rightarrow> bool" where "is_kernel_vaddr vaddr \<longleftrightarrow> vaddr \<ge> PHYS_BASE"
definition ptov :: "u32 \<Rightarrow> u32 outcome" where "ptov paddr = assert (paddr < PHYS_BASE) (Ok (paddr + PHYS_BASE))"
definition vtop :: "u32 \<Rightarrow> u32 outcome" where "vtop vaddr = assert (is_kernel_vaddr vaddr) (Ok (vaddr - PHYS_BASE))"

definition DIV_ROUND_UP :: "u32 \<Rightarrow> u32 \<Rightarrow> u32" where "DIV_ROUND_UP x step = (x + step - 1) div step"

section \<open>Pools and their operations\<close>

record pool =
  used_map :: bitmap
  base :: u32

record pages =
  kernel_pool :: pool
  user_pool :: pool
  mem :: "u32 \<Rightarrow> u8"

definition PAL_ASSERT :: u32 where "PAL_ASSERT = 1"
definition PAL_ZERO :: u32 where "PAL_ZERO = 2"
definition PAL_USER :: u32 where "PAL_USER = 4"

text \<open>\<open>memset\<close> on the memory: \<open>n\<close> bytes from \<open>a\<close>.\<close>

definition mem_fill :: "(u32 \<Rightarrow> u8) \<Rightarrow> u32 \<Rightarrow> u8 \<Rightarrow> u32 \<Rightarrow> (u32 \<Rightarrow> u8)" where
  "mem_fill m a v n = (\<lambda>x. if x - a < n then v else m x)"

definition palloc_get_multiple :: "u32 \<Rightarrow> u32 \<Rightarrow> pages \<Rightarrow> (u32 \<times> pages) outcome" where
  "palloc_get_multiple flags page_cnt s =
    (let user = flags AND PAL_USER \<noteq> 0;
         pool = (if user then user_pool s else kernel_pool s)
     in if page_cnt = 0 then Ok (0, s)
        else
          bind (bitmap_scan_and_flip (used_map pool) 0 page_cnt False) (\<lambda>(page_idx, map).
          let pool = pool\<lparr>used_map := map\<rparr>;
              s = (if user then s\<lparr>user_pool := pool\<rparr> else s\<lparr>kernel_pool := pool\<rparr>);
              pages = (if page_idx \<noteq> BITMAP_ERROR then base pool + PGSIZE * page_idx else 0)
          in if pages \<noteq> 0 then
               Ok (pages, if flags AND PAL_ZERO \<noteq> 0 then s\<lparr>mem := mem_fill (mem s) pages 0 (PGSIZE * page_cnt)\<rparr> else s)
             else if flags AND PAL_ASSERT \<noteq> 0 then Panic
             else Ok (pages, s)))"

definition palloc_get_page :: "u32 \<Rightarrow> pages \<Rightarrow> (u32 \<times> pages) outcome" where
  "palloc_get_page flags s = palloc_get_multiple flags 1 s"

definition page_from_pool :: "pool \<Rightarrow> u32 \<Rightarrow> bool" where
  "page_from_pool pool page =
    (let page_no = pg_no page;
         start_page = pg_no (base pool);
         end_page = start_page + bitmap_size (used_map pool)
     in page_no \<ge> start_page \<and> page_no < end_page)"

definition release_pages :: "pool \<Rightarrow> u32 \<Rightarrow> u32 \<Rightarrow> pool outcome" where
  "release_pages pool pages page_cnt =
    (let page_idx = pg_no pages - pg_no (base pool)
     in bind (bitmap_all (used_map pool) page_idx page_cnt) (\<lambda>all.
        assert all
        (bind (bitmap_set_multiple (used_map pool) page_idx page_cnt False) (\<lambda>map.
         Ok (pool\<lparr>used_map := map\<rparr>)))))"

definition palloc_free_multiple :: "u32 \<Rightarrow> u32 \<Rightarrow> pages \<Rightarrow> pages outcome" where
  "palloc_free_multiple pages page_cnt s =
    assert (pg_ofs pages = 0)
    (if pages = 0 \<or> page_cnt = 0 then Ok s
     else
       let t = s\<lparr>mem := mem_fill (mem s) pages 0xCC (PGSIZE * page_cnt)\<rparr>
       in if page_from_pool (kernel_pool s) pages then
            bind (release_pages (kernel_pool s) pages page_cnt) (\<lambda>pool. Ok (t\<lparr>kernel_pool := pool\<rparr>))
          else if page_from_pool (user_pool s) pages then
            bind (release_pages (user_pool s) pages page_cnt) (\<lambda>pool. Ok (t\<lparr>user_pool := pool\<rparr>))
          else Panic)"

definition palloc_free_page :: "u32 \<Rightarrow> pages \<Rightarrow> pages outcome" where
  "palloc_free_page page s = palloc_free_multiple page 1 s"

text \<open>\<open>storage\<close> is what the bitmap's buffer holds before it is cleared.\<close>

definition init_pool :: "u32 \<Rightarrow> u32 \<Rightarrow> u32 list \<Rightarrow> pool outcome" where
  "init_pool start page_cnt storage =
    (let bm_pages = DIV_ROUND_UP (bitmap_buf_size page_cnt) PGSIZE
     in if bm_pages > page_cnt then Panic
        else
          let page_cnt = page_cnt - bm_pages
          in bind (bitmap_create_in_buf page_cnt (take (unat (Bitmap.elem_cnt page_cnt)) storage) (bm_pages * PGSIZE)) (\<lambda>map.
             Ok \<lparr>used_map = map, base = start + bm_pages * PGSIZE\<rparr>))"

definition palloc_init :: "u32 \<Rightarrow> u32 \<Rightarrow> (u32 \<Rightarrow> u32 list) \<Rightarrow> (u32 \<Rightarrow> u8) \<Rightarrow> pages outcome" where
  "palloc_init init_ram_pages user_page_limit storage m =
    bind (ptov (1024 * 1024)) (\<lambda>free_start.
    bind (ptov (init_ram_pages * PGSIZE)) (\<lambda>free_end.
    let free_pages = (free_end - free_start) div PGSIZE;
        user_pages = free_pages div 2;
        user_pages = (if user_pages > user_page_limit then user_page_limit else user_pages);
        kernel_pages = free_pages - user_pages;
        user_start = free_start + kernel_pages * PGSIZE
    in bind (init_pool free_start kernel_pages (storage free_start)) (\<lambda>kp.
       bind (init_pool user_start user_pages (storage user_start)) (\<lambda>up.
       Ok \<lparr>kernel_pool = kp, user_pool = up, mem = m\<rparr>))))"

section \<open>The pages of a pool\<close>

lemma pg_mask: "PGMASK = mask 12"
  by (simp add: PGMASK_def mask_eq_exp_minus_1)

lemma unat_pg_ofs: "unat (pg_ofs va) = unat va mod 4096"
  by (simp add: pg_ofs_def pg_mask take_bit_eq_mod unat_mod flip: take_bit_eq_mask)

lemma unat_pg_no: "unat (pg_no va) = unat va div 4096"
  by (simp add: pg_no_def PGBITS_def drop_bit_eq_div unat_div)

definition pool_inv :: "pool \<Rightarrow> bool" where
  "pool_inv p \<longleftrightarrow> bitmap_inv (used_map p) \<and> unat (base p) mod 4096 = 0 \<and> base p \<noteq> 0 \<and>
    unat (base p) + 4096 * length (bits_of (used_map p)) \<le> 2 ^ 32"

text \<open>Page numbers: those of the pool, those handed out, and a group of pages at an address.\<close>

definition first_page :: "u32 \<Rightarrow> nat" where "first_page a = unat a div 4096"

definition pool_pages :: "pool \<Rightarrow> nat set" where
  "pool_pages p = {first_page (base p)..<first_page (base p) + length (bits_of (used_map p))}"

definition pool_used :: "pool \<Rightarrow> nat set" where
  "pool_used p = (+) (first_page (base p)) ` used_bits (bits_of (used_map p))"

definition page_group :: "u32 \<Rightarrow> u32 \<Rightarrow> nat set" where
  "page_group a n = {first_page a..<first_page a + unat n}"

definition palloc_inv :: "pages \<Rightarrow> bool" where
  "palloc_inv s \<longleftrightarrow> pool_inv (kernel_pool s) \<and> pool_inv (user_pool s) \<and>
    pool_pages (kernel_pool s) \<inter> pool_pages (user_pool s) = {}"

definition used_pages :: "pages \<Rightarrow> nat set" where
  "used_pages s = pool_used (kernel_pool s) \<union> pool_used (user_pool s)"

definition the_pool :: "u32 \<Rightarrow> pages \<Rightarrow> pool" where
  "the_pool flags s = (if flags AND PAL_USER \<noteq> 0 then user_pool s else kernel_pool s)"

lemma pool_used_subset: "pool_used p \<subseteq> pool_pages p"
  by (auto simp: pool_used_def pool_pages_def used_bits_def)

lemma pool_page_address:
  assumes "pool_inv p" "unat i < length (bits_of (used_map p))"
  shows "unat (base p + PGSIZE * i) = unat (base p) + 4096 * unat i" "base p + PGSIZE * i \<noteq> 0"
    "pg_ofs (base p + PGSIZE * i) = 0" "first_page (base p + PGSIZE * i) = first_page (base p) + unat i"
proof -
  have b: "unat (base p) + 4096 * unat i < 2 ^ 32" using assms by (auto simp: pool_inv_def)
  then have "unat (PGSIZE * i) = 4096 * unat i"
    by (subst unat_mult_lem [THEN iffD1]) (simp_all add: PGSIZE_def)
  then show u: "unat (base p + PGSIZE * i) = unat (base p) + 4096 * unat i"
    using b by (subst unat_add_lem [THEN iffD1]) simp_all
  have "0 < unat (base p)" using assms(1) by (simp add: pool_inv_def unat_gt_0)
  then show "base p + PGSIZE * i \<noteq> 0" using u by (auto simp flip: unat_gt_0)
  have "unat (base p) mod 4096 = 0" using assms(1) by (simp add: pool_inv_def)
  then show "pg_ofs (base p + PGSIZE * i) = 0" "first_page (base p + PGSIZE * i) = first_page (base p) + unat i"
    by (simp_all add: u first_page_def unat_pg_ofs flip: unat_eq_0)
qed

lemma pool_take:
  assumes "pool_inv p" "n \<noteq> 0"
  shows "\<exists>i m. bitmap_scan_and_flip (used_map p) 0 n False = Ok (i, m) \<and> pool_inv (p\<lparr>used_map := m\<rparr>) \<and>
    pool_pages (p\<lparr>used_map := m\<rparr>) = pool_pages p \<and>
    (if i = BITMAP_ERROR then m = used_map p \<and>
       (\<forall>k. {k..<k + unat n} \<subseteq> pool_pages p \<longrightarrow> {k..<k + unat n} \<inter> pool_used p \<noteq> {})
     else unat i < length (bits_of (used_map p)) \<and> page_group (base p + PGSIZE * i) n \<subseteq> pool_pages p \<and>
       page_group (base p + PGSIZE * i) n \<inter> pool_used p = {} \<and>
       pool_used (p\<lparr>used_map := m\<rparr>) = pool_used p \<union> page_group (base p + PGSIZE * i) n)"
proof -
  have inv: "bitmap_inv (used_map p)" using assms(1) by (simp add: pool_inv_def)
  obtain i m where r: "bitmap_scan_and_flip (used_map p) 0 n False = Ok (i, m)"
    using bitmap_scan_and_flip_spec [OF inv, of 0 n False] by auto
  note t = bm.take_group [OF inv r]
  have n: "0 < unat n" using assms(2) by (simp add: unat_gt_0)
  have keep: "pool_inv (p\<lparr>used_map := m\<rparr>)" "pool_pages (p\<lparr>used_map := m\<rparr>) = pool_pages p"
    using t assms(1) by (simp_all add: pool_inv_def pool_pages_def)
  have sh: "{first_page (base p) + x..<first_page (base p) + x + y} = (+) (first_page (base p)) ` {x..<x + y}" for x y
    by (simp add: image_add_atLeastLessThan ac_simps)
  show ?thesis
  proof (cases "i = BITMAP_ERROR")
    case True
    have "{k..<k + unat n} \<inter> pool_used p \<noteq> {}" if sub: "{k..<k + unat n} \<subseteq> pool_pages p" for k
    proof -
      have "k \<in> {k..<k + unat n}" "k + unat n - 1 \<in> {k..<k + unat n}" using n by auto
      with sub have "k \<in> pool_pages p" "k + unat n - 1 \<in> pool_pages p" by blast+
      then obtain j where j: "k = first_page (base p) + j" "j + unat n \<le> length (bits_of (used_map p))"
        using n by (auto simp: pool_pages_def intro: that [of "k - first_page (base p)"])
      with t True have "{j..<j + unat n} \<inter> used_bits (bits_of (used_map p)) \<noteq> {}" by auto
      then show ?thesis unfolding j(1) sh pool_used_def by blast
    qed
    with True r keep t show ?thesis by auto
  next
    case False
    with t n have i: "unat i < length (bits_of (used_map p))" by auto
    have g: "page_group (base p + PGSIZE * i) n = (+) (first_page (base p)) ` {unat i..<unat i + unat n}"
      unfolding page_group_def pool_page_address(4) [OF assms(1) i] sh ..
    have "page_group (base p + PGSIZE * i) n \<subseteq> pool_pages p"
      unfolding g using t False by (auto simp: pool_pages_def)
    moreover have "page_group (base p + PGSIZE * i) n \<inter> pool_used p = {}"
      unfolding g pool_used_def using t False by auto
    moreover have "pool_used (p\<lparr>used_map := m\<rparr>) = pool_used p \<union> page_group (base p + PGSIZE * i) n"
      unfolding g pool_used_def using t False by (simp add: image_Un)
    ultimately show ?thesis using False r keep i by auto
  qed
qed

section \<open>Taking and giving back groups of pages\<close>

definition other_pool :: "u32 \<Rightarrow> pages \<Rightarrow> pool" where
  "other_pool flags s = (if flags AND PAL_USER \<noteq> 0 then kernel_pool s else user_pool s)"

definition no_room :: "pool \<Rightarrow> u32 \<Rightarrow> bool" where
  "no_room p n \<longleftrightarrow> (\<forall>k. {k..<k + unat n} \<subseteq> pool_pages p \<longrightarrow> {k..<k + unat n} \<inter> pool_used p \<noteq> {})"

lemma used_pages_split: "used_pages s = pool_used (the_pool flags s) \<union> pool_used (other_pool flags s)"
  by (auto simp: used_pages_def the_pool_def other_pool_def)

lemma palloc_inv_split:
  "palloc_inv s \<longleftrightarrow> pool_inv (the_pool flags s) \<and> pool_inv (other_pool flags s) \<and>
    pool_pages (the_pool flags s) \<inter> pool_pages (other_pool flags s) = {}"
  by (auto simp: palloc_inv_def the_pool_def other_pool_def)

definition put_pool :: "u32 \<Rightarrow> pool \<Rightarrow> pages \<Rightarrow> pages" where
  "put_pool flags p s = (if flags AND PAL_USER \<noteq> 0 then s\<lparr>user_pool := p\<rparr> else s\<lparr>kernel_pool := p\<rparr>)"

lemma put_pool_simps [simp]:
  "the_pool flags (put_pool flags p s) = p" "other_pool flags (put_pool flags p s) = other_pool flags s"
  "mem (put_pool flags p s) = mem s"
  "the_pool flags (s\<lparr>mem := m\<rparr>) = the_pool flags s" "other_pool flags (s\<lparr>mem := m\<rparr>) = other_pool flags s"
  by (simp_all add: the_pool_def other_pool_def put_pool_def)

lemma palloc_get_cases:
  assumes "palloc_inv s" "n \<noteq> 0"
  shows "(\<exists>a s'. palloc_get_multiple flags n s = Ok (a, s') \<and> palloc_inv s' \<and> a \<noteq> 0 \<and> pg_ofs a = 0 \<and>
      page_group a n \<subseteq> pool_pages (the_pool flags s) \<and> page_group a n \<inter> pool_used (the_pool flags s) = {} \<and>
      pool_pages (the_pool flags s') = pool_pages (the_pool flags s) \<and>
      pool_used (the_pool flags s') = pool_used (the_pool flags s) \<union> page_group a n \<and>
      other_pool flags s' = other_pool flags s \<and>
      mem s' = (if flags AND PAL_ZERO \<noteq> 0 then mem_fill (mem s) a 0 (PGSIZE * n) else mem s)) \<or>
    no_room (the_pool flags s) n \<and>
      palloc_get_multiple flags n s = (if flags AND PAL_ASSERT \<noteq> 0 then Panic else Ok (0, s))"
proof -
  define p where "p = the_pool flags s"
  have p: "pool_inv p" "pool_inv (other_pool flags s)" "pool_pages p \<inter> pool_pages (other_pool flags s) = {}"
    using assms(1) by (simp_all add: p_def palloc_inv_split [of _ flags])
  from pool_take [OF p(1) assms(2)] obtain i m where
    r: "bitmap_scan_and_flip (used_map p) 0 n False = Ok (i, m)"
    and k: "pool_inv (p\<lparr>used_map := m\<rparr>)" "pool_pages (p\<lparr>used_map := m\<rparr>) = pool_pages p"
    and t: "if i = BITMAP_ERROR then m = used_map p \<and> no_room p n
     else unat i < length (bits_of (used_map p)) \<and> page_group (base p + PGSIZE * i) n \<subseteq> pool_pages p \<and>
       page_group (base p + PGSIZE * i) n \<inter> pool_used p = {} \<and>
       pool_used (p\<lparr>used_map := m\<rparr>) = pool_used p \<union> page_group (base p + PGSIZE * i) n"
    unfolding no_room_def by blast
  have step: "palloc_get_multiple flags n s =
    (let pages = (if i \<noteq> BITMAP_ERROR then base p + PGSIZE * i else 0); s' = put_pool flags (p\<lparr>used_map := m\<rparr>) s
     in if pages \<noteq> 0 then Ok (pages, if flags AND PAL_ZERO \<noteq> 0 then s'\<lparr>mem := mem_fill (mem s) pages 0 (PGSIZE * n)\<rparr> else s')
        else if flags AND PAL_ASSERT \<noteq> 0 then Panic else Ok (pages, s'))"
    using assms(2) r by (simp add: palloc_get_multiple_def p_def the_pool_def put_pool_def Let_def)
  show ?thesis
  proof (cases "i = BITMAP_ERROR")
    case True
    then have "put_pool flags (p\<lparr>used_map := m\<rparr>) s = s"
      using t by (simp add: put_pool_def p_def the_pool_def)
    with True t step show ?thesis by (simp add: p_def)
  next
    case False
    note a = pool_page_address [OF p(1)]
    from False t have i: "unat i < length (bits_of (used_map p))" by simp
    define b where "b = base p + PGSIZE * i"
    define s' where "s' = (let s' = put_pool flags (p\<lparr>used_map := m\<rparr>) s
      in if flags AND PAL_ZERO \<noteq> 0 then s'\<lparr>mem := mem_fill (mem s) b 0 (PGSIZE * n)\<rparr> else s')"
    have s': "the_pool flags s' = p\<lparr>used_map := m\<rparr>" "other_pool flags s' = other_pool flags s"
      "mem s' = (if flags AND PAL_ZERO \<noteq> 0 then mem_fill (mem s) b 0 (PGSIZE * n) else mem s)"
      by (simp_all add: s'_def Let_def)
    from False a(2) [OF i] have "palloc_get_multiple flags n s = Ok (b, s')"
      by (simp add: step s'_def b_def Let_def)
    with False t k p a [OF i] s' show ?thesis
      by (simp add: b_def [symmetric] p_def [symmetric] palloc_inv_split [of s' flags])
  qed
qed

lemma release_pages_ok:
  assumes "pool_inv p" "n \<noteq> 0" "pg_ofs a = 0" "page_group a n \<subseteq> pool_used p"
  shows "\<exists>p'. release_pages p a n = Ok p' \<and> pool_inv p' \<and> pool_pages p' = pool_pages p \<and>
    pool_used p' = pool_used p - page_group a n"
proof -
  define j where "j = unat (pg_no a - pg_no (base p))"
  have inv: "bitmap_inv (used_map p)" using assms(1) by (simp add: pool_inv_def)
  have n: "0 < unat n" using assms(2) by (simp add: unat_gt_0)
  have "first_page a \<in> page_group a n" "first_page a + unat n - 1 \<in> page_group a n" using n by (auto simp: page_group_def)
  with assms(4) pool_used_subset have e: "first_page a \<in> pool_pages p" "first_page a + unat n - 1 \<in> pool_pages p" by blast+
  then have "pg_no (base p) \<le> pg_no a" by (simp add: word_le_nat_alt unat_pg_no pool_pages_def first_page_def)
  then have j: "j = first_page a - first_page (base p)" by (simp add: j_def unat_sub unat_pg_no first_page_def)
  with e n have f: "first_page a = first_page (base p) + j" "j + unat n \<le> length (bits_of (used_map p))"
    by (auto simp: pool_pages_def)
  have g: "page_group a n = (+) (first_page (base p)) ` {j..<j + unat n}"
    unfolding page_group_def f(1) by (simp add: image_add_atLeastLessThan ac_simps)
  then have "{j..<j + unat n} \<subseteq> used_bits (bits_of (used_map p))"
    using assms(4) unfolding pool_used_def by (simp only: inj_image_subset_iff [OF inj_on_add])
  with bm.all_used [OF inv, of "pg_no a - pg_no (base p)" n] f(2)
  have all: "bitmap_all (used_map p) (pg_no a - pg_no (base p)) n = Ok True" by (simp add: j_def)
  from bm.give_group [OF inv, of "pg_no a - pg_no (base p)" n] f(2) obtain m where
    m: "bitmap_set_multiple (used_map p) (pg_no a - pg_no (base p)) n False = Ok m" "bitmap_inv m"
      "length (bits_of m) = length (bits_of (used_map p))"
      "used_bits (bits_of m) = used_bits (bits_of (used_map p)) - {j..<j + unat n}" by (auto simp: j_def)
  have "pool_used (p\<lparr>used_map := m\<rparr>) = pool_used p - page_group a n"
    unfolding g pool_used_def by (simp add: m(4) image_set_diff [OF inj_on_add])
  with all m assms(1) show ?thesis
    by (simp add: release_pages_def Let_def pool_inv_def pool_pages_def)
qed

lemma page_from_pool_iff:
  assumes "pool_inv p"
  shows "page_from_pool p a \<longleftrightarrow> first_page a \<in> pool_pages p"
proof -
  have "unat (pg_no (base p) + bitmap_size (used_map p)) = first_page (base p) + length (bits_of (used_map p))"
    using assms by (subst unat_add_lem [THEN iffD1]) (auto simp: bitmap_size_def unat_pg_no first_page_def pool_inv_def)
  then show ?thesis
    by (simp add: page_from_pool_def Let_def word_le_nat_alt word_less_nat_alt unat_pg_no pool_pages_def first_page_def)
qed

lemma palloc_free_ok:
  assumes "palloc_inv s" "n \<noteq> 0" "a \<noteq> 0" "pg_ofs a = 0" "page_group a n \<subseteq> pool_used (the_pool flags s)"
  shows "\<exists>s'. palloc_free_multiple a n s = Ok s' \<and> palloc_inv s' \<and>
    pool_pages (the_pool flags s') = pool_pages (the_pool flags s) \<and>
    pool_used (the_pool flags s') = pool_used (the_pool flags s) - page_group a n \<and>
    other_pool flags s' = other_pool flags s \<and> mem s' = mem_fill (mem s) a 0xCC (PGSIZE * n)"
proof -
  define p where "p = the_pool flags s"
  have p: "pool_inv p" "pool_inv (other_pool flags s)" "pool_pages p \<inter> pool_pages (other_pool flags s) = {}"
    using assms(1) by (simp_all add: p_def palloc_inv_split [of _ flags])
  obtain p' where p': "release_pages p a n = Ok p'" "pool_inv p'" "pool_pages p' = pool_pages p"
    "pool_used p' = pool_used p - page_group a n"
    using release_pages_ok [OF p(1) assms(2,4) assms(5) [folded p_def]] by blast
  have "first_page a \<in> page_group a n" using assms(2) by (simp add: page_group_def unat_gt_0)
  with assms(5) pool_used_subset have "first_page a \<in> pool_pages p" unfolding p_def by blast
  with p have "page_from_pool p a" "\<not> page_from_pool (other_pool flags s) a" by (auto simp: page_from_pool_iff)
  then have "palloc_free_multiple a n s =
      Ok (put_pool flags p' (s\<lparr>mem := mem_fill (mem s) a 0xCC (PGSIZE * n)\<rparr>))"
    using assms(2-4) p'(1)
    by (auto simp: palloc_free_multiple_def Let_def p_def the_pool_def other_pool_def put_pool_def split: if_splits)
  then show ?thesis using p p' by (simp add: palloc_inv_split [of _ flags] p_def)
qed

section \<open>The pools at the start\<close>

lemma unat_elem_cnt: "unat n + 31 < 2 ^ 32 \<Longrightarrow> unat (Bitmap.elem_cnt n) = (unat n + 31) div 32"
proof -
  assume "unat n + 31 < 2 ^ 32"
  then have "unat (n + 31) = unat n + 31" by (subst unat_add_lem [THEN iffD1]) simp_all
  moreover have "Bitmap.elem_cnt n = (n + 31) div 32" by (simp add: elem_cnt_def ELEM_BITS_def add.commute)
  ultimately show ?thesis by (simp add: unat_div)
qed

lemma unat_bitmap_buf_size:
  assumes "unat n \<le> 2 ^ 20"
  shows "unat (bitmap_buf_size n) = 8 + 4 * ((unat n + 31) div 32)"
proof -
  have e: "unat (Bitmap.elem_cnt n) = (unat n + 31) div 32" using assms by (intro unat_elem_cnt) simp
  then have "unat (byte_cnt n) = 4 * ((unat n + 31) div 32)"
    using assms unfolding byte_cnt_def by (subst unat_mult_lem [THEN iffD1]) auto
  then show ?thesis using assms unfolding bitmap_buf_size_def by (subst unat_add_lem [THEN iffD1]) auto
qed

lemma unat_bm_pages:
  assumes "unat n \<le> 2 ^ 20"
  shows "unat (DIV_ROUND_UP (bitmap_buf_size n) PGSIZE) = (8 + 4 * ((unat n + 31) div 32) + 4095) div 4096"
proof -
  have "unat (bitmap_buf_size n + 4095) = unat (bitmap_buf_size n) + 4095"
    using assms by (subst unat_add_lem [THEN iffD1]) (auto simp: unat_bitmap_buf_size)
  moreover have "DIV_ROUND_UP (bitmap_buf_size n) PGSIZE = (bitmap_buf_size n + 4095) div 4096"
    by (simp add: DIV_ROUND_UP_def PGSIZE_def add.commute)
  ultimately show ?thesis using assms by (simp add: unat_div unat_bitmap_buf_size)
qed

lemma bitmap_create_in_buf_ok:
  assumes "unat n + 31 < 2 ^ 32" "bitmap_buf_size n \<le> sz" "length storage = (unat n + 31) div 32"
  shows "\<exists>m. bitmap_create_in_buf n storage sz = Ok m \<and> bitmap_inv m \<and> bm_bit_cnt m = n \<and> used_bits (bits_of m) = {}"
proof -
  let ?b = "\<lparr>bm_bit_cnt = n, bm_bits = storage\<rparr>"
  have inv: "bitmap_inv ?b" using assms by (simp add: bitmap_inv_def)
  from bm.give_group [OF inv, of 0 n] obtain m where
    m: "bitmap_set_multiple ?b 0 n False = Ok m" "bitmap_inv m" "length (bits_of m) = length (bits_of ?b)"
      "used_bits (bits_of m) = used_bits (bits_of ?b) - {0..<unat n}" by auto
  moreover have "used_bits (bits_of ?b) \<subseteq> {0..<unat n}" by (auto simp: used_bits_def)
  ultimately have "used_bits (bits_of m) = {}" "bm_bit_cnt m = n" by (auto simp: word_unat_eq_iff)
  with m assms(2) show ?thesis by (simp add: bitmap_create_in_buf_def bitmap_set_all_def bitmap_size_def)
qed

lemma init_pool_ok:
  assumes "unat start mod 4096 = 0" "start \<noteq> 0" "2 \<le> unat n" "unat n \<le> 2 ^ 20"
    "unat start + 4096 * unat n \<le> 2 ^ 32" "(unat n + 31) div 32 \<le> length storage"
  shows "\<exists>p. init_pool start n storage = Ok p \<and> pool_inv p \<and> pool_used p = {} \<and>
    pool_pages p \<subseteq> {first_page start..<first_page start + unat n}"
proof -
  define b where "b = DIV_ROUND_UP (bitmap_buf_size n) PGSIZE"
  have b: "unat b = (8 + 4 * ((unat n + 31) div 32) + 4095) div 4096"
    unfolding b_def by (rule unat_bm_pages [OF assms(4)])
  define q where "q = (unat n + 31) div 32"
  have q: "32 * q \<le> unat n + 31" unfolding q_def by simp
  have bq: "4096 * unat b \<le> 4103 + 4 * q" "8 + 4 * q \<le> 4096 * unat b"
    unfolding b q_def [symmetric] using div_mult_mod_eq [of "8 + 4 * q + 4095" 4096] mod_less_divisor [of 4096 "8 + 4 * q + 4095"]
    by linarith+
  have bn: "unat b < unat n" using bq(1) q assms(3) by linarith
  then have le: "b \<le> n" "unat (n - b) = unat n - unat b" by (simp_all add: word_le_nat_alt unat_sub)
  have bp: "unat (b * PGSIZE) = 4096 * unat b"
    using bn assms(5) by (subst unat_mult_lem [THEN iffD1]) (simp_all add: PGSIZE_def)
  define sz where "sz = bitmap_buf_size (n - b)"
  have "unat sz = 8 + 4 * ((unat n - unat b + 31) div 32)"
    unfolding sz_def using assms(4) le by (subst unat_bitmap_buf_size) auto
  moreover have "8 + 4 * ((unat n - unat b + 31) div 32) \<le> 8 + 4 * ((unat n + 31) div 32)"
    by (simp add: div_le_mono)
  ultimately have "unat sz \<le> 4096 * unat b" using bq(2) q_def by linarith
  then have "bitmap_buf_size (n - b) \<le> b * PGSIZE" by (simp add: word_le_nat_alt bp sz_def)
  moreover have e: "unat (Bitmap.elem_cnt (n - b)) = (unat (n - b) + 31) div 32"
    using assms(4) le by (intro unat_elem_cnt) simp
  moreover have "unat (n - b) + 31 < 2 ^ 32" using assms(4) le by simp
  moreover have "(unat (n - b) + 31) div 32 \<le> length storage"
    using assms(6) le by (simp add: order_trans [OF div_le_mono])
  ultimately obtain m where m:
      "bitmap_create_in_buf (n - b) (take (unat (Bitmap.elem_cnt (n - b))) storage) (b * PGSIZE) = Ok m"
      "bitmap_inv m" "bm_bit_cnt m = n - b" "used_bits (bits_of m) = {}"
    using bitmap_create_in_buf_ok [of "n - b" "b * PGSIZE" "take (unat (Bitmap.elem_cnt (n - b))) storage"]
    by auto
  have s: "unat (start + b * PGSIZE) = unat start + 4096 * unat b"
    using bn assms(5) bp by (subst unat_add_lem [THEN iffD1]) simp_all
  define p where "p = \<lparr>used_map = m, base = start + b * PGSIZE\<rparr>"
  have "init_pool start n storage = Ok p"
    using m(1) le by (simp add: init_pool_def Let_def p_def not_less [symmetric] flip: b_def)
  moreover have "start + b * PGSIZE \<noteq> 0" using s assms(2) by (metis unat_0 add_eq_0_iff_both_eq_0 unat_eq_0)
  then have "pool_inv p" using m assms(1,5) le bn s by (simp add: pool_inv_def p_def)
  moreover have "pool_used p = {}" by (simp add: pool_used_def p_def m(4))
  moreover have "pool_pages p \<subseteq> {first_page start..<first_page start + unat n}"
    using m(3) le s bn by (auto simp: pool_pages_def p_def first_page_def)
  ultimately show ?thesis by blast
qed

text \<open>
  \<open>palloc_init\<close> makes two well-formed, disjoint pools with no page in use, for every memory of 260 pages
  up to the 1 GB that the kernel maps and every limit of at least two user pages, whatever the memory holds.
\<close>

lemma palloc_init_ok:
  assumes "260 \<le> unat ram" "unat ram \<le> 2 ^ 18" "2 \<le> unat limit" "\<forall>a. 2 ^ 15 \<le> length (storage a)"
  shows "\<exists>s. palloc_init ram limit storage m = Ok s \<and> palloc_inv s \<and> used_pages s = {} \<and> mem s = m"
proof -
  define u where "u = (let u = (ram - 256) div 2 in if u > limit then limit else u)"
  define k where "k = ram - 256 - u"
  have f: "unat (ram - 256) = unat ram - 256" using assms(1) by (subst unat_sub) (auto simp: word_le_nat_alt)
  have h: "unat ((ram - 256) div 2) = (unat ram - 256) div 2" by (simp add: unat_div f)
  have u: "2 \<le> unat u" "unat u \<le> (unat ram - 256) div 2"
    using assms(1,3) h by (auto simp: u_def Let_def word_less_nat_alt)
  have k: "unat k = unat ram - 256 - unat u"
    unfolding k_def using u f by (subst unat_sub) (auto simp: word_le_nat_alt)
  have rp: "unat (ram * PGSIZE) = unat ram * 4096"
    using assms(2) by (subst unat_mult_lem [THEN iffD1]) (simp_all add: PGSIZE_def)
  then have ok: "ram * PGSIZE < PHYS_BASE" using assms(2) by (simp add: word_less_nat_alt PHYS_BASE_def)
  have "ram * PGSIZE + PHYS_BASE - (1024 * 1024 + PHYS_BASE) = (ram - 256) * PGSIZE"
    by (simp add: PGSIZE_def left_diff_distrib)
  moreover have "unat ((ram - 256) * PGSIZE) = unat (ram - 256) * 4096"
    using assms(2) f by (subst unat_mult_lem [THEN iffD1]) (simp_all add: PGSIZE_def)
  ultimately have "unat ((ram * PGSIZE + PHYS_BASE - (1024 * 1024 + PHYS_BASE)) div PGSIZE) = unat (ram - 256)"
    by (simp add: unat_div PGSIZE_def)
  then have free: "(ram * PGSIZE + PHYS_BASE - (1024 * 1024 + PHYS_BASE)) div PGSIZE = ram - 256"
    by (simp only: word_unat_eq_iff)
  define fs :: u32 where "fs = 1024 * 1024 + PHYS_BASE"
  define us where "us = fs + k * PGSIZE"
  have room: "(x + 31) div 32 \<le> 2 ^ 15" if "x \<le> unat ram" for x
    using that assms(2) by (intro div_le_mono [of _ "2 ^ 20" 32, simplified, THEN order_trans]) simp_all
  have fs: "unat fs = 3222274048" by (simp add: fs_def PHYS_BASE_def)
  have kp: "unat (k * PGSIZE) = unat k * 4096"
    using assms(2) k by (subst unat_mult_lem [THEN iffD1]) (simp_all add: PGSIZE_def)
  then have us: "unat us = 3222274048 + 4096 * unat k"
    unfolding us_def using assms(2) k u fs by (subst unat_add_lem [THEN iffD1]) simp_all
  have "\<exists>p. init_pool fs k (storage fs) = Ok p \<and> pool_inv p \<and> pool_used p = {} \<and>
      pool_pages p \<subseteq> {first_page fs..<first_page fs + unat k}"
  proof (rule init_pool_ok)
    show "unat fs mod 4096 = 0" "fs \<noteq> 0" using fs by auto
    show "2 \<le> unat k" "unat k \<le> 2 ^ 20" "unat fs + 4096 * unat k \<le> 2 ^ 32"
      unfolding fs k using assms(1,2) u by simp_all
    show "(unat k + 31) div 32 \<le> length (storage fs)"
      using order_trans [OF room [of "unat k"]] assms(4) k by simp
  qed
  then obtain kp' where kp': "init_pool fs k (storage fs) = Ok kp'" "pool_inv kp'" "pool_used kp' = {}"
      "pool_pages kp' \<subseteq> {first_page fs..<first_page fs + unat k}" by blast
  have "\<exists>p. init_pool us u (storage us) = Ok p \<and> pool_inv p \<and> pool_used p = {} \<and>
      pool_pages p \<subseteq> {first_page us..<first_page us + unat u}"
  proof (rule init_pool_ok)
    show "unat us mod 4096 = 0" "us \<noteq> 0" using us by auto
    show "2 \<le> unat u" "unat u \<le> 2 ^ 20" "unat us + 4096 * unat u \<le> 2 ^ 32"
      unfolding us k using assms(1,2) u by simp_all
    show "(unat u + 31) div 32 \<le> length (storage us)"
      using order_trans [OF room [of "unat u"]] assms(4) u by simp
  qed
  then obtain up' where up': "init_pool us u (storage us) = Ok up'" "pool_inv up'" "pool_used up' = {}"
      "pool_pages up' \<subseteq> {first_page us..<first_page us + unat u}" by blast
  have "first_page us = first_page fs + unat k" by (simp add: first_page_def us fs)
  then have "pool_pages kp' \<inter> pool_pages up' = {}" using kp'(4) up'(4) by fastforce
  moreover have "palloc_init ram limit storage m = Ok \<lparr>kernel_pool = kp', user_pool = up', mem = m\<rparr>"
    using ok free kp'(1) up'(1)
    by (simp add: palloc_init_def ptov_def Let_def PHYS_BASE_def fs_def us_def k_def u_def split: if_splits)
  ultimately show ?thesis using kp' up' by (simp add: palloc_inv_def used_pages_def)
qed

section \<open>The properties\<close>

text \<open>
  C37: The page allocator hands out every page to one owner at a time.  From well-formed pools a request for
  \<open>n > 0\<close> pages returns a page-aligned group of \<open>n\<close> pages of the pool the flags name, none of which is in use
  in either pool, and exactly these become in use; or the pool has no such group, nothing changes, and the result
  is null or, with \<open>PAL_ASSERT\<close>, a panic.  Only the bytes of the group are cleared, and only with \<open>PAL_ZERO\<close>.
  Giving such a group back makes exactly its pages free again.
\<close>

theorem palloc_one_owner:
  assumes "palloc_inv s" "n \<noteq> 0"
  shows "((\<exists>a s'. palloc_get_multiple flags n s = Ok (a, s') \<and> palloc_inv s' \<and> a \<noteq> 0 \<and> pg_ofs a = 0 \<and>
        page_group a n \<subseteq> pool_pages (the_pool flags s) \<and> page_group a n \<inter> used_pages s = {} \<and>
        used_pages s' = used_pages s \<union> page_group a n \<and>
        mem s' = (if flags AND PAL_ZERO \<noteq> 0 then mem_fill (mem s) a 0 (PGSIZE * n) else mem s) \<and>
        (\<exists>s''. palloc_free_multiple a n s' = Ok s'' \<and> palloc_inv s'' \<and> used_pages s'' = used_pages s)) \<or>
      no_room (the_pool flags s) n \<and>
        palloc_get_multiple flags n s = (if flags AND PAL_ASSERT \<noteq> 0 then Panic else Ok (0, s)))"
  using palloc_get_cases [OF assms, of flags]
proof (elim disjE exE conjE, goal_cases)
  case (1 a s')
  have d: "pool_used (other_pool flags s) \<inter> page_group a n = {}"
    using 1 pool_used_subset [of "other_pool flags s"] assms(1) by (auto simp: palloc_inv_split [of s flags])
  obtain s'' where "palloc_free_multiple a n s' = Ok s''" "palloc_inv s''"
      "pool_used (the_pool flags s'') = pool_used (the_pool flags s') - page_group a n"
      "other_pool flags s'' = other_pool flags s'"
    using palloc_free_ok [OF 1(2) assms(2) 1(3,4), of flags] 1 by auto
  with 1 d show ?case by (intro disjI1) (auto simp: used_pages_split [of _ flags])
qed blast

definition small_pages :: pages where
  "small_pages = \<lparr>kernel_pool = \<lparr>used_map = \<lparr>bm_bit_cnt = 8, bm_bits = [0x2B]\<rparr>, base = 0xC0101000\<rparr>,
    user_pool = \<lparr>used_map = \<lparr>bm_bit_cnt = 4, bm_bits = [1]\<rparr>, base = 0xC0200000\<rparr>, mem = (\<lambda>_. 7)\<rparr>"

lemma small_pages_inv: "palloc_inv small_pages"
  by (auto simp: small_pages_def palloc_inv_def pool_inv_def bitmap_inv_def pool_pages_def first_page_def)

theorem palloc_one_owner_witness:
  "\<exists>s'. palloc_get_multiple PAL_ZERO 2 small_pages = Ok (0xC0107000, s') \<and>
    used_pages s' = used_pages small_pages \<union> {0xC0107, 0xC0108} \<and> palloc_inv s'"
proof -
  have run: "bitmap_scan_and_flip \<lparr>bm_bit_cnt = 8, bm_bits = [0x2B]\<rparr> 0 2 False = Ok (6, \<lparr>bm_bit_cnt = 8, bm_bits = [0xEB]\<rparr>)"
    by code_simp
  obtain s' where s': "palloc_get_multiple PAL_ZERO 2 small_pages = Ok (0xC0107000, s')"
    by (simp add: palloc_get_multiple_def small_pages_def PAL_ZERO_def PAL_USER_def run BITMAP_ERROR_def PGSIZE_def)
  have "page_group 0xC0107000 2 = {0xC0107, 0xC0108}" by (auto simp: page_group_def first_page_def)
  with palloc_one_owner [OF small_pages_inv, of 2 PAL_ZERO] s' show ?thesis by (auto simp: PAL_ASSERT_def PAL_ZERO_def)
qed

end
