(* ===== verification/Malloc.thy ===== *)
theory Malloc
  imports Palloc
begin

text \<open>
  The kernel's memory allocator, \<open>threads/malloc.c\<close>: descriptors of block sizes, arenas of one page cut into
  blocks of one size, and big blocks of whole pages.  An arena's header is an entry of a map from addresses, and
  the free list of a descriptor is the sequence of its blocks; the links of these lists, which lie in the free
  blocks, are not part of the memory contents.  Each operation is the section that runs under the descriptor's lock.
\<close>

section \<open>The data\<close>

record desc =
  block_size :: u32
  blocks_per_arena :: u32
  free_list :: "u32 list"

record arena =
  magic :: u32
  desc :: "nat option"
  free_cnt :: u32

record heap =
  pg :: pages
  arenas :: "u32 \<rightharpoonup> arena"
  descs :: "desc list"

definition ARENA_MAGIC :: u32 where "ARENA_MAGIC = 0x9a548eed"
definition SIZEOF_ARENA :: u32 where "SIZEOF_ARENA = 12"
definition DESC_MAX :: nat where "DESC_MAX = 10"

section \<open>The operations\<close>

text \<open>The loop of \<open>malloc_init\<close>; 32 rounds are enough to double a 32-bit number until it is zero.\<close>

fun malloc_init_loop :: "nat \<Rightarrow> u32 \<Rightarrow> desc list \<Rightarrow> desc list outcome" where
  "malloc_init_loop 0 bs ds = Hang"
| "malloc_init_loop (Suc fuel) bs ds =
    (if bs < PGSIZE div 2 then
       assert (Suc (length ds) \<le> DESC_MAX)
       (malloc_init_loop fuel (bs * 2)
         (ds @ [\<lparr>block_size = bs, blocks_per_arena = (PGSIZE - SIZEOF_ARENA) div bs, free_list = []\<rparr>]))
     else Ok ds)"

definition malloc_init :: "pages \<Rightarrow> heap outcome" where
  "malloc_init p = bind (malloc_init_loop 33 16 []) (\<lambda>ds. Ok \<lparr>pg = p, arenas = (\<lambda>_. None), descs = ds\<rparr>)"

definition upd_desc :: "nat \<Rightarrow> (desc \<Rightarrow> desc) \<Rightarrow> heap \<Rightarrow> heap" where
  "upd_desc d f h = h\<lparr>descs := (descs h)[d := f (descs h ! d)]\<rparr>"

definition upd_arena :: "u32 \<Rightarrow> (arena \<Rightarrow> arena) \<Rightarrow> heap \<Rightarrow> heap" where
  "upd_arena a f h = h\<lparr>arenas := (arenas h)(a := map_option f (arenas h a))\<rparr>"

definition block_to_arena :: "heap \<Rightarrow> u32 \<Rightarrow> (u32 \<times> arena) outcome" where
  "block_to_arena h b =
    (let a = pg_round_down b
     in assert (a \<noteq> 0)
        (case arenas h a of
           None \<Rightarrow> Panic
         | Some ar \<Rightarrow>
             assert (magic ar = ARENA_MAGIC)
             (assert (case desc ar of None \<Rightarrow> True | Some d \<Rightarrow> (pg_ofs b - SIZEOF_ARENA) mod block_size (descs h ! d) = 0)
             (assert (desc ar \<noteq> None \<or> pg_ofs b = SIZEOF_ARENA)
             (Ok (a, ar))))))"

definition arena_to_block :: "heap \<Rightarrow> u32 \<Rightarrow> u32 \<Rightarrow> u32 outcome" where
  "arena_to_block h a idx =
    assert (a \<noteq> 0)
    (case arenas h a of
       None \<Rightarrow> Panic
     | Some ar \<Rightarrow>
         assert (magic ar = ARENA_MAGIC)
         (case desc ar of
            None \<Rightarrow> Panic
          | Some d \<Rightarrow>
              assert (idx < blocks_per_arena (descs h ! d))
              (Ok (a + SIZEOF_ARENA + idx * block_size (descs h ! d)))))"

text \<open>The loops over the blocks of an arena: adding them to the free list, and taking them out.\<close>

primrec push_blocks :: "nat \<Rightarrow> nat \<Rightarrow> u32 \<Rightarrow> nat \<Rightarrow> heap \<Rightarrow> heap outcome" where
  "push_blocks 0 i a d h = Ok h"
| "push_blocks (Suc n) i a d h =
    bind (arena_to_block h a (of_nat i)) (\<lambda>b.
    push_blocks n (Suc i) a d (upd_desc d (\<lambda>x. x\<lparr>free_list := free_list x @ [b]\<rparr>) h))"

primrec remove_blocks :: "nat \<Rightarrow> nat \<Rightarrow> u32 \<Rightarrow> nat \<Rightarrow> heap \<Rightarrow> heap outcome" where
  "remove_blocks 0 i a d h = Ok h"
| "remove_blocks (Suc n) i a d h =
    bind (arena_to_block h a (of_nat i)) (\<lambda>b.
    remove_blocks n (Suc i) a d (upd_desc d (\<lambda>x. x\<lparr>free_list := remove1 b (free_list x)\<rparr>) h))"

fun find_desc :: "desc list \<Rightarrow> u32 \<Rightarrow> nat" where
  "find_desc [] size' = 0"
| "find_desc (d # ds) size' = (if block_size d \<ge> size' then 0 else Suc (find_desc ds size'))"

text \<open>A block of whole pages, for a size no descriptor has.\<close>

definition malloc_big :: "u32 \<Rightarrow> heap \<Rightarrow> (u32 \<times> heap) outcome" where
  "malloc_big size' h =
    (let page_cnt = DIV_ROUND_UP (size' + SIZEOF_ARENA) PGSIZE
     in bind (palloc_get_multiple 0 page_cnt (pg h)) (\<lambda>(a, p).
        let h = h\<lparr>pg := p\<rparr>
        in if a = 0 then Ok (0, h)
           else Ok (a + SIZEOF_ARENA,
             h\<lparr>arenas := (arenas h)(a \<mapsto> \<lparr>magic = ARENA_MAGIC, desc = None, free_cnt = page_cnt\<rparr>)\<rparr>)))"

text \<open>A new arena for descriptor \<open>d\<close>; False when no page is left.\<close>

definition new_arena :: "nat \<Rightarrow> heap \<Rightarrow> (bool \<times> heap) outcome" where
  "new_arena d h =
    bind (palloc_get_page 0 (pg h)) (\<lambda>(a, p).
    let h = h\<lparr>pg := p\<rparr>;
        n = blocks_per_arena (descs h ! d)
    in if a = 0 then Ok (False, h)
       else
         let h = h\<lparr>arenas := (arenas h)(a \<mapsto> \<lparr>magic = ARENA_MAGIC, desc = Some d, free_cnt = n\<rparr>)\<rparr>
         in bind (push_blocks (unat n) 0 a d h) (\<lambda>h. Ok (True, h)))"

definition take_block :: "nat \<Rightarrow> heap \<Rightarrow> (u32 \<times> heap) outcome" where
  "take_block d h =
    (case free_list (descs h ! d) of
       [] \<Rightarrow> Panic
     | b # bs \<Rightarrow>
         let h = upd_desc d (\<lambda>x. x\<lparr>free_list := bs\<rparr>) h
         in bind (block_to_arena h b) (\<lambda>(a, _).
            Ok (b, upd_arena a (\<lambda>x. x\<lparr>free_cnt := free_cnt x - 1\<rparr>) h)))"

definition malloc :: "u32 \<Rightarrow> heap \<Rightarrow> (u32 \<times> heap) outcome" where
  "malloc size' h =
    (if size' = 0 then Ok (0, h)
     else
       let d = find_desc (descs h) size'
       in if d = length (descs h) then malloc_big size' h
          else
            bind (if free_list (descs h ! d) = [] then new_arena d h else Ok (True, h)) (\<lambda>(ok, h).
            if \<not> ok then Ok (0, h) else take_block d h))"

definition calloc :: "u32 \<Rightarrow> u32 \<Rightarrow> heap \<Rightarrow> (u32 \<times> heap) outcome" where
  "calloc a b h =
    (let size' = a * b
     in if size' < a \<or> size' < b then Ok (0, h)
        else
          bind (malloc size' h) (\<lambda>(p, h).
          if p \<noteq> 0 then Ok (p, h\<lparr>pg := (pg h)\<lparr>mem := mem_fill (mem (pg h)) p 0 size'\<rparr>\<rparr>) else Ok (p, h)))"

definition free :: "u32 \<Rightarrow> heap \<Rightarrow> heap outcome" where
  "free p h =
    (if p = 0 then Ok h
     else
       bind (block_to_arena h p) (\<lambda>(a, ar).
       case desc ar of
         Some d \<Rightarrow>
           let x = descs h ! d;
               h = h\<lparr>pg := (pg h)\<lparr>mem := mem_fill (mem (pg h)) p 0xCC (block_size x)\<rparr>\<rparr>;
               h = upd_desc d (\<lambda>x. x\<lparr>free_list := p # free_list x\<rparr>) h;
               n = free_cnt ar + 1;
               h = upd_arena a (\<lambda>x. x\<lparr>free_cnt := n\<rparr>) h
           in if n \<ge> blocks_per_arena x then
                assert (n = blocks_per_arena x)
                (bind (remove_blocks (unat (blocks_per_arena x)) 0 a d h) (\<lambda>h.
                 bind (palloc_free_page a (pg h)) (\<lambda>p. Ok (h\<lparr>pg := p, arenas := (arenas h)(a := None)\<rparr>))))
              else Ok h
       | None \<Rightarrow>
           bind (palloc_free_multiple a (free_cnt ar) (pg h)) (\<lambda>p.
           Ok (h\<lparr>pg := p, arenas := (arenas h)(a := None)\<rparr>))))"

definition block_len :: "heap \<Rightarrow> u32 \<Rightarrow> u32 outcome" where
  "block_len h b =
    bind (block_to_arena h b) (\<lambda>(a, ar).
    Ok (case desc ar of Some d \<Rightarrow> block_size (descs h ! d) | None \<Rightarrow> PGSIZE * free_cnt ar - pg_ofs b))"

text \<open>\<open>memcpy\<close> between blocks, which do not overlap.\<close>

definition mem_copy :: "(u32 \<Rightarrow> u8) \<Rightarrow> u32 \<Rightarrow> u32 \<Rightarrow> u32 \<Rightarrow> (u32 \<Rightarrow> u8)" where
  "mem_copy m dst src n = (\<lambda>x. if x - dst < n then m (src + (x - dst)) else m x)"

definition realloc :: "u32 \<Rightarrow> u32 \<Rightarrow> heap \<Rightarrow> (u32 \<times> heap) outcome" where
  "realloc old_block new_size h =
    (if new_size = 0 then bind (free old_block h) (\<lambda>h. Ok (0, h))
     else
       bind (malloc new_size h) (\<lambda>(new_block, h).
       if old_block \<noteq> 0 \<and> new_block \<noteq> 0 then
         bind (block_len h old_block) (\<lambda>old_size.
         let min_size = (if new_size < old_size then new_size else old_size);
             h = h\<lparr>pg := (pg h)\<lparr>mem := mem_copy (mem (pg h)) new_block old_block min_size\<rparr>\<rparr>
         in bind (free old_block h) (\<lambda>h. Ok (new_block, h)))
       else Ok (new_block, h)))"

section \<open>The places of blocks\<close>

lemma unat_pg_round_down: "unat (pg_round_down v) = 4096 * (unat v div 4096)"
proof -
  have "pg_round_down v + pg_ofs v = v"
    unfolding pg_round_down_def pg_ofs_def pg_mask
    by (subst disjunctive_add_eq_or) (auto simp: bit_eq_iff bit_simps)
  then have "pg_round_down v = v - pg_ofs v" by (simp add: eq_diff_eq)
  moreover have "pg_ofs v \<le> v" unfolding pg_ofs_def by (rule word_and_le2)
  ultimately have "unat (pg_round_down v) = unat v - unat v mod 4096" by (simp add: unat_sub unat_pg_ofs)
  then show ?thesis by (simp add: minus_mod_eq_mult_div)
qed

definition blk :: "desc \<Rightarrow> u32 \<Rightarrow> nat \<Rightarrow> u32" where
  "blk x a i = a + SIZEOF_ARENA + of_nat i * block_size x"

definition desc_ok :: "desc \<Rightarrow> bool" where
  "desc_ok x \<longleftrightarrow> 0 < unat (block_size x) \<and> 0 < unat (blocks_per_arena x) \<and>
    12 + unat (blocks_per_arena x) * unat (block_size x) \<le> 4096"

lemma page_aligned: "pg_ofs a = 0 \<Longrightarrow> \<exists>k. unat a = 4096 * k"
proof -
  assume "pg_ofs a = 0"
  then have "unat a mod 4096 = 0" by (simp flip: unat_pg_ofs)
  then show ?thesis by auto
qed

lemma page_room: "pg_ofs a = 0 \<Longrightarrow> unat a + 4096 \<le> 2 ^ 32"
proof -
  assume "pg_ofs a = 0"
  then obtain k where k: "unat a = 4096 * k" using page_aligned by blast
  moreover have "unat a < 2 ^ 32" using unsigned_less [of a] by simp
  ultimately show ?thesis by simp
qed

lemma blk_place:
  assumes "pg_ofs a = 0" "desc_ok x" "i < unat (blocks_per_arena x)"
  shows "unat (blk x a i) = unat a + 12 + i * unat (block_size x)"
    "12 + i * unat (block_size x) + unat (block_size x) \<le> 4096"
    "pg_round_down (blk x a i) = a" "unat (pg_ofs (blk x a i)) = 12 + i * unat (block_size x)"
proof -
  have "(i + 1) * unat (block_size x) \<le> unat (blocks_per_arena x) * unat (block_size x)"
    using assms(3) by (intro mult_le_mono1) simp
  then show b: "12 + i * unat (block_size x) + unat (block_size x) \<le> 4096"
    using assms(2) by (simp add: desc_ok_def)
  have s: "0 < unat (block_size x)" using assms(2) by (simp add: desc_ok_def)
  have i: "unat (of_nat i :: u32) = i"
    using assms(3) unsigned_less [of "blocks_per_arena x", where ?'a = nat] by (simp add: unat_of_nat)
  have m: "unat (of_nat i * block_size x) = i * unat (block_size x)"
    using b by (subst unat_mult_lem [THEN iffD1]) (simp_all add: i)
  have "unat (a + SIZEOF_ARENA) = unat a + 12"
    using page_room [OF assms(1)] by (subst unat_add_lem [THEN iffD1]) (simp_all add: SIZEOF_ARENA_def)
  then show u: "unat (blk x a i) = unat a + 12 + i * unat (block_size x)"
    unfolding blk_def using page_room [OF assms(1)] b s m by (subst unat_add_lem [THEN iffD1]) simp_all
  obtain k where k: "unat a = 4096 * k" using page_aligned [OF assms(1)] by blast
  have "(4096 * k + (12 + i * unat (block_size x))) div 4096 = k" using b s by (subst div_mult_self4) simp_all
  then show "pg_round_down (blk x a i) = a" by (simp add: word_unat_eq_iff unat_pg_round_down u k add.assoc)
  show "unat (pg_ofs (blk x a i)) = 12 + i * unat (block_size x)"
    using b s unfolding unat_pg_ofs u k by (simp add: add.assoc mod_mult_self4)
qed

definition blocks :: "desc \<Rightarrow> u32 \<Rightarrow> u32 list" where
  "blocks x a = map (blk x a) [0..<unat (blocks_per_arena x)]"

lemma blocks_free_list [simp]: "blocks (x\<lparr>free_list := l\<rparr>) a = blocks x a"
  by (simp add: blocks_def blk_def cong: map_cong)

lemma desc_ok_free_list [simp]: "desc_ok (x\<lparr>free_list := l\<rparr>) = desc_ok x"
  by (simp add: desc_ok_def)

lemma length_blocks [simp]: "length (blocks x a) = unat (blocks_per_arena x)"
  by (simp add: blocks_def)

lemma distinct_blocks:
  assumes "pg_ofs a = 0" "desc_ok x"
  shows "distinct (blocks x a)"
proof -
  have "inj_on (blk x a) {0..<unat (blocks_per_arena x)}"
  proof (rule inj_onI)
    fix i j assume "i \<in> {0..<unat (blocks_per_arena x)}" "j \<in> {0..<unat (blocks_per_arena x)}" "blk x a i = blk x a j"
    then have "i * unat (block_size x) = j * unat (block_size x)"
      using blk_place(1) [OF assms, of i] blk_place(1) [OF assms, of j] by auto
    then show "i = j" using assms(2) by (simp add: desc_ok_def)
  qed
  then show ?thesis by (simp add: blocks_def distinct_map)
qed

lemma blocks_page: "pg_ofs a = 0 \<Longrightarrow> desc_ok x \<Longrightarrow> b \<in> set (blocks x a) \<Longrightarrow> pg_round_down b = a"
  by (auto simp: blocks_def blk_place)

lemma big_place:
  assumes "pg_ofs a = 0"
  shows "pg_round_down (a + SIZEOF_ARENA) = a" "pg_ofs (a + SIZEOF_ARENA) = SIZEOF_ARENA"
    "unat (a + SIZEOF_ARENA) = unat a + 12"
proof -
  obtain k where k: "unat a = 4096 * k" using page_aligned [OF assms] by blast
  show u: "unat (a + SIZEOF_ARENA) = unat a + 12"
    using page_room [OF assms] by (subst unat_add_lem [THEN iffD1]) (simp_all add: SIZEOF_ARENA_def)
  show "pg_round_down (a + SIZEOF_ARENA) = a" "pg_ofs (a + SIZEOF_ARENA) = SIZEOF_ARENA"
    by (simp_all add: word_unat_eq_iff unat_pg_round_down unat_pg_ofs u k) (simp add: SIZEOF_ARENA_def)
qed

section \<open>Well-formed heaps\<close>

text \<open>The pages of an arena.\<close>

definition extent :: "u32 \<Rightarrow> arena \<Rightarrow> nat set" where
  "extent a ar = page_group a (if desc ar = None then free_cnt ar else 1)"

definition on_page :: "u32 \<Rightarrow> u32 list \<Rightarrow> nat" where
  "on_page a bs = length (filter (\<lambda>b. pg_round_down b = a) bs)"

definition arena_ok :: "heap \<Rightarrow> u32 \<Rightarrow> arena \<Rightarrow> bool" where
  "arena_ok h a ar \<longleftrightarrow> magic ar = ARENA_MAGIC \<and> a \<noteq> 0 \<and> pg_ofs a = 0 \<and>
    extent a ar \<subseteq> pool_used (kernel_pool (pg h)) \<and>
    (case desc ar of
       None \<Rightarrow> free_cnt ar \<noteq> 0
     | Some d \<Rightarrow> d < length (descs h) \<and> unat (free_cnt ar) = on_page a (free_list (descs h ! d)))"

definition lists_ok :: "heap \<Rightarrow> bool" where
  "lists_ok h \<longleftrightarrow> (\<forall>d<length (descs h). desc_ok (descs h ! d) \<and> distinct (free_list (descs h ! d)) \<and>
    (\<forall>b\<in>set (free_list (descs h ! d)). \<exists>ar. arenas h (pg_round_down b) = Some ar \<and> desc ar = Some d \<and>
      b \<in> set (blocks (descs h ! d) (pg_round_down b))))"

definition apart :: "heap \<Rightarrow> bool" where
  "apart h \<longleftrightarrow> (\<forall>a ar a' ar'. arenas h a = Some ar \<longrightarrow> arenas h a' = Some ar' \<longrightarrow> a \<noteq> a' \<longrightarrow>
    extent a ar \<inter> extent a' ar' = {})"

definition hinv :: "heap \<Rightarrow> bool" where
  "hinv h \<longleftrightarrow> palloc_inv (pg h) \<and> lists_ok h \<and> apart h \<and> (\<forall>a ar. arenas h a = Some ar \<longrightarrow> arena_ok h a ar)"

text \<open>Between operations no arena is entirely free.\<close>

definition settled :: "heap \<Rightarrow> bool" where
  "settled h \<longleftrightarrow> (\<forall>a ar d. arenas h a = Some ar \<longrightarrow> desc ar = Some d \<longrightarrow>
    free_cnt ar < blocks_per_arena (descs h ! d))"

text \<open>The blocks handed out.\<close>

definition live :: "heap \<Rightarrow> u32 \<Rightarrow> bool" where
  "live h b \<longleftrightarrow> (case arenas h (pg_round_down b) of
     None \<Rightarrow> False
   | Some ar \<Rightarrow>
       (case desc ar of
          None \<Rightarrow> b = pg_round_down b + SIZEOF_ARENA
        | Some d \<Rightarrow> b \<in> set (blocks (descs h ! d) (pg_round_down b)) \<and> b \<notin> set (free_list (descs h ! d))))"

lemma hinvD:
  assumes "hinv h"
  shows "palloc_inv (pg h)" "lists_ok h" "apart h" "arenas h a = Some ar \<Longrightarrow> arena_ok h a ar"
  using assms by (auto simp: hinv_def)

lemma lists_okD:
  assumes "lists_ok h" "d < length (descs h)"
  shows "desc_ok (descs h ! d)" "distinct (free_list (descs h ! d))"
    "b \<in> set (free_list (descs h ! d)) \<Longrightarrow> \<exists>ar. arenas h (pg_round_down b) = Some ar \<and> desc ar = Some d \<and>
      b \<in> set (blocks (descs h ! d) (pg_round_down b))"
  using assms by (auto simp: lists_ok_def)

lemma arena_okD:
  assumes "arena_ok h a ar"
  shows "magic ar = ARENA_MAGIC" "a \<noteq> 0" "pg_ofs a = 0" "extent a ar \<subseteq> pool_used (kernel_pool (pg h))"
    "desc ar = Some d \<Longrightarrow> d < length (descs h)"
    "desc ar = Some d \<Longrightarrow> unat (free_cnt ar) = on_page a (free_list (descs h ! d))"
    "desc ar = None \<Longrightarrow> free_cnt ar \<noteq> 0"
  using assms by (auto simp: arena_ok_def)

lemma block_to_arena_small:
  assumes "arenas h a = Some ar" "magic ar = ARENA_MAGIC" "a \<noteq> 0" "pg_ofs a = 0" "desc ar = Some d"
    "desc_ok (descs h ! d)" "b \<in> set (blocks (descs h ! d) a)"
  shows "block_to_arena h b = Ok (a, ar)"
proof -
  obtain i where i: "i < unat (blocks_per_arena (descs h ! d))" "b = blk (descs h ! d) a i"
    using assms(7) by (auto simp: blocks_def)
  note p = blk_place [OF assms(4,6) i(1), folded i(2)]
  have "unat (pg_ofs b - SIZEOF_ARENA) = i * unat (block_size (descs h ! d))"
    using p(4) by (subst unat_sub) (simp_all add: word_le_nat_alt SIZEOF_ARENA_def)
  then have "(pg_ofs b - SIZEOF_ARENA) mod block_size (descs h ! d) = 0"
    by (simp add: word_unat_eq_iff unat_mod)
  then show ?thesis using assms p(3) by (simp add: block_to_arena_def)
qed

lemma block_to_arena_big:
  assumes "arenas h a = Some ar" "magic ar = ARENA_MAGIC" "a \<noteq> 0" "pg_ofs a = 0" "desc ar = None"
  shows "block_to_arena h (a + SIZEOF_ARENA) = Ok (a, ar)"
  using assms big_place [OF assms(4)] by (simp add: block_to_arena_def)

section \<open>Changing a free list\<close>

definition set_free :: "nat \<Rightarrow> u32 list \<Rightarrow> u32 \<Rightarrow> u32 \<Rightarrow> heap \<Rightarrow> heap" where
  "set_free d l a n h = upd_arena a (\<lambda>x. x\<lparr>free_cnt := n\<rparr>) (upd_desc d (\<lambda>x. x\<lparr>free_list := l\<rparr>) h)"

lemma set_free_simps [simp]:
  "pg (set_free d l a n h) = pg h" "length (descs (set_free d l a n h)) = length (descs h)"
  "arenas (set_free d l a n h) x = (if x = a then map_option (\<lambda>x. x\<lparr>free_cnt := n\<rparr>) (arenas h a) else arenas h x)"
  by (simp_all add: set_free_def upd_arena_def upd_desc_def)

lemma set_free_desc:
  "d < length (descs h) \<Longrightarrow> descs (set_free d l a n h) ! e = (if e = d then (descs h ! d)\<lparr>free_list := l\<rparr> else descs h ! e)"
  by (simp add: set_free_def upd_arena_def upd_desc_def nth_list_update)

lemma set_free_hinv:
  assumes h: "hinv h" "arenas h a = Some ar" "desc ar = Some d"
    and l: "distinct l" "\<forall>b\<in>set l. b \<in> set (free_list (descs h ! d)) \<or> b \<in> set (blocks (descs h ! d) a)"
      "\<forall>a'. a' \<noteq> a \<longrightarrow> on_page a' l = on_page a' (free_list (descs h ! d))" "unat n = on_page a l"
  shows "hinv (set_free d l a n h)"
proof -
  let ?h = "set_free d l a n h"
  note a = arena_okD [OF hinvD(4) [OF h(1,2)]]
  note d = a(5) [OF h(3)]
  note fl = lists_okD [OF hinvD(2) [OF h(1)]]
  have ext: "extent a (ar\<lparr>free_cnt := n\<rparr>) = extent a ar" using h(3) by (simp add: extent_def)
  have "lists_ok ?h"
    unfolding lists_ok_def
  proof (intro allI impI conjI ballI)
    fix e assume e: "e < length (descs ?h)"
    then show "desc_ok (descs ?h ! e)" using fl(1) [of e] by (auto simp: set_free_desc [OF d])
    show "distinct (free_list (descs ?h ! e))" using fl(2) [of e] e l(1) by (auto simp: set_free_desc [OF d])
    fix b assume b: "b \<in> set (free_list (descs ?h ! e))"
    show "\<exists>ar. arenas ?h (pg_round_down b) = Some ar \<and> desc ar = Some e \<and>
      b \<in> set (blocks (descs ?h ! e) (pg_round_down b))"
    proof (cases "e = d \<and> b \<in> set (blocks (descs h ! d) a)")
      case True
      then have "pg_round_down b = a" using blocks_page [OF a(3) fl(1) [OF d]] by simp
      then show ?thesis using True h(2,3) by (simp add: set_free_desc [OF d])
    next
      case False
      then have "b \<in> set (free_list (descs h ! e))" using b l(2) by (auto simp: set_free_desc [OF d] split: if_splits)
      then show ?thesis using fl(3) [of e b] e h(2) by (auto simp: set_free_desc [OF d])
    qed
  qed
  moreover have "apart ?h" using hinvD(3) [OF h(1)] h(2) ext by (auto simp: apart_def split: if_splits)
  moreover have "arena_ok ?h x r" if r: "arenas ?h x = Some r" for x r
  proof (cases "x = a")
    case True
    then have "r = ar\<lparr>free_cnt := n\<rparr>" using r h(2) by simp
    then show ?thesis using True h(3) a d ext l(4) by (simp add: arena_ok_def set_free_desc [OF d])
  next
    case False
    then have "arena_ok h x r" using r hinvD(4) [OF h(1)] by simp
    then show ?thesis using l(3) False by (auto simp: arena_ok_def set_free_desc [OF d] split: option.splits)
  qed
  ultimately show ?thesis using hinvD(1) [OF h(1)] by (simp add: hinv_def)
qed

lemma set_free_live:
  assumes "hinv h" "arenas h a = Some ar" "desc ar = Some d"
  shows "live (set_free d l a n h) c \<longleftrightarrow>
    (if \<exists>r. arenas h (pg_round_down c) = Some r \<and> desc r = Some d
     then c \<in> set (blocks (descs h ! d) (pg_round_down c)) \<and> c \<notin> set l else live h c)"
proof -
  note d = arena_okD(5) [OF hinvD(4) [OF assms(1,2)] assms(3)]
  show ?thesis
  proof (cases "arenas h (pg_round_down c)")
    case None
    then show ?thesis using assms(2) by (auto simp: live_def)
  next
    case (Some r)
    obtain n' where "arenas (set_free d l a n h) (pg_round_down c) = Some (r\<lparr>free_cnt := n'\<rparr>)"
      using Some that [of "free_cnt r"] that [of n] by (cases "pg_round_down c = a") auto
    then show ?thesis using Some by (cases "desc r") (simp_all add: live_def set_free_desc [OF d])
  qed
qed

lemma live_small:
  "arenas h (pg_round_down c) = Some r \<Longrightarrow> desc r = Some d \<Longrightarrow>
    live h c \<longleftrightarrow> c \<in> set (blocks (descs h ! d) (pg_round_down c)) \<and> c \<notin> set (free_list (descs h ! d))"
  by (simp add: live_def)

lemma set_free_take:
  assumes "hinv h" "arenas h (pg_round_down b) = Some ar" "desc ar = Some d" "b \<in> set (blocks (descs h ! d) (pg_round_down b))"
    "set (free_list (descs h ! d)) = insert b (set l)" "b \<notin> set l"
  shows "live (set_free d l (pg_round_down b) n h) c \<longleftrightarrow> live h c \<or> c = b"
proof (cases "\<exists>r. arenas h (pg_round_down c) = Some r \<and> desc r = Some d")
  case True
  then obtain r where "arenas h (pg_round_down c) = Some r" "desc r = Some d" by blast
  from live_small [OF this] True show ?thesis unfolding set_free_live [OF assms(1-3)] using assms(4-) by auto
next
  case False
  then show ?thesis unfolding set_free_live [OF assms(1-3)] using assms(2,3) by auto
qed

lemma set_free_give:
  assumes "hinv h" "arenas h (pg_round_down b) = Some ar" "desc ar = Some d"
    "set l = insert b (set (free_list (descs h ! d)))"
  shows "live (set_free d l (pg_round_down b) n h) c \<longleftrightarrow> live h c \<and> c \<noteq> b"
proof (cases "\<exists>r. arenas h (pg_round_down c) = Some r \<and> desc r = Some d")
  case True
  then obtain r where "arenas h (pg_round_down c) = Some r" "desc r = Some d" by blast
  from live_small [OF this] True show ?thesis unfolding set_free_live [OF assms(1-3)] using assms(4-) by auto
next
  case False
  then show ?thesis unfolding set_free_live [OF assms(1-3)] using assms(2,3) by auto
qed

subsection \<open>Taking a block from the free list\<close>

lemma on_page_Cons: "on_page a (b # bs) = (if pg_round_down b = a then Suc (on_page a bs) else on_page a bs)"
  by (simp add: on_page_def)

definition same_heads :: "heap \<Rightarrow> heap \<Rightarrow> bool" where
  "same_heads h h' \<longleftrightarrow> map block_size (descs h') = map block_size (descs h) \<and>
    map blocks_per_arena (descs h') = map blocks_per_arena (descs h)"

lemma take_block_ok:
  assumes "hinv h" "d < length (descs h)" "free_list (descs h ! d) = b # bs"
  shows "\<exists>n. take_block d h = Ok (b, set_free d bs (pg_round_down b) n h) \<and> hinv (set_free d bs (pg_round_down b) n h) \<and>
    unat n = on_page (pg_round_down b) bs \<and> \<not> live h b \<and>
    (\<forall>c. live (set_free d bs (pg_round_down b) n h) c \<longleftrightarrow> live h c \<or> c = b)"
proof -
  note fl = lists_okD [OF hinvD(2) [OF assms(1)] assms(2)]
  obtain ar where ar: "arenas h (pg_round_down b) = Some ar" "desc ar = Some d"
    "b \<in> set (blocks (descs h ! d) (pg_round_down b))" using fl(3) [of b] assms(3) by auto
  note a = arena_okD [OF hinvD(4) [OF assms(1) ar(1)]]
  define n where "n = free_cnt ar - 1"
  have c: "unat (free_cnt ar) = Suc (on_page (pg_round_down b) bs)"
    using a(6) [OF ar(2)] assms(3) by (simp add: on_page_Cons)
  then have n: "unat n = on_page (pg_round_down b) bs"
    unfolding n_def by (subst unat_sub) (auto simp: word_le_nat_alt)
  let ?u = "upd_desc d (\<lambda>x. x\<lparr>free_list := bs\<rparr>) h"
  have "block_to_arena ?u b = Ok (pg_round_down b, ar)"
    using ar a fl(1) assms(2) by (intro block_to_arena_small [where d = d]) (simp_all add: upd_desc_def)
  then have "take_block d h = Ok (b, set_free d bs (pg_round_down b) n h)"
    using assms(3) ar(1) by (simp add: take_block_def set_free_def upd_arena_def upd_desc_def n_def)
  moreover have "hinv (set_free d bs (pg_round_down b) n h)"
    by (rule set_free_hinv [OF assms(1) ar(1,2)]) (use assms(3) fl(2) n in \<open>auto simp: on_page_Cons\<close>)
  moreover have "\<not> live h b" using ar assms(3) by (simp add: live_small)
  moreover have "live (set_free d bs (pg_round_down b) n h) c \<longleftrightarrow> live h c \<or> c = b" for c
    by (rule set_free_take [OF assms(1) ar]) (use assms(3) fl(2) in auto)
  ultimately show ?thesis using n by blast
qed

section \<open>Adding and dropping arenas\<close>

lemma kernel_flags [simp]: "the_pool 0 s = kernel_pool s" "other_pool 0 s = user_pool s"
  by (simp_all add: the_pool_def other_pool_def)

lemma in_extent: "arena_ok h a ar \<Longrightarrow> first_page a \<in> extent a ar"
  by (auto simp: arena_ok_def extent_def page_group_def unat_gt_0 split: option.splits)

lemma fresh_arena:
  assumes "hinv h" "n \<noteq> 0" "page_group a n \<inter> pool_used (kernel_pool (pg h)) = {}"
  shows "arenas h a = None"
proof (rule ccontr)
  assume "arenas h a \<noteq> None"
  then obtain ar where ar: "arenas h a = Some ar" by auto
  note ok = hinvD(4) [OF assms(1) ar]
  have "first_page a \<in> pool_used (kernel_pool (pg h))" using in_extent [OF ok] arena_okD(4) [OF ok] by blast
  moreover have "first_page a \<in> page_group a n" using assms(2) by (simp add: page_group_def unat_gt_0)
  ultimately show False using assms(3) by blast
qed

lemma add_arena_hinv:
  assumes h: "hinv h" and p: "palloc_inv p" "n \<noteq> 0" "page_group a n \<inter> pool_used (kernel_pool (pg h)) = {}"
      "pool_used (kernel_pool p) = pool_used (kernel_pool (pg h)) \<union> page_group a n"
    and x: "extent a x = page_group a n"
    and ok: "arena_ok (h\<lparr>pg := p, arenas := (arenas h)(a \<mapsto> x), descs := ds\<rparr>) a x"
    and ds: "lists_ok (h\<lparr>pg := p, arenas := (arenas h)(a \<mapsto> x), descs := ds\<rparr>)" "length ds = length (descs h)"
      "\<forall>a'. \<forall>d<length ds. a' \<noteq> a \<longrightarrow> on_page a' (free_list (ds ! d)) = on_page a' (free_list (descs h ! d))"
  shows "hinv (h\<lparr>pg := p, arenas := (arenas h)(a \<mapsto> x), descs := ds\<rparr>)"
proof -
  let ?h = "h\<lparr>pg := p, arenas := (arenas h)(a \<mapsto> x), descs := ds\<rparr>"
  have used: "extent b r \<subseteq> pool_used (kernel_pool (pg h))" if "arenas h b = Some r" for b r
    by (rule arena_okD(4) [OF hinvD(4) [OF h that]])
  have "apart ?h"
    unfolding apart_def
  proof (intro allI impI)
    fix b r c s assume *: "arenas ?h b = Some r" "arenas ?h c = Some s" "b \<noteq> c"
    show "extent b r \<inter> extent c s = {}"
    proof (cases "b = a \<or> c = a")
      case True
      then show ?thesis using * x p(3) used [of b r] used [of c s] by (auto split: if_splits)
    next
      case False
      then show ?thesis using * hinvD(3) [OF h] by (auto simp: apart_def)
    qed
  qed
  moreover have "arena_ok ?h b r" if r: "arenas ?h b = Some r" for b r
  proof (cases "b = a")
    case True
    then show ?thesis using r ok by simp
  next
    case False
    then have "arena_ok h b r" using r hinvD(4) [OF h] by simp
    then show ?thesis using ds(2,3) p(4) False by (auto simp: arena_ok_def split: option.splits)
  qed
  ultimately show ?thesis using p(1) ds(1) by (simp add: hinv_def)
qed

lemma add_big:
  assumes h: "hinv h" and p: "palloc_inv p" "n \<noteq> 0" "page_group a n \<inter> pool_used (kernel_pool (pg h)) = {}"
      "pool_used (kernel_pool p) = pool_used (kernel_pool (pg h)) \<union> page_group a n" "a \<noteq> 0" "pg_ofs a = 0"
  defines "h' \<equiv> h\<lparr>pg := p, arenas := (arenas h)(a \<mapsto> \<lparr>magic = ARENA_MAGIC, desc = None, free_cnt = n\<rparr>)\<rparr>"
  shows "hinv h'" "live h' c \<longleftrightarrow> live h c \<or> c = a + SIZEOF_ARENA" "\<not> live h (a + SIZEOF_ARENA)"
proof -
  have f: "arenas h a = None" by (rule fresh_arena [OF h p(2,3)])
  have "hinv (h\<lparr>pg := p, arenas := (arenas h)(a \<mapsto> \<lparr>magic = ARENA_MAGIC, desc = None, free_cnt = n\<rparr>), descs := descs h\<rparr>)"
  proof (rule add_arena_hinv [OF h p(1-4)])
    show "lists_ok (h\<lparr>pg := p, arenas := (arenas h)(a \<mapsto> \<lparr>magic = ARENA_MAGIC, desc = None, free_cnt = n\<rparr>), descs := descs h\<rparr>)"
      using hinvD(2) [OF h] f by (fastforce simp: lists_ok_def)
  qed (use p in \<open>auto simp: extent_def arena_ok_def\<close>)
  then show "hinv h'" by (simp add: h'_def)
  show "live h' c \<longleftrightarrow> live h c \<or> c = a + SIZEOF_ARENA" "\<not> live h (a + SIZEOF_ARENA)"
    using f big_place(1) [OF p(6)] by (auto simp: live_def h'_def split: option.splits)
qed

lemma filter_page_blocks:
  assumes "pg_ofs a = 0" "desc_ok x"
  shows "on_page b (blocks x a) = (if b = a then unat (blocks_per_arena x) else 0)"
proof -
  have "filter (\<lambda>c. pg_round_down c = b) (blocks x a) = (if b = a then blocks x a else [])"
    using blocks_page [OF assms] by (auto simp: filter_id_conv filter_empty_conv)
  then show ?thesis by (simp add: on_page_def)
qed

lemma add_small:
  assumes h: "hinv h" and p: "palloc_inv p" "page_group a 1 \<inter> pool_used (kernel_pool (pg h)) = {}"
      "pool_used (kernel_pool p) = pool_used (kernel_pool (pg h)) \<union> page_group a 1" "a \<noteq> 0" "pg_ofs a = 0"
    and d: "d < length (descs h)" "free_list (descs h ! d) = []"
  defines "x \<equiv> descs h ! d"
  defines "ar \<equiv> \<lparr>magic = ARENA_MAGIC, desc = Some d, free_cnt = blocks_per_arena x\<rparr>"
  defines "h' \<equiv> h\<lparr>pg := p, arenas := (arenas h)(a \<mapsto> ar), descs := (descs h)[d := x\<lparr>free_list := blocks x a\<rparr>]\<rparr>"
  shows "hinv h'" "live h' c \<longleftrightarrow> live h c"
proof -
  have f: "arenas h a = None" by (rule fresh_arena [OF h _ p(2)]) simp
  note fl = lists_okD [OF hinvD(2) [OF h]]
  have x: "desc_ok x" using fl(1) [OF d(1)] by (simp add: x_def)
  have l: "lists_ok h'"
    unfolding lists_ok_def
  proof (intro allI impI conjI ballI)
    fix e assume "e < length (descs h')"
    then have e: "e < length (descs h)" by (simp add: h'_def)
    then show "desc_ok (descs h' ! e)" "distinct (free_list (descs h' ! e))"
      using fl(1,2) [OF e] x d(1) distinct_blocks [OF p(5) x] by (auto simp: h'_def nth_list_update)
    fix b assume b: "b \<in> set (free_list (descs h' ! e))"
    show "\<exists>ar. arenas h' (pg_round_down b) = Some ar \<and> desc ar = Some e \<and> b \<in> set (blocks (descs h' ! e) (pg_round_down b))"
    proof (cases "e = d")
      case True
      then have "b \<in> set (blocks x a)" using b d by (simp add: h'_def)
      moreover from this have "pg_round_down b = a" by (rule blocks_page [OF p(5) x])
      ultimately show ?thesis using True d by (simp add: h'_def ar_def)
    next
      case False
      then show ?thesis using fl(3) [OF e, of b] b f by (auto simp: h'_def)
    qed
  qed
  show "hinv h'"
    unfolding h'_def
  proof (rule add_arena_hinv [OF h p(1) _ p(2,3)])
    show "\<forall>a'. \<forall>e<length ((descs h)[d := x\<lparr>free_list := blocks x a\<rparr>]). a' \<noteq> a \<longrightarrow>
      on_page a' (free_list ((descs h)[d := x\<lparr>free_list := blocks x a\<rparr>] ! e)) = on_page a' (free_list (descs h ! e))"
      using d filter_page_blocks [OF p(5) x] by (auto simp: nth_list_update on_page_def)
  qed (use l p d filter_page_blocks [OF p(5) x] in \<open>auto simp: h'_def extent_def ar_def arena_ok_def\<close>)
  show "live h' c \<longleftrightarrow> live h c"
  proof (cases "pg_round_down c = a")
    case True
    then show ?thesis using f d by (simp add: live_def h'_def ar_def)
  next
    case False
    have "c \<notin> set (blocks x a)" using False blocks_page [OF p(5) x] by blast
    then show ?thesis using False d
      by (auto simp: live_def h'_def nth_list_update x_def split: option.splits)
  qed
qed

text \<open>The heap without arena \<open>a\<close>.\<close>

definition keep_off :: "u32 \<Rightarrow> desc \<Rightarrow> desc" where
  "keep_off a x = x\<lparr>free_list := filter (\<lambda>b. pg_round_down b \<noteq> a) (free_list x)\<rparr>"

definition drop_arena :: "pages \<Rightarrow> u32 \<Rightarrow> heap \<Rightarrow> heap" where
  "drop_arena p a h = h\<lparr>pg := p, arenas := (arenas h)(a := None), descs := map (keep_off a) (descs h)\<rparr>"

lemma keep_off_simps [simp]:
  "blocks (keep_off a x) = blocks x" "desc_ok (keep_off a x) = desc_ok x"
  "free_list (keep_off a x) = filter (\<lambda>b. pg_round_down b \<noteq> a) (free_list x)"
  "block_size (keep_off a x) = block_size x" "blocks_per_arena (keep_off a x) = blocks_per_arena x"
  by (simp_all add: keep_off_def fun_eq_iff)

lemma on_page_filter: "b \<noteq> a \<Longrightarrow> on_page b (filter (\<lambda>c. pg_round_down c \<noteq> a) l) = on_page b l"
  unfolding on_page_def filter_filter by (rule arg_cong [where f = length], rule filter_cong) auto

lemma drop_arena_hinv:
  assumes h: "hinv h" "arenas h a = Some ar" and p: "palloc_inv p"
      "pool_used (kernel_pool p) = pool_used (kernel_pool (pg h)) - extent a ar"
  shows "hinv (drop_arena p a h)" "live (drop_arena p a h) c \<longleftrightarrow> live h c \<and> pg_round_down c \<noteq> a"
proof -
  let ?h = "drop_arena p a h"
  have "lists_ok ?h" using hinvD(2) [OF h(1)] by (fastforce simp: lists_ok_def drop_arena_def)
  moreover have "apart ?h" using hinvD(3) [OF h(1)] by (auto simp: apart_def drop_arena_def split: if_splits)
  moreover have "arena_ok ?h b r" if r: "arenas ?h b = Some r" for b r
  proof -
    from r have b: "arenas h b = Some r" "b \<noteq> a" by (auto simp: drop_arena_def split: if_splits)
    have "extent b r \<inter> extent a ar = {}" using hinvD(3) [OF h(1)] b h(2) by (auto simp: apart_def)
    then show ?thesis using hinvD(4) [OF h(1) b(1)] b(2) p(2)
      by (auto simp: arena_ok_def drop_arena_def on_page_filter split: option.splits)
  qed
  ultimately show "hinv ?h" using p(1) by (simp add: hinv_def drop_arena_def)
  show "live ?h c \<longleftrightarrow> live h c \<and> pg_round_down c \<noteq> a"
  proof (cases "arenas h (pg_round_down c)")
    case (Some r)
    have "d < length (descs h)" if "desc r = Some d" for d
      by (rule arena_okD(5) [OF hinvD(4) [OF h(1) Some] that])
    then show ?thesis using Some by (auto simp: live_def drop_arena_def split: option.splits)
  qed (simp add: live_def drop_arena_def)
qed

lemma keep_off_other:
  assumes "hinv h" "arenas h a = Some ar" "d < length (descs h)" "desc ar \<noteq> Some d"
  shows "keep_off a (descs h ! d) = descs h ! d"
proof -
  have "filter (\<lambda>b. pg_round_down b \<noteq> a) (free_list (descs h ! d)) = free_list (descs h ! d)"
    using lists_okD(3) [OF hinvD(2) [OF assms(1)] assms(3)] assms(2,4) by (fastforce simp: filter_id_conv)
  then show ?thesis by (simp add: keep_off_def)
qed

section \<open>The loops over the blocks of an arena\<close>

lemma arena_to_block_ok:
  assumes "arenas h a = Some ar" "a \<noteq> 0" "magic ar = ARENA_MAGIC" "desc ar = Some d"
    "i < unat (blocks_per_arena (descs h ! d))"
  shows "arena_to_block h a (of_nat i) = Ok (blk (descs h ! d) a i)"
proof -
  have "i < 2 ^ 32" using assms(5) unsigned_less [of "blocks_per_arena (descs h ! d)", where ?'a = nat] by simp
  then have "unat (of_nat i :: u32) = i" by (simp add: unat_of_nat)
  then show ?thesis using assms by (simp add: arena_to_block_def blk_def word_less_nat_alt)
qed

lemma upd_desc_simps [simp]:
  "arenas (upd_desc d f h) = arenas h" "pg (upd_desc d f h) = pg h" "length (descs (upd_desc d f h)) = length (descs h)"
  by (simp_all add: upd_desc_def)

lemma upd_desc_nth: "d < length (descs h) \<Longrightarrow> descs (upd_desc d f h) ! d = f (descs h ! d)"
  by (simp add: upd_desc_def)

lemma upd_desc_twice: "d < length (descs h) \<Longrightarrow> upd_desc d g (upd_desc d f h) = upd_desc d (\<lambda>x. g (f x)) h"
  by (simp add: upd_desc_def)

lemma blk_free_list [simp]: "blk (x\<lparr>free_list := l\<rparr>) = blk x"
  by (simp add: blk_def fun_eq_iff)

lemma push_blocks_ok:
  assumes "arenas h a = Some ar" "a \<noteq> 0" "magic ar = ARENA_MAGIC" "desc ar = Some d" "d < length (descs h)"
    "i + m \<le> unat (blocks_per_arena (descs h ! d))"
  shows "push_blocks m i a d h = Ok (upd_desc d (\<lambda>x. x\<lparr>free_list := free_list x @ map (blk x a) [i..<i + m]\<rparr>) h)"
  using assms
proof (induction m arbitrary: i h)
  case 0
  then show ?case by (simp add: upd_desc_def)
next
  case (Suc m)
  let ?h = "upd_desc d (\<lambda>x. x\<lparr>free_list := free_list x @ [blk (descs h ! d) a i]\<rparr>) h"
  have "push_blocks m (Suc i) a d ?h =
      Ok (upd_desc d (\<lambda>x. x\<lparr>free_list := free_list x @ map (blk x a) [Suc i..<Suc i + m]\<rparr>) ?h)"
    using Suc.prems by (intro Suc.IH) (simp_all add: upd_desc_nth)
  moreover have "[i..<i + Suc m] = i # [Suc i..<Suc i + m]" by (simp add: upt_conv_Cons)
  ultimately show ?case
    using Suc.prems by (simp add: arena_to_block_ok [where d = d and ar = ar] upd_desc_twice del: upt_Suc) (simp add: upd_desc_def)
qed

lemma remove_blocks_ok:
  assumes "arenas h a = Some ar" "a \<noteq> 0" "magic ar = ARENA_MAGIC" "desc ar = Some d" "d < length (descs h)"
    "i + m \<le> unat (blocks_per_arena (descs h ! d))"
  shows "remove_blocks m i a d h = Ok (upd_desc d (\<lambda>x. x\<lparr>free_list := fold remove1 (map (blk x a) [i..<i + m]) (free_list x)\<rparr>) h)"
  using assms
proof (induction m arbitrary: i h)
  case 0
  then show ?case by (simp add: upd_desc_def)
next
  case (Suc m)
  let ?h = "upd_desc d (\<lambda>x. x\<lparr>free_list := remove1 (blk (descs h ! d) a i) (free_list x)\<rparr>) h"
  have "remove_blocks m (Suc i) a d ?h =
      Ok (upd_desc d (\<lambda>x. x\<lparr>free_list := fold remove1 (map (blk x a) [Suc i..<Suc i + m]) (free_list x)\<rparr>) ?h)"
    using Suc.prems by (intro Suc.IH) (simp_all add: upd_desc_nth)
  moreover have "[i..<i + Suc m] = i # [Suc i..<Suc i + m]" by (simp add: upt_conv_Cons)
  ultimately show ?case
    using Suc.prems by (simp add: arena_to_block_ok [where d = d and ar = ar] upd_desc_twice del: upt_Suc) (simp add: upd_desc_def)
qed

lemma fold_remove1: "distinct l \<Longrightarrow> fold remove1 bs l = filter (\<lambda>x. x \<notin> set bs) l"
proof (induction bs arbitrary: l)
  case (Cons b bs)
  have "remove1 b l = filter (\<lambda>x. b \<noteq> x) l" using Cons.prems by (simp add: distinct_remove1_removeAll removeAll_filter_not_eq)
  with Cons show ?case by (auto intro: filter_cong)
qed simp

section \<open>The bytes of blocks\<close>

definition blen :: "heap \<Rightarrow> u32 \<Rightarrow> u32" where
  "blen h c = (case arenas h (pg_round_down c) of None \<Rightarrow> 0
    | Some ar \<Rightarrow> (case desc ar of Some d \<Rightarrow> block_size (descs h ! d) | None \<Rightarrow> PGSIZE * free_cnt ar - SIZEOF_ARENA))"

definition region :: "heap \<Rightarrow> u32 \<Rightarrow> nat set" where
  "region h c = {unat c..<unat c + unat (blen h c)}"

definition bytes_of :: "nat set \<Rightarrow> nat set" where
  "bytes_of P = {x. x div 4096 \<in> P}"

lemma live_cases:
  assumes "hinv h" "live h c"
  obtains (small) a ar d i where "arenas h a = Some ar" "arena_ok h a ar" "desc ar = Some d" "desc_ok (descs h ! d)"
      "i < unat (blocks_per_arena (descs h ! d))" "c = blk (descs h ! d) a i" "pg_round_down c = a"
      "c \<in> set (blocks (descs h ! d) a)" "c \<notin> set (free_list (descs h ! d))"
  | (big) a ar where "arenas h a = Some ar" "arena_ok h a ar" "desc ar = None" "c = a + SIZEOF_ARENA" "pg_round_down c = a"
proof -
  obtain ar where ar: "arenas h (pg_round_down c) = Some ar" using assms(2) by (auto simp: live_def split: option.splits)
  note ok = hinvD(4) [OF assms(1) ar]
  show thesis
  proof (cases "desc ar")
    case None
    then show thesis using big [OF ar ok] assms(2) ar by (simp add: live_def)
  next
    case (Some d)
    with assms(2) ar have c: "c \<in> set (blocks (descs h ! d) (pg_round_down c))" "c \<notin> set (free_list (descs h ! d))"
      by (auto simp: live_small)
    then obtain i where "i < unat (blocks_per_arena (descs h ! d))" "c = blk (descs h ! d) (pg_round_down c) i"
      by (auto simp: blocks_def)
    moreover have "desc_ok (descs h ! d)" by (rule lists_okD(1) [OF hinvD(2) [OF assms(1)] arena_okD(5) [OF ok Some]])
    ultimately show thesis using small [OF ar ok Some] c by blast
  qed
qed

lemma block_len_live:
  assumes "hinv h" "live h c"
  shows "block_len h c = Ok (blen h c)"
  using assms
proof (cases rule: live_cases)
  case (small a ar d i)
  have "block_to_arena h c = Ok (a, ar)"
    using small arena_okD [OF small(2)] by (intro block_to_arena_small) auto
  then show ?thesis using small by (simp add: block_len_def blen_def)
next
  case (big a ar)
  note ok = arena_okD [OF big(2)]
  have "block_to_arena h c = Ok (a, ar)"
    using block_to_arena_big [OF big(1) ok(1-3) big(3)] big(4) by simp
  then show ?thesis using big big_place [OF ok(3)] by (simp add: block_len_def blen_def)
qed

lemma pages_in_pool:
  assumes "pool_inv p" "page_group a n \<subseteq> pool_used p" "n \<noteq> 0"
  shows "first_page a + unat n \<le> 2 ^ 20" "unat (PGSIZE * n) = 4096 * unat n" "0 < first_page a"
proof -
  have "0 < unat n" using assms(3) by (simp add: unat_gt_0)
  then have "first_page a \<in> page_group a n" "first_page a + unat n - 1 \<in> page_group a n"
    by (auto simp: page_group_def)
  with assms(2) pool_used_subset [of p]
  have m: "first_page a \<in> pool_pages p" "first_page a + unat n - 1 \<in> pool_pages p" by blast+
  have "first_page (base p) + length (bits_of (used_map p)) \<le> 2 ^ 20"
    using assms(1) div_mult_mod_eq [of "unat (base p)" 4096] by (auto simp: pool_inv_def first_page_def)
  moreover have b: "0 < first_page (base p)"
  proof -
    have "0 < unat (base p)" "unat (base p) mod 4096 = 0" using assms(1) by (auto simp: pool_inv_def unat_gt_0)
    then show ?thesis by (auto simp: first_page_def)
  qed
  ultimately show u: "first_page a + unat n \<le> 2 ^ 20" "0 < first_page a" using m by (auto simp: pool_pages_def)
  then show "unat (PGSIZE * n) = 4096 * unat n" by (subst unat_mult_lem [THEN iffD1]) (simp_all add: PGSIZE_def)
qed

lemma big_len:
  assumes "hinv h" "arenas h a = Some ar" "desc ar = None"
  shows "unat (PGSIZE * free_cnt ar - SIZEOF_ARENA) = 4096 * unat (free_cnt ar) - 12"
    "unat (PGSIZE * free_cnt ar) = 4096 * unat (free_cnt ar)" "first_page a + unat (free_cnt ar) \<le> 2 ^ 20"
    "0 < unat (free_cnt ar)"
proof -
  note ok = arena_okD [OF hinvD(4) [OF assms(1,2)]]
  have "pool_inv (kernel_pool (pg h))" using hinvD(1) [OF assms(1)] by (simp add: palloc_inv_def)
  moreover have "page_group a (free_cnt ar) \<subseteq> pool_used (kernel_pool (pg h))" using ok(4) assms(3) by (simp add: extent_def)
  ultimately have p: "unat (PGSIZE * free_cnt ar) = 4096 * unat (free_cnt ar)" "first_page a + unat (free_cnt ar) \<le> 2 ^ 20"
    using pages_in_pool ok(7) [OF assms(3)] by blast+
  show n: "0 < unat (free_cnt ar)" using ok(7) [OF assms(3)] by (simp add: unat_gt_0)
  show "unat (PGSIZE * free_cnt ar) = 4096 * unat (free_cnt ar)" "first_page a + unat (free_cnt ar) \<le> 2 ^ 20" by (rule p)+
  show "unat (PGSIZE * free_cnt ar - SIZEOF_ARENA) = 4096 * unat (free_cnt ar) - 12"
    using n p by (subst unat_sub) (simp_all add: word_le_nat_alt SIZEOF_ARENA_def)
qed

lemma aligned_first_page: "pg_ofs a = 0 \<Longrightarrow> unat a = 4096 * first_page a"
  using page_aligned [of a] by (auto simp: first_page_def)

lemma region_in_extent:
  assumes "hinv h" "live h c" "arenas h (pg_round_down c) = Some ar"
  shows "region h c \<subseteq> bytes_of (extent (pg_round_down c) ar)" "unat c + unat (blen h c) \<le> 2 ^ 32"
proof -
  show "region h c \<subseteq> bytes_of (extent (pg_round_down c) ar)"
    using assms(1,2)
  proof (cases rule: live_cases)
    case (small a r d i)
    note p = blk_place [OF arena_okD(3) [OF small(2)] small(4,5)]
    have "x div 4096 = first_page a" if "x \<in> region h c" for x
      using that p(1,2) small aligned_first_page [OF arena_okD(3) [OF small(2)]]
      by (intro div_nat_eqI) (auto simp: region_def blen_def)
    then show ?thesis using small assms(3) by (auto simp: bytes_of_def extent_def page_group_def)
  next
    case (big a r)
    note l = big_len [OF assms(1) big(1,3)] and a = arena_okD [OF big(2)]
    have "first_page a \<le> x div 4096 \<and> x div 4096 < first_page a + unat (free_cnt r)" if "x \<in> region h c" for x
      using that l big big_place(3) [OF a(3)] aligned_first_page [OF a(3)]
      by (auto simp: region_def blen_def less_eq_div_iff_mult_less_eq div_less_iff_less_mult)
    then show ?thesis using big assms(3) by (auto simp: bytes_of_def extent_def page_group_def)
  qed
  show "unat c + unat (blen h c) \<le> 2 ^ 32"
    using assms(1,2)
  proof (cases rule: live_cases)
    case (small a r d i)
    then show ?thesis using blk_place [OF arena_okD(3) [OF small(2)] small(4,5)] page_room [OF arena_okD(3) [OF small(2)]]
      by (simp add: blen_def)
  next
    case (big a r)
    note l = big_len [OF assms(1) big(1,3)] and a = arena_okD [OF big(2)]
    show ?thesis using l big big_place(3) [OF a(3)] aligned_first_page [OF a(3)] by (simp add: blen_def)
  qed
qed

lemma live_regions:
  assumes "hinv h" "live h b" "live h c" "b \<noteq> c"
  shows "region h b \<inter> region h c = {}"
proof (cases "pg_round_down b = pg_round_down c")
  case False
  obtain r s where r: "arenas h (pg_round_down b) = Some r" "arenas h (pg_round_down c) = Some s"
    using assms(2,3) by (auto simp: live_def split: option.splits)
  then have "extent (pg_round_down b) r \<inter> extent (pg_round_down c) s = {}"
    using hinvD(3) [OF assms(1)] False by (auto simp: apart_def)
  then show ?thesis
    using region_in_extent(1) [OF assms(1,2) r(1)] region_in_extent(1) [OF assms(1,3) r(2)] by (auto simp: bytes_of_def)
next
  case True
  show ?thesis using assms(1,2)
  proof (cases rule: live_cases)
    case (small a r d i)
    note b = small
    obtain j where j: "j < unat (blocks_per_arena (descs h ! d))" "c = blk (descs h ! d) a j"
      using assms(3) small True by (auto simp: live_small blocks_def)
    note p = blk_place(1) [OF arena_okD(3) [OF small(2)] small(4)]
    define s where "s = unat (block_size (descs h ! d))"
    have "i \<noteq> j" using assms(4) j(2) b(6) by auto
    then have "Suc i * s \<le> j * s \<or> Suc j * s \<le> i * s" by (metis Suc_leI linorder_neqE_nat mult_le_mono1)
    then show ?thesis
      using p [OF b(5)] p [OF j(1)] b j(2) True by (auto simp: region_def blen_def s_def [symmetric])
  next
    case (big a r)
    then show ?thesis using assms(3,4) True by (simp add: live_def)
  qed
qed

end
