(* ===== verification/MallocSpec.thy ===== *)
theory MallocSpec
  imports Malloc
begin

text \<open>
  What the operations of the memory allocator do to a well-formed heap: \<open>malloc\<close> hands out a block that was
  free, \<open>free\<close> takes one back, \<open>calloc\<close> clears it and \<open>realloc\<close> moves one, and no other block changes.
\<close>

section \<open>Allocation\<close>

definition heap_inv :: "heap \<Rightarrow> bool" where
  "heap_inv h \<longleftrightarrow> hinv h \<and> settled h"

lemma find_desc_le: "find_desc ds s \<le> length ds"
  by (induction ds) auto

lemma find_desc_fits: "find_desc ds s < length ds \<Longrightarrow> s \<le> block_size (ds ! find_desc ds s)"
  by (induction ds) auto

lemma palloc_kernel:
  assumes "palloc_inv s" "n \<noteq> 0"
  obtains (room) a p where "palloc_get_multiple 0 n s = Ok (a, p)" "palloc_inv p" "a \<noteq> 0" "pg_ofs a = 0"
      "page_group a n \<inter> pool_used (kernel_pool s) = {}"
      "pool_used (kernel_pool p) = pool_used (kernel_pool s) \<union> page_group a n" "mem p = mem s"
  | (full) "palloc_get_multiple 0 n s = Ok (0, s)" "no_room (kernel_pool s) n"
  using palloc_get_cases [OF assms, of 0] by (auto simp: PAL_ZERO_def PAL_ASSERT_def intro: room full)

lemma one_u32: "(1 :: u32) \<noteq> 0"
  by simp

lemma new_arena_ok:
  assumes "hinv h" "d < length (descs h)" "free_list (descs h ! d) = []"
  shows "(\<exists>h' b bs. new_arena d h = Ok (True, h') \<and> hinv h' \<and> (\<forall>c. live h' c \<longleftrightarrow> live h c) \<and> mem (pg h') = mem (pg h) \<and>
      length (descs h') = length (descs h) \<and> free_list (descs h' ! d) = b # bs \<and> block_size (descs h' ! d) = block_size (descs h ! d) \<and>
      (\<forall>c. live h c \<longrightarrow> blen h' c = blen h c) \<and>
      (\<forall>a ar e. arenas h' a = Some ar \<longrightarrow> desc ar = Some e \<longrightarrow> a \<noteq> pg_round_down b \<longrightarrow> arenas h a = Some ar) \<and>
      blocks_per_arena (descs h' ! d) = blocks_per_arena (descs h ! d) \<and>
      (\<forall>e. e \<noteq> d \<longrightarrow> descs h' ! e = descs h ! e)) \<or>
    new_arena d h = Ok (False, h) \<and> no_room (kernel_pool (pg h)) 1"
  using hinvD(1) [OF assms(1)] one_u32
proof (cases rule: palloc_kernel)
  case (room a p)
  define x where "x = descs h ! d"
  define ar where "ar = \<lparr>magic = ARENA_MAGIC, desc = Some d, free_cnt = blocks_per_arena x\<rparr>"
  define h1 where "h1 = h\<lparr>pg := p, arenas := (arenas h)(a \<mapsto> ar)\<rparr>"
  define h' where "h' = h\<lparr>pg := p, arenas := (arenas h)(a \<mapsto> ar), descs := (descs h)[d := x\<lparr>free_list := blocks x a\<rparr>]\<rparr>"
  note add = add_small [OF assms(1) room(2,5,6,3,4) assms(2,3), folded x_def, folded ar_def, folded h'_def]
  have dx: "desc_ok x" using lists_okD(1) [OF hinvD(2) [OF assms(1)] assms(2)] by (simp add: x_def)
  have "push_blocks (unat (blocks_per_arena x)) 0 a d h1 =
      Ok (upd_desc d (\<lambda>y. y\<lparr>free_list := free_list y @ map (blk y a) [0..<0 + unat (blocks_per_arena x)]\<rparr>) h1)"
    by (rule push_blocks_ok [where ar = ar]) (use room(3) assms(2) in \<open>simp_all add: h1_def ar_def x_def\<close>)
  then have n: "new_arena d h = Ok (True, h')"
    using room(1,3) assms(2,3)
    by (simp add: new_arena_def palloc_get_page_def h1_def h'_def ar_def x_def upd_desc_def blocks_def Let_def)
  obtain b bs where b: "blocks x a = b # bs" using dx by (cases "blocks x a") (auto simp: desc_ok_def simp flip: length_greater_0_conv length_blocks [of x a])
  have pb: "pg_round_down b = a" by (rule blocks_page [OF room(4) dx]) (simp add: b)
  have f: "arenas h a = None" by (rule fresh_arena [OF assms(1) _ room(5)]) simp
  have "blen h' c = blen h c" if c: "live h c" for c
  proof -
    have "pg_round_down c \<noteq> a" using c f by (auto simp: live_def)
    then show ?thesis using assms(2) by (auto simp: blen_def h'_def nth_list_update x_def split: option.splits)
  qed
  with n add b pb room(7) assms(2) show ?thesis
    by (intro disjI1 exI [of _ h'] exI [of _ b] exI [of _ bs]) (auto simp: h'_def x_def)
next
  case full
  then show ?thesis by (simp add: new_arena_def palloc_get_page_def)
qed

lemma set_free_len: "d < length (descs h) \<Longrightarrow> arenas h (pg_round_down c) = Some r \<Longrightarrow> desc r = None \<longrightarrow> a \<noteq> pg_round_down c \<Longrightarrow>
    blen (set_free d l a n h) c = blen h c"
  by (cases "desc r") (auto simp: blen_def set_free_desc split: option.splits)

lemma set_free_len_live:
  assumes "hinv h" "arenas h a = Some ar" "desc ar = Some d" "live h c"
  shows "blen (set_free d l a n h) c = blen h c"
proof -
  obtain r where r: "arenas h (pg_round_down c) = Some r" using assms(4) by (auto simp: live_def split: option.splits)
  show ?thesis
    by (rule set_free_len [OF arena_okD(5) [OF hinvD(4) [OF assms(1,2)] assms(3)] r]) (use assms(2,3) r in auto)
qed

text \<open>What a successful call of \<open>malloc\<close> does.\<close>

definition handed_out :: "heap \<Rightarrow> u32 \<Rightarrow> u32 \<Rightarrow> heap \<Rightarrow> bool" where
  "handed_out h size' b h' \<longleftrightarrow> b \<noteq> 0 \<and> \<not> live h b \<and> (\<forall>c. live h' c \<longleftrightarrow> live h c \<or> c = b) \<and> size' \<le> blen h' b \<and>
    (\<forall>c. live h c \<longrightarrow> blen h' c = blen h c) \<and> mem (pg h') = mem (pg h)"

lemma live_nonzero: "hinv h \<Longrightarrow> live h c \<Longrightarrow> c \<noteq> 0"
proof
  assume h: "hinv h" "live h c" "c = 0"
  then obtain ar where "arenas h (pg_round_down c) = Some ar" by (auto simp: live_def split: option.splits)
  from arena_okD(2) [OF hinvD(4) [OF h(1) this]] h(3) show False by (simp add: pg_round_down_def)
qed

lemma on_page_bound:
  assumes "hinv h" "d < length (descs h)" "pg_ofs a = 0"
  shows "on_page a (free_list (descs h ! d)) \<le> unat (blocks_per_arena (descs h ! d))"
    "on_page a (free_list (descs h ! d)) = unat (blocks_per_arena (descs h ! d)) \<Longrightarrow>
      set (blocks (descs h ! d) a) \<subseteq> set (free_list (descs h ! d))"
proof -
  let ?x = "descs h ! d"
  note fl = lists_okD [OF hinvD(2) [OF assms(1)] assms(2)]
  have "set (filter (\<lambda>b. pg_round_down b = a) (free_list ?x)) = set (free_list ?x) \<inter> set (blocks ?x a)"
    using fl(3) blocks_page [OF assms(3) fl(1)] by fastforce
  moreover have "distinct (filter (\<lambda>b. pg_round_down b = a) (free_list ?x))" using fl(2) by (rule distinct_filter)
  ultimately have o: "on_page a (free_list ?x) = card (set (free_list ?x) \<inter> set (blocks ?x a))"
    unfolding on_page_def using distinct_card by metis
  have c: "card (set (blocks ?x a)) = unat (blocks_per_arena ?x)"
    using distinct_card [OF distinct_blocks [OF assms(3) fl(1)]] by simp
  show "on_page a (free_list ?x) \<le> unat (blocks_per_arena ?x)"
    unfolding o c [symmetric] by (rule card_mono) auto
  assume "on_page a (free_list ?x) = unat (blocks_per_arena ?x)"
  with o c have "set (free_list ?x) \<inter> set (blocks ?x a) = set (blocks ?x a)" by (intro card_subset_eq) auto
  then show "set (blocks ?x a) \<subseteq> set (free_list ?x)" by blast
qed

lemma take_block_handed_out:
  assumes "hinv h" "d < length (descs h)" "free_list (descs h ! d) = b # bs" "size' \<le> block_size (descs h ! d)"
    and others: "\<forall>a ar e. arenas h a = Some ar \<longrightarrow> desc ar = Some e \<longrightarrow> a \<noteq> pg_round_down b \<longrightarrow>
      free_cnt ar < blocks_per_arena (descs h ! e)"
  shows "\<exists>h'. take_block d h = Ok (b, h') \<and> heap_inv h' \<and> handed_out h size' b h'"
proof -
  obtain n where t: "take_block d h = Ok (b, set_free d bs (pg_round_down b) n h)" "hinv (set_free d bs (pg_round_down b) n h)"
      "unat n = on_page (pg_round_down b) bs" "\<not> live h b"
      "\<forall>c. live (set_free d bs (pg_round_down b) n h) c \<longleftrightarrow> live h c \<or> c = b"
    using take_block_ok [OF assms(1-3)] by blast
  let ?h = "set_free d bs (pg_round_down b) n h"
  note fl = lists_okD [OF hinvD(2) [OF assms(1)] assms(2)]
  obtain ar where ar: "arenas h (pg_round_down b) = Some ar" "desc ar = Some d"
    "b \<in> set (blocks (descs h ! d) (pg_round_down b))" using fl(3) [of b] assms(3) by auto
  have "on_page (pg_round_down b) (b # bs) \<le> unat (blocks_per_arena (descs h ! d))"
    using on_page_bound(1) [OF assms(1,2) arena_okD(3) [OF hinvD(4) [OF assms(1) ar(1)]]] assms(3) by simp
  then have n: "n < blocks_per_arena (descs h ! d)" using t(3) by (simp add: on_page_Cons word_less_nat_alt)
  have "settled ?h"
    unfolding settled_def
  proof (intro allI impI)
    fix a r e assume *: "arenas ?h a = Some r" "desc r = Some e"
    show "free_cnt r < blocks_per_arena (descs ?h ! e)"
    proof (cases "a = pg_round_down b")
      case True
      then show ?thesis using * ar n by (auto simp: set_free_desc [OF assms(2)])
    next
      case False
      then show ?thesis using * others by (auto simp: set_free_desc [OF assms(2)])
    qed
  qed
  moreover have "size' \<le> blen ?h b" using ar assms(4) by (simp add: blen_def set_free_desc [OF assms(2)])
  moreover have "b \<noteq> 0" by (rule live_nonzero [OF t(2)]) (use t(5) in simp)
  ultimately show ?thesis
    using t set_free_len_live [OF assms(1) ar(1,2)] by (auto simp: heap_inv_def handed_out_def)
qed

lemma big_size:
  assumes "unat size' + 4107 < 2 ^ 32" "size' \<noteq> 0"
  defines "n \<equiv> DIV_ROUND_UP (size' + SIZEOF_ARENA) PGSIZE"
  shows "n \<noteq> 0" "unat size' + 12 \<le> 4096 * unat n"
proof -
  have "unat (size' + 12 + 4095) = unat size' + 4107"
    using assms(1) by (subst unat_add_lem [THEN iffD1], simp_all add: unat_add_lem [THEN iffD1])
  moreover have "n = (size' + 12 + 4095) div 4096" by (simp add: n_def DIV_ROUND_UP_def SIZEOF_ARENA_def PGSIZE_def)
  ultimately have n: "unat n = (unat size' + 4107) div 4096" by (simp only: unat_div) simp
  then show u: "unat size' + 12 \<le> 4096 * unat n"
    using div_mult_mod_eq [of "unat size' + 4107" 4096] mod_less_divisor [of 4096 "unat size' + 4107"] by linarith
  then show "n \<noteq> 0" by auto
qed

lemma malloc_big_ok:
  assumes "heap_inv h" "unat size' + 4107 < 2 ^ 32" "size' \<noteq> 0"
  shows "(\<exists>b h'. malloc_big size' h = Ok (b, h') \<and> heap_inv h' \<and> handed_out h size' b h') \<or>
    malloc_big size' h = Ok (0, h) \<and> no_room (kernel_pool (pg h)) (DIV_ROUND_UP (size' + SIZEOF_ARENA) PGSIZE)"
proof -
  define n where "n = DIV_ROUND_UP (size' + SIZEOF_ARENA) PGSIZE"
  note n = big_size [OF assms(2,3), folded n_def]
  have h: "hinv h" "settled h" using assms(1) by (simp_all add: heap_inv_def)
  show ?thesis
    using hinvD(1) [OF h(1)] n(1)
  proof (cases rule: palloc_kernel)
    case (room a p)
    let ?r = "\<lparr>magic = ARENA_MAGIC, desc = None, free_cnt = n\<rparr>"
    define h' where "h' = h\<lparr>pg := p, arenas := (arenas h)(a \<mapsto> ?r)\<rparr>"
    note add = add_big [OF h(1) room(2) n(1) room(5,6,3,4), folded h'_def]
    have f: "arenas h a = None" by (rule fresh_arena [OF h(1) n(1) room(5)])
    have a: "arenas h' a = Some ?r" by (simp add: h'_def)
    have "unat size' \<le> unat (blen h' (a + SIZEOF_ARENA))"
      using big_len(1) [OF add(1) a] n(2) big_place(1) [OF room(4)] a by (simp add: blen_def)
    moreover have "settled h'" using h(2) by (auto simp: settled_def h'_def)
    moreover have "blen h' c = blen h c" if "live h c" for c
    proof -
      have "pg_round_down c \<noteq> a" using that f by (auto simp: live_def)
      then show ?thesis by (simp add: blen_def h'_def split: option.splits)
    qed
    moreover have "a + SIZEOF_ARENA \<noteq> 0" by (rule live_nonzero [OF add(1)]) (use add(2) in simp)
    moreover have "malloc_big size' h = Ok (a + SIZEOF_ARENA, h')"
      using room(1,3) by (simp add: malloc_big_def n_def [symmetric] h'_def)
    ultimately show ?thesis using add room(7)
      by (intro disjI1) (auto simp: heap_inv_def handed_out_def word_le_nat_alt h'_def)
  next
    case full
    then show ?thesis by (simp add: malloc_big_def n_def)
  qed
qed

text \<open>The number of pages a request takes from the page allocator when no free block serves it.\<close>

definition pages_for :: "heap \<Rightarrow> u32 \<Rightarrow> u32" where
  "pages_for h size' = (if find_desc (descs h) size' = length (descs h)
    then DIV_ROUND_UP (size' + SIZEOF_ARENA) PGSIZE else 1)"

lemma malloc_ok:
  assumes "heap_inv h" "unat size' + 4107 < 2 ^ 32" "size' \<noteq> 0"
  shows "(\<exists>b h'. malloc size' h = Ok (b, h') \<and> heap_inv h' \<and> handed_out h size' b h') \<or>
    malloc size' h = Ok (0, h) \<and> no_room (kernel_pool (pg h)) (pages_for h size')"
proof -
  define d where "d = find_desc (descs h) size'"
  have h: "hinv h" "settled h" using assms(1) by (simp_all add: heap_inv_def)
  consider (big) "d = length (descs h)" | (new) "d < length (descs h)" "free_list (descs h ! d) = []"
    | (old) b bs where "d < length (descs h)" "free_list (descs h ! d) = b # bs"
    using find_desc_le [of "descs h" size'] by (cases "free_list (descs h ! d)") (auto simp: d_def le_less)
  then show ?thesis
  proof cases
    case big
    then show ?thesis using malloc_big_ok [OF assms] assms(3) by (simp add: malloc_def d_def pages_for_def)
  next
    case old
    from take_block_handed_out [OF h(1) old, of size'] find_desc_fits [of "descs h" size'] old(1) h(2)
    obtain h' where h': "take_block d h = Ok (b, h')" "heap_inv h'" "handed_out h size' b h'"
      by (auto simp: d_def settled_def)
    then have "malloc size' h = Ok (b, h')" using old assms(3) by (simp add: malloc_def d_def [symmetric])
    with h' show ?thesis by blast
  next
    case new
    from new_arena_ok [OF h(1) new] show ?thesis
    proof (elim disjE exE conjE, goal_cases)
      case (1 h1 b bs)
      have "free_cnt ar < blocks_per_arena (descs h1 ! e)"
        if *: "arenas h1 a = Some ar" "desc ar = Some e" "a \<noteq> pg_round_down b" for a ar e
      proof -
        have "arenas h a = Some ar" using 1(9) * by blast
        with h(2) *(2) have "free_cnt ar < blocks_per_arena (descs h ! e)" unfolding settled_def by blast
        then show ?thesis using 1(10,11) by (cases "e = d") simp_all
      qed
      moreover have "size' \<le> block_size (descs h1 ! d)" using find_desc_fits [of "descs h" size'] new(1) 1(7) by (simp add: d_def)
      ultimately obtain h' where h': "take_block d h1 = Ok (b, h')" "heap_inv h'" "handed_out h1 size' b h'"
        using take_block_handed_out [OF 1(2) _ 1(6), of size'] 1(5) new(1) by auto
      have "malloc size' h = Ok (b, h')" using new 1(1) h'(1) assms(3) by (simp add: malloc_def d_def [symmetric])
      moreover have "handed_out h size' b h'" using h'(3) 1(3,4,8) by (auto simp: handed_out_def)
      ultimately show ?case using h'(2) by blast
    next
      case 2
      then show ?case using new assms(3) by (simp add: malloc_def d_def [symmetric] pages_for_def)
    qed
  qed
qed

section \<open>Release\<close>

definition put_mem :: "(u32 \<Rightarrow> u8) \<Rightarrow> heap \<Rightarrow> heap" where
  "put_mem m h = h\<lparr>pg := (pg h)\<lparr>mem := m\<rparr>\<rparr>"

lemma put_mem_simps [simp]:
  "arenas (put_mem m h) = arenas h" "descs (put_mem m h) = descs h" "kernel_pool (pg (put_mem m h)) = kernel_pool (pg h)"
  "mem (pg (put_mem m h)) = m"
  "palloc_inv (pg (put_mem m h)) = palloc_inv (pg h)" "live (put_mem m h) c = live h c" "blen (put_mem m h) c = blen h c"
  by (simp_all add: put_mem_def palloc_inv_def live_def blen_def split: option.splits)

lemma put_mem_hinv [simp]: "hinv (put_mem m h) = hinv h"
  unfolding hinv_def lists_ok_def apart_def arena_ok_def put_mem_simps ..

text \<open>What a call of \<open>free\<close> does.\<close>

definition given_back :: "heap \<Rightarrow> u32 \<Rightarrow> heap \<Rightarrow> bool" where
  "given_back h b h' \<longleftrightarrow> (\<forall>c. live h' c \<longleftrightarrow> live h c \<and> c \<noteq> b) \<and>
    (\<forall>c. live h' c \<longrightarrow> blen h' c = blen h c \<and> (\<forall>y. unat y \<in> region h c \<longrightarrow> mem (pg h') y = mem (pg h) y))"

lemma mem_fill_other:
  assumes "unat y < unat a \<or> unat a + unat n \<le> unat y" "unat a + unat n \<le> 2 ^ 32"
  shows "mem_fill m a v n y = m y"
proof -
  have "\<not> y - a < n"
  proof (cases "unat y < unat a")
    case True
    then have "unat (y - a) = 2 ^ 32 + unat y - unat a" by (simp add: unat_sub_if' word_le_nat_alt)
    then show ?thesis using assms(2) True by (simp add: word_less_nat_alt)
  next
    case False
    then have "unat (y - a) = unat y - unat a" by (simp add: unat_sub word_le_nat_alt)
    then show ?thesis using assms(1) False by (simp add: word_less_nat_alt)
  qed
  then show ?thesis by (simp add: mem_fill_def)
qed

lemma mem_fill_block:
  assumes "hinv h" "live h b" "live h c" "b \<noteq> c" "unat y \<in> region h c"
  shows "mem_fill m b v (blen h b) y = m y"
proof (rule mem_fill_other)
  obtain ar where "arenas h (pg_round_down b) = Some ar" using assms(2) by (auto simp: live_def split: option.splits)
  then show "unat b + unat (blen h b) \<le> 2 ^ 32" by (rule region_in_extent(2) [OF assms(1,2)])
  have "unat y \<notin> region h b" using live_regions [OF assms(1-4)] assms(5) by blast
  then show "unat y < unat b \<or> unat b + unat (blen h b) \<le> unat y" by (auto simp: region_def)
qed

lemma mem_fill_pages:
  assumes "hinv h" "arenas h a = Some ar" "live h c" "pg_round_down c \<noteq> a" "unat y \<in> region h c"
    "n = (if desc ar = None then free_cnt ar else 1)"
  shows "mem_fill m a v (PGSIZE * n) y = m y"
proof (rule mem_fill_other)
  obtain r where r: "arenas h (pg_round_down c) = Some r" using assms(3) by (auto simp: live_def split: option.splits)
  note ok = arena_okD [OF hinvD(4) [OF assms(1,2)]]
  have p: "pool_inv (kernel_pool (pg h))" using hinvD(1) [OF assms(1)] by (simp add: palloc_inv_def)
  have n: "n \<noteq> 0" "page_group a n \<subseteq> pool_used (kernel_pool (pg h))" using ok(4,7) assms(6) by (auto simp: extent_def)
  note g = pages_in_pool [OF p n(2,1)]
  note a = aligned_first_page [OF ok(3)]
  show "unat a + unat (PGSIZE * n) \<le> 2 ^ 32" using g a by simp
  have "unat y div 4096 \<notin> page_group a n"
    using region_in_extent(1) [OF assms(1,3) r] assms(4-6) hinvD(3) [OF assms(1)] r assms(2)
    by (fastforce simp: apart_def bytes_of_def extent_def)
  then show "unat y < unat a \<or> unat a + unat (PGSIZE * n) \<le> unat y"
    unfolding g(2) a page_group_def by (auto simp: not_le div_less_iff_less_mult less_eq_div_iff_mult_less_eq)
qed

lemma drop_settled:
  assumes "hinv h" "\<forall>b ar d. arenas h b = Some ar \<longrightarrow> desc ar = Some d \<longrightarrow> b \<noteq> a \<longrightarrow>
    free_cnt ar < blocks_per_arena (descs h ! d)"
  shows "settled (drop_arena p a h)"
  unfolding settled_def
proof (intro allI impI)
  fix b ar d assume "arenas (drop_arena p a h) b = Some ar" "desc ar = Some d"
  then have b: "arenas h b = Some ar" "b \<noteq> a" "desc ar = Some d" by (auto simp: drop_arena_def split: if_splits)
  have "d < length (descs h)" by (rule arena_okD(5) [OF hinvD(4) [OF assms(1) b(1)] b(3)])
  then show "free_cnt ar < blocks_per_arena (descs (drop_arena p a h) ! d)"
    using assms(2) b by (simp add: drop_arena_def)
qed

lemma drop_len:
  assumes "hinv h" "live h c" "pg_round_down c \<noteq> a"
  shows "blen (drop_arena p a h) c = blen h c"
proof -
  obtain r where r: "arenas h (pg_round_down c) = Some r" using assms(2) by (auto simp: live_def split: option.splits)
  have "d < length (descs h)" if "desc r = Some d" for d
    by (rule arena_okD(5) [OF hinvD(4) [OF assms(1) r] that])
  then show ?thesis using r assms(3) by (cases "desc r") (simp_all add: blen_def drop_arena_def)
qed

lemma free_big_ok:
  assumes "heap_inv h" "arenas h a = Some ar" "desc ar = None"
  shows "\<exists>h'. free (a + SIZEOF_ARENA) h = Ok h' \<and> heap_inv h' \<and> given_back h (a + SIZEOF_ARENA) h'"
proof -
  have h: "hinv h" "settled h" using assms(1) by (simp_all add: heap_inv_def)
  note ok = arena_okD [OF hinvD(4) [OF h(1) assms(2)]]
  note place = big_place [OF ok(3)]
  have nz: "a + SIZEOF_ARENA \<noteq> 0" using place(3) by auto
  have ext: "extent a ar = page_group a (free_cnt ar)" using assms(3) by (simp add: extent_def)
  obtain p where p: "palloc_free_multiple a (free_cnt ar) (pg h) = Ok p" "palloc_inv p"
      "pool_used (kernel_pool p) = pool_used (kernel_pool (pg h)) - extent a ar"
      "mem p = mem_fill (mem (pg h)) a 0xCC (PGSIZE * free_cnt ar)"
    using palloc_free_ok [OF hinvD(1) [OF h(1)] ok(7) [OF assms(3)] ok(2,3), of 0] ok(4) ext by auto
  have "map (keep_off a) (descs h) = descs h"
    by (rule map_idI) (use keep_off_other [OF h(1) assms(2)] assms(3) in \<open>auto simp: in_set_conv_nth\<close>)
  then have e: "h\<lparr>pg := p, arenas := (arenas h)(a := None)\<rparr> = drop_arena p a h" by (simp add: drop_arena_def)
  note d = drop_arena_hinv [OF h(1) assms(2) p(2,3)]
  have "free (a + SIZEOF_ARENA) h = Ok (drop_arena p a h)"
    using block_to_arena_big [OF assms(2) ok(1-3) assms(3)] assms(3) p(1) nz by (simp add: free_def e [symmetric])
  moreover have "settled (drop_arena p a h)"
    by (rule drop_settled [OF h(1)]) (use h(2) in \<open>auto simp: settled_def\<close>)
  moreover have "given_back h (a + SIZEOF_ARENA) (drop_arena p a h)"
    unfolding given_back_def
  proof (intro conjI allI impI)
    fix c
    have "live h c \<Longrightarrow> pg_round_down c = a \<longleftrightarrow> c = a + SIZEOF_ARENA" using assms(2,3) place(1) by (auto simp: live_def)
    then show "live (drop_arena p a h) c \<longleftrightarrow> live h c \<and> c \<noteq> a + SIZEOF_ARENA" using d(2) by blast
    assume "live (drop_arena p a h) c"
    then have c: "live h c" "pg_round_down c \<noteq> a" using d(2) by blast+
    show "blen (drop_arena p a h) c = blen h c" by (rule drop_len [OF h(1) c])
    show "mem (pg (drop_arena p a h)) y = mem (pg h) y" if "unat y \<in> region h c" for y
      using mem_fill_pages [OF h(1) assms(2) c that, of "free_cnt ar"] assms(3) p(4) by (simp add: drop_arena_def)
  qed
  ultimately show ?thesis using d(1) by (auto simp: heap_inv_def)
qed

lemma push_free_ok:
  assumes "heap_inv h" "arenas h a = Some ar" "desc ar = Some d" "live h b" "pg_round_down b = a"
  defines "h1 \<equiv> set_free d (b # free_list (descs h ! d)) a (free_cnt ar + 1) h"
  shows "hinv h1" "\<forall>c. live h1 c \<longleftrightarrow> live h c \<and> c \<noteq> b" "unat (free_cnt ar + 1) = on_page a (free_list (descs h1 ! d))"
    "free_list (descs h1 ! d) = b # free_list (descs h ! d)"
    "unat (free_cnt ar + 1) \<le> unat (blocks_per_arena (descs h ! d))"
proof -
  have h: "hinv h" "settled h" using assms(1) by (simp_all add: heap_inv_def)
  note ok = arena_okD [OF hinvD(4) [OF h(1) assms(2)]]
  note d = ok(5) [OF assms(3)]
  have b: "b \<in> set (blocks (descs h ! d) a)" "b \<notin> set (free_list (descs h ! d))"
    using live_small [of h b ar d] assms(2-5) by auto
  have "free_cnt ar < blocks_per_arena (descs h ! d)" using h(2) assms(2,3) by (auto simp: settled_def)
  then have n: "unat (free_cnt ar + 1) = Suc (unat (free_cnt ar))"
    using unsigned_less [of "blocks_per_arena (descs h ! d)", where ?'a = nat]
    by (subst unat_add_lem [THEN iffD1]) (auto simp: word_less_nat_alt)
  then show "unat (free_cnt ar + 1) \<le> unat (blocks_per_arena (descs h ! d))"
    using \<open>free_cnt ar < blocks_per_arena (descs h ! d)\<close> by (simp add: word_less_nat_alt)
  have o: "unat (free_cnt ar + 1) = on_page a (b # free_list (descs h ! d))"
    using n ok(6) [OF assms(3)] assms(5) by (simp add: on_page_Cons)
  show fl: "free_list (descs h1 ! d) = b # free_list (descs h ! d)" by (simp add: h1_def set_free_desc [OF d])
  show "unat (free_cnt ar + 1) = on_page a (free_list (descs h1 ! d))" using o fl by simp
  show "hinv h1"
    unfolding h1_def by (rule set_free_hinv [OF h(1) assms(2,3)])
      (use b o lists_okD(2) [OF hinvD(2) [OF h(1)] d] assms(5) in \<open>auto simp: on_page_Cons\<close>)
  show "\<forall>c. live h1 c \<longleftrightarrow> live h c \<and> c \<noteq> b"
    using set_free_give [OF h(1), of b ar d] assms(2,3,5) by (auto simp: h1_def)
qed

lemma remove_arena_ok:
  assumes "hinv h" "arenas h a = Some ar" "desc ar = Some d" "on_page a (free_list (descs h ! d)) = unat (blocks_per_arena (descs h ! d))"
  shows "\<exists>h2 p. remove_blocks (unat (blocks_per_arena (descs h ! d))) 0 a d h = Ok h2 \<and> palloc_free_page a (pg h2) = Ok p \<and>
    h2\<lparr>pg := p, arenas := (arenas h2)(a := None)\<rparr> = drop_arena p a h \<and> hinv (drop_arena p a h) \<and>
    (\<forall>c. live (drop_arena p a h) c \<longleftrightarrow> live h c) \<and> (\<forall>c. live h c \<longrightarrow> pg_round_down c \<noteq> a) \<and>
    mem p = mem_fill (mem (pg h)) a 0xCC (PGSIZE * 1)"
proof -
  let ?x = "descs h ! d"
  note ok = arena_okD [OF hinvD(4) [OF assms(1,2)]]
  note d = ok(5) [OF assms(3)]
  note fl = lists_okD [OF hinvD(2) [OF assms(1)] d]
  define h2 where "h2 = upd_desc d (keep_off a) h"
  have "filter (\<lambda>b. b \<notin> set (blocks ?x a)) (free_list ?x) = filter (\<lambda>b. pg_round_down b \<noteq> a) (free_list ?x)"
    using fl(3) blocks_page [OF ok(3) fl(1)] by (intro filter_cong) auto
  then have f: "fold remove1 (map (blk ?x a) [0..<0 + unat (blocks_per_arena ?x)]) (free_list ?x) =
      filter (\<lambda>b. pg_round_down b \<noteq> a) (free_list ?x)"
    using fold_remove1 [OF fl(2), of "blocks ?x a"] by (simp add: blocks_def)
  have r: "remove_blocks (unat (blocks_per_arena ?x)) 0 a d h = Ok h2"
    unfolding h2_def upd_desc_def keep_off_def f [symmetric]
    by (subst remove_blocks_ok [OF assms(2) ok(2,1) assms(3) d]) (simp_all add: upd_desc_def)
  have ext: "extent a ar = page_group a 1" using assms(3) by (simp add: extent_def)
  obtain p where p: "palloc_free_multiple a 1 (pg h) = Ok p" "palloc_inv p"
      "pool_used (kernel_pool p) = pool_used (kernel_pool (pg h)) - extent a ar"
      "mem p = mem_fill (mem (pg h)) a 0xCC (PGSIZE * 1)"
    using palloc_free_ok [OF hinvD(1) [OF assms(1)] one_u32 ok(2,3), of 0] ok(4) ext by auto
  have "(descs h)[d := keep_off a ?x] = map (keep_off a) (descs h)"
    by (rule nth_equalityI) (use keep_off_other [OF assms(1,2)] assms(3) d in \<open>auto simp: nth_list_update\<close>)
  then have e: "h2\<lparr>pg := p, arenas := (arenas h2)(a := None)\<rparr> = drop_arena p a h"
    by (simp add: h2_def upd_desc_def drop_arena_def)
  note dr = drop_arena_hinv [OF assms(1,2) p(2,3)]
  have "set (blocks ?x a) \<subseteq> set (free_list ?x)" by (rule on_page_bound(2) [OF assms(1) d ok(3) assms(4)])
  then have "pg_round_down c \<noteq> a" if "live h c" for c using that live_small [of h c ar d] assms(2,3) by auto
  then show ?thesis using r p e dr by (auto simp: palloc_free_page_def h2_def)
qed

lemma free_small_step:
  assumes "b \<noteq> 0" "block_to_arena h b = Ok (a, ar)" "desc ar = Some d"
  defines "x \<equiv> descs h ! d" and "n \<equiv> free_cnt ar + 1"
  defines "h1 \<equiv> set_free d (b # free_list x) a n (put_mem (mem_fill (mem (pg h)) b 0xCC (block_size x)) h)"
  shows "free b h = (if n \<ge> blocks_per_arena x then
    assert (n = blocks_per_arena x)
      (bind (remove_blocks (unat (blocks_per_arena x)) 0 a d h1) (\<lambda>h.
       bind (palloc_free_page a (pg h)) (\<lambda>p. Ok (h\<lparr>pg := p, arenas := (arenas h)(a := None)\<rparr>))))
    else Ok h1)"
  using assms(1-3) by (simp add: free_def Let_def h1_def n_def x_def set_free_def put_mem_def upd_desc_def)

lemma set_free_settled:
  assumes "settled h" "d < length (descs h)"
  shows "\<forall>c ar e. arenas (set_free d l a n h) c = Some ar \<longrightarrow> desc ar = Some e \<longrightarrow> c \<noteq> a \<longrightarrow>
    free_cnt ar < blocks_per_arena (descs (set_free d l a n h) ! e)"
  using assms(1) by (auto simp: settled_def set_free_desc [OF assms(2)])

definition pushed :: "heap \<Rightarrow> u32 \<Rightarrow> u32 \<Rightarrow> arena \<Rightarrow> nat \<Rightarrow> heap" where
  "pushed h b a ar d = set_free d (b # free_list (descs h ! d)) a (free_cnt ar + 1)
    (put_mem (mem_fill (mem (pg h)) b 0xCC (block_size (descs h ! d))) h)"

lemma pushed_facts:
  assumes "heap_inv h" "arenas h a = Some ar" "desc ar = Some d" "live h b" "pg_round_down b = a"
  defines "h1 \<equiv> pushed h b a ar d"
  shows "hinv h1" "\<forall>c. live h1 c \<longleftrightarrow> live h c \<and> c \<noteq> b" "arenas h1 a = Some (ar\<lparr>free_cnt := free_cnt ar + 1\<rparr>)"
    "unat (free_cnt ar + 1) = on_page a (free_list (descs h1 ! d))"
    "unat (free_cnt ar + 1) \<le> unat (blocks_per_arena (descs h ! d))"
    "blocks_per_arena (descs h1 ! d) = blocks_per_arena (descs h ! d)"
    "\<forall>c r e. arenas h1 c = Some r \<longrightarrow> desc r = Some e \<longrightarrow> c \<noteq> a \<longrightarrow> free_cnt r < blocks_per_arena (descs h1 ! e)"
    "\<forall>c. live h c \<longrightarrow> blen h1 c = blen h c"
    "\<forall>c y. live h c \<longrightarrow> c \<noteq> b \<longrightarrow> unat y \<in> region h c \<longrightarrow> mem (pg h1) y = mem (pg h) y"
proof -
  have h: "hinv h" "settled h" using assms(1) by (simp_all add: heap_inv_def)
  note d = arena_okD(5) [OF hinvD(4) [OF h(1) assms(2)] assms(3)]
  define h0 where "h0 = put_mem (mem_fill (mem (pg h)) b 0xCC (block_size (descs h ! d))) h"
  have d0: "d < length (descs h0)" using d by (simp add: h0_def)
  have h0: "heap_inv h0" "arenas h0 a = Some ar" "live h0 b" "descs h0 = descs h"
    using assms(2-4) h by (simp_all add: h0_def heap_inv_def settled_def)
  have h1: "h1 = set_free d (b # free_list (descs h ! d)) a (free_cnt ar + 1) h0" by (simp add: h1_def pushed_def h0_def)
  note p = push_free_ok [OF h0(1,2) assms(3) h0(3) assms(5), unfolded h0(4), folded h1]
  show "hinv h1" "\<forall>c. live h1 c \<longleftrightarrow> live h c \<and> c \<noteq> b" "unat (free_cnt ar + 1) = on_page a (free_list (descs h1 ! d))"
    "unat (free_cnt ar + 1) \<le> unat (blocks_per_arena (descs h ! d))" using p by (simp_all add: h0_def)
  show "arenas h1 a = Some (ar\<lparr>free_cnt := free_cnt ar + 1\<rparr>)" by (simp add: h1 h0(2))
  show "blocks_per_arena (descs h1 ! d) = blocks_per_arena (descs h ! d)" using d0 by (simp add: h1 set_free_desc h0_def)
  show "\<forall>c r e. arenas h1 c = Some r \<longrightarrow> desc r = Some e \<longrightarrow> c \<noteq> a \<longrightarrow> free_cnt r < blocks_per_arena (descs h1 ! e)"
    unfolding h1 using set_free_settled [OF _ d0] h0(1) by (simp add: heap_inv_def)
  show "\<forall>c. live h c \<longrightarrow> blen h1 c = blen h c"
    using set_free_len_live [of h0 a ar d] h0 assms(3) by (simp add: h1 heap_inv_def h0_def)
  have "block_size (descs h ! d) = blen h b" using assms(2,3,5) by (simp add: blen_def)
  then show "\<forall>c y. live h c \<longrightarrow> c \<noteq> b \<longrightarrow> unat y \<in> region h c \<longrightarrow> mem (pg h1) y = mem (pg h) y"
    using mem_fill_block [OF h(1) assms(4)] by (auto simp: h1 h0_def)
qed

lemma drop_given_back:
  assumes h1: "hinv h1" "arenas h1 a = Some x" "desc x = Some d" "\<forall>c. live h1 c \<longleftrightarrow> live h c \<and> c \<noteq> b"
      "\<forall>c. live h c \<longrightarrow> blen h1 c = blen h c"
      "\<forall>c y. live h c \<longrightarrow> c \<noteq> b \<longrightarrow> unat y \<in> region h c \<longrightarrow> mem (pg h1) y = mem (pg h) y"
    and q: "\<forall>c. live (drop_arena q a h1) c \<longleftrightarrow> live h1 c" "\<forall>c. live h1 c \<longrightarrow> pg_round_down c \<noteq> a"
      "mem q = mem_fill (mem (pg h1)) a 0xCC (PGSIZE * 1)"
  shows "given_back h b (drop_arena q a h1)"
  unfolding given_back_def
proof (intro conjI allI impI)
  fix c
  show "live (drop_arena q a h1) c \<longleftrightarrow> live h c \<and> c \<noteq> b" using q(1) h1(4) by simp
  assume "live (drop_arena q a h1) c"
  then have c: "live h1 c" "pg_round_down c \<noteq> a" "live h c" "c \<noteq> b" using q(1,2) h1(4) by auto
  show "blen (drop_arena q a h1) c = blen h c" using drop_len [OF h1(1) c(1,2)] h1(5) c(3) by simp
  show "mem (pg (drop_arena q a h1)) y = mem (pg h) y" if y: "unat y \<in> region h c" for y
  proof -
    have "unat y \<in> region h1 c" using y h1(5) c(3) by (simp add: region_def)
    then have "mem_fill (mem (pg h1)) a 0xCC (PGSIZE * 1) y = mem (pg h1) y"
      by (rule mem_fill_pages [OF h1(1,2) c(1,2)]) (simp add: h1(3))
    then show ?thesis using q(3) h1(6) c(3,4) y by (simp add: drop_arena_def)
  qed
qed

lemma free_small_ok:
  assumes "heap_inv h" "arenas h a = Some ar" "desc ar = Some d" "live h b" "pg_round_down b = a"
  shows "\<exists>h'. free b h = Ok h' \<and> heap_inv h' \<and> given_back h b h'"
proof -
  have h: "hinv h" using assms(1) by (simp add: heap_inv_def)
  note ok = arena_okD [OF hinvD(4) [OF h assms(2)]]
  define h1 where "h1 = pushed h b a ar d"
  note p = pushed_facts [OF assms, folded h1_def]
  have b: "b \<in> set (blocks (descs h ! d) a)" using live_small [of h b ar d] assms(2-5) by auto
  have "block_to_arena h b = Ok (a, ar)"
    by (rule block_to_arena_small [OF assms(2) ok(1-3) assms(3) lists_okD(1) [OF hinvD(2) [OF h] ok(5) [OF assms(3)]] b])
  note step = free_small_step [OF live_nonzero [OF h assms(4)] this assms(3), folded pushed_def, folded h1_def]
  have ds: "desc (ar\<lparr>free_cnt := free_cnt ar + 1\<rparr>) = Some d" using assms(3) by simp
  show ?thesis
  proof (cases "free_cnt ar + 1 \<ge> blocks_per_arena (descs h ! d)")
    case False
    have "settled h1"
      unfolding settled_def
    proof (intro allI impI)
      fix c r e assume "arenas h1 c = Some r" "desc r = Some e"
      then show "free_cnt r < blocks_per_arena (descs h1 ! e)" using False p(3,6,7) ds by (cases "c = a") auto
    qed
    moreover have "given_back h b h1" using p(2,8,9) by (auto simp: given_back_def)
    ultimately show ?thesis using step False p(1) by (auto simp: heap_inv_def)
  next
    case True
    then have n: "free_cnt ar + 1 = blocks_per_arena (descs h ! d)"
      using p(5) by (simp add: word_le_nat_alt word_unat_eq_iff)
    have full: "on_page a (free_list (descs h1 ! d)) = unat (blocks_per_arena (descs h1 ! d))" using p(4,6) n by simp
    obtain h2 q where q: "remove_blocks (unat (blocks_per_arena (descs h ! d))) 0 a d h1 = Ok h2" "palloc_free_page a (pg h2) = Ok q"
        "h2\<lparr>pg := q, arenas := (arenas h2)(a := None)\<rparr> = drop_arena q a h1" "hinv (drop_arena q a h1)"
        "\<forall>c. live (drop_arena q a h1) c \<longleftrightarrow> live h1 c" "\<forall>c. live h1 c \<longrightarrow> pg_round_down c \<noteq> a"
        "mem q = mem_fill (mem (pg h1)) a 0xCC (PGSIZE * 1)"
      using remove_arena_ok [OF p(1,3) ds full] unfolding p(6) by blast
    have "free b h = Ok (drop_arena q a h1)" using step True n q(1-3) by simp
    moreover have "settled (drop_arena q a h1)" by (rule drop_settled [OF p(1,7)])
    moreover have "given_back h b (drop_arena q a h1)" by (rule drop_given_back [OF p(1,3) ds p(2,8,9) q(5-7)])
    ultimately show ?thesis using q(4) by (auto simp: heap_inv_def)
  qed
qed

lemma free_ok:
  assumes "heap_inv h" "live h b"
  shows "\<exists>h'. free b h = Ok h' \<and> heap_inv h' \<and> given_back h b h'"
proof -
  have h: "hinv h" using assms(1) by (simp add: heap_inv_def)
  show ?thesis
    using h assms(2)
  proof (cases rule: live_cases)
    case (small a ar d i)
    then show ?thesis using free_small_ok [OF assms(1) small(1,3) assms(2)] by simp
  next
    case (big a ar)
    then show ?thesis using free_big_ok [OF assms(1) big(1,3)] by simp
  qed
qed

section \<open>Zeroed and moved blocks\<close>

lemma put_mem_heap_inv [simp]: "heap_inv (put_mem m h) = heap_inv h"
  by (simp add: heap_inv_def settled_def)

lemma outside_block:
  assumes "hinv h" "live h b" "live h c" "b \<noteq> c" "unat y \<in> region h c" "n \<le> blen h b"
  shows "\<not> y - b < n"
proof
  assume "y - b < n"
  then have "y - b < blen h b" using assms(6) by simp
  moreover have "mem_fill (\<lambda>_. 0) b 1 (blen h b) y = 0" by (rule mem_fill_block [OF assms(1-5)])
  ultimately show False by (simp add: mem_fill_def)
qed

lemma calloc_ok:
  assumes "heap_inv h" "a \<noteq> 0" "b \<noteq> 0" "unat a * unat b + 4107 < 2 ^ 32"
  shows "(\<exists>p h'. calloc a b h = Ok (p, h') \<and> heap_inv h' \<and> p \<noteq> 0 \<and> \<not> live h p \<and> (\<forall>c. live h' c \<longleftrightarrow> live h c \<or> c = p) \<and>
      unat a * unat b \<le> unat (blen h' p) \<and> (\<forall>i. unat i < unat a * unat b \<longrightarrow> mem (pg h') (p + i) = 0) \<and>
      (\<forall>c y. live h c \<longrightarrow> unat y \<in> region h c \<longrightarrow> mem (pg h') y = mem (pg h) y)) \<or>
    calloc a b h = Ok (0, h) \<and> no_room (kernel_pool (pg h)) (pages_for h (a * b))"
proof -
  have u: "unat (a * b) = unat a * unat b" using assms(4) by (subst unat_mult_lem [THEN iffD1]) auto
  have nz: "0 < unat a" "0 < unat b" using assms(2,3) by (simp_all add: unat_gt_0)
  then have g: "\<not> a * b < a" "\<not> a * b < b" by (simp_all add: word_less_nat_alt u)
  have s: "unat (a * b) + 4107 < 2 ^ 32" "a * b \<noteq> 0" using assms(4) u nz by (auto simp: word_unat_eq_iff)
  from malloc_ok [OF assms(1) s] show ?thesis
  proof (elim disjE exE conjE, goal_cases)
    case (1 p h')
    note ho = 1(3) [unfolded handed_out_def]
    have h': "hinv h'" "live h' p" using 1(2) ho by (auto simp: heap_inv_def)
    let ?h = "put_mem (mem_fill (mem (pg h')) p 0 (a * b)) h'"
    have "calloc a b h = Ok (p, ?h)" using 1(1) g ho by (simp add: calloc_def put_mem_def)
    moreover have "mem (pg ?h) y = mem (pg h) y" if c: "live h c" "unat y \<in> region h c" for c y
    proof -
      have "region h' c = region h c" using ho c(1) by (simp add: region_def)
      then have "\<not> y - p < a * b" using outside_block [OF h', of c y "a * b"] ho c by auto
      then show ?thesis using ho by (simp add: mem_fill_def)
    qed
    ultimately show ?case using 1(2) ho u
      by (intro disjI1 exI [of _ p] exI [of _ ?h]) (auto simp: mem_fill_def word_less_nat_alt word_le_nat_alt)
  next
    case 2
    then show ?case using g by (simp add: calloc_def)
  qed
qed

lemma realloc_ok:
  assumes "heap_inv h" "live h old" "new_size \<noteq> 0" "unat new_size + 4107 < 2 ^ 32"
  shows "(\<exists>b h'. realloc old new_size h = Ok (b, h') \<and> heap_inv h' \<and> b \<noteq> 0 \<and> \<not> live h b \<and>
      (\<forall>c. live h' c \<longleftrightarrow> (live h c \<or> c = b) \<and> c \<noteq> old) \<and> new_size \<le> blen h' b \<and>
      (\<forall>i. i < new_size \<longrightarrow> i < blen h old \<longrightarrow> mem (pg h') (b + i) = mem (pg h) (old + i)) \<and>
      (\<forall>c y. live h c \<longrightarrow> c \<noteq> old \<longrightarrow> unat y \<in> region h c \<longrightarrow> mem (pg h') y = mem (pg h) y)) \<or>
    realloc old new_size h = Ok (0, h) \<and> no_room (kernel_pool (pg h)) (pages_for h new_size)"
  using malloc_ok [OF assms(1,4,3)]
proof (elim disjE exE conjE, goal_cases)
  case (1 b h1)
  note ho = 1(3) [unfolded handed_out_def]
  have h: "hinv h" using assms(1) by (simp add: heap_inv_def)
  have h1: "hinv h1" "live h1 b" "live h1 old" "b \<noteq> old" using 1(2) ho assms(2) by (auto simp: heap_inv_def)
  define n where "n = (if new_size < blen h old then new_size else blen h old)"
  define h2 where "h2 = put_mem (mem_copy (mem (pg h)) b old n) h1"
  have n: "n \<le> blen h1 b" using ho by (auto simp: n_def not_less intro: order_trans)
  have h2: "heap_inv h2" "live h2 old" using 1(2) h1(3) by (simp_all add: h2_def)
  obtain h3 where h3: "free old h2 = Ok h3" "heap_inv h3" "given_back h2 old h3" using free_ok [OF h2] by blast
  note gb = h3(3) [unfolded given_back_def]
  have run: "realloc old new_size h = Ok (b, h3)"
    using 1(1) assms(3) ho h3(1) block_len_live [OF h1(1,3)] live_nonzero [OF h assms(2)] assms(2)
    by (simp add: realloc_def Let_def n_def h2_def put_mem_def)
  have same: "live h3 c \<longleftrightarrow> (live h c \<or> c = b) \<and> c \<noteq> old" for c using gb ho by (simp add: h2_def)
  have m3: "mem (pg h3) y = mem_copy (mem (pg h)) b old n y" if "live h3 c" "unat y \<in> region h1 c" for c y
    using gb that by (simp add: h2_def region_def)
  have "mem (pg h3) (b + i) = mem (pg h) (old + i)" if "i < new_size" "i < blen h old" for i
  proof -
    have i: "i < n" using that by (simp add: n_def)
    obtain r where r: "arenas h1 (pg_round_down b) = Some r" using h1(2) by (auto simp: live_def split: option.splits)
    have "unat (b + i) = unat b + unat i"
      using i n region_in_extent(2) [OF h1(1,2) r]
      by (subst unat_add_lem [THEN iffD1]) (auto simp: word_less_nat_alt word_le_nat_alt)
    then have "unat (b + i) \<in> region h1 b" using i n by (auto simp: region_def word_less_nat_alt word_le_nat_alt)
    then show ?thesis using m3 [of b] same h1(4) i by (simp add: mem_copy_def)
  qed
  moreover have "mem (pg h3) y = mem (pg h) y" if c: "live h c" "c \<noteq> old" "unat y \<in> region h c" for c y
  proof -
    have y: "unat y \<in> region h1 c" using c ho by (simp add: region_def)
    moreover have "b \<noteq> c" using c(1) ho by auto
    ultimately have "\<not> y - b < n" using outside_block [OF h1(1,2) _ _ y n] ho c(1) by auto
    then show ?thesis using m3 [OF _ y] same c by (simp add: mem_copy_def)
  qed
  moreover have "new_size \<le> blen h3 b" using gb same h1(4) ho by (simp add: h2_def)
  ultimately show ?case using run h3(2) same ho by blast
next
  case 2
  then show ?case using assms(3) by (simp add: realloc_def)
qed

lemma find_desc_none: "\<forall>x\<in>set ds. block_size x < s \<Longrightarrow> find_desc ds s = length ds"
  by (induction ds) auto

lemma malloc_huge:
  assumes "heap_inv h" "\<forall>x\<in>set (descs h). block_size x < size'" "2 ^ 32 - 12 < unat size'" "\<not> no_room (kernel_pool (pg h)) 1"
  shows "\<exists>b h'. malloc size' h = Ok (b, h') \<and> live h' b \<and> unat (blen h' b) = 4084"
proof -
  have h: "hinv h" using assms(1) by (simp add: heap_inv_def)
  have lt: "unat size' < 2 ^ 32" using unsigned_less [of size', where ?'a = nat] by simp
  have "unat (size' + 4107) = unat size' + 4107 - 2 ^ 32"
    using assms(3) lt by (simp add: unat_word_ariths mod_if)
  then have "unat ((size' + 4107) div 4096) = 1" using assms(3) lt by (simp add: unat_div)
  moreover have "DIV_ROUND_UP (size' + SIZEOF_ARENA) PGSIZE = (size' + 4107) div 4096"
    by (simp add: DIV_ROUND_UP_def SIZEOF_ARENA_def PGSIZE_def add.commute)
  ultimately have n: "DIV_ROUND_UP (size' + SIZEOF_ARENA) PGSIZE = 1" by (simp add: word_unat_eq_iff)
  have m: "malloc size' h = malloc_big size' h"
    using find_desc_none [OF assms(2)] assms(3) by (auto simp: malloc_def)
  show ?thesis
    using hinvD(1) [OF h] one_u32
  proof (cases rule: palloc_kernel)
    case (room a p)
    let ?r = "\<lparr>magic = ARENA_MAGIC, desc = None, free_cnt = 1\<rparr>"
    define h' where "h' = h\<lparr>pg := p, arenas := (arenas h)(a \<mapsto> ?r)\<rparr>"
    note add = add_big [OF h room(2) one_u32 room(5,6,3,4), folded h'_def]
    have a: "arenas h' a = Some ?r" by (simp add: h'_def)
    have "malloc size' h = Ok (a + SIZEOF_ARENA, h')" using m room(1,3) by (simp add: malloc_big_def n h'_def)
    moreover have "unat (blen h' (a + SIZEOF_ARENA)) = 4084"
      using big_len(1) [OF add(1) a] big_place(1) [OF room(4)] a by (simp add: blen_def)
    ultimately show ?thesis using add(2) by blast
  next
    case full
    then show ?thesis using assms(4) by simp
  qed
qed

definition boot_descs :: "desc list" where
  "boot_descs = map (\<lambda>(s, n). \<lparr>block_size = s, blocks_per_arena = n, free_list = []\<rparr>)
    [(16, 255), (32, 127), (64, 63), (128, 31), (256, 15), (512, 7), (1024, 3)]"

definition boot_heap :: "pages \<Rightarrow> heap" where
  "boot_heap p = \<lparr>pg = p, arenas = (\<lambda>_. None), descs = boot_descs\<rparr>"

lemma malloc_init_boot: "malloc_init p = Ok (boot_heap p)"
proof -
  have "malloc_init_loop 33 16 [] = Ok boot_descs" by code_simp
  then show ?thesis by (simp add: malloc_init_def boot_heap_def)
qed

lemma boot_heap_inv: "palloc_inv p \<Longrightarrow> heap_inv (boot_heap p) \<and> \<not> live (boot_heap p) c"
proof -
  assume p: "palloc_inv p"
  have "list_all (\<lambda>x. desc_ok x \<and> free_list x = []) boot_descs" by code_simp
  then have "\<forall>d<length boot_descs. desc_ok (boot_descs ! d) \<and> free_list (boot_descs ! d) = []"
    by (auto simp: list_all_length)
  then show ?thesis using p
    by (auto simp: heap_inv_def hinv_def settled_def lists_ok_def apart_def boot_heap_def live_def)
qed

section \<open>The properties\<close>

text \<open>
  C38: The memory allocator is safe.  It starts with no block handed out.  In every well-formed heap, blocks handed
  out never overlap; \<open>malloc\<close> either returns a new block of at least the requested size and leaves every other
  block its place, its size and its contents, or returns null because no free block serves and the page allocator
  has no room; and \<open>free\<close> of a block handed out never fails an assertion, takes back exactly that block, and
  leaves the contents of every other block as they were.  The sizes are those whose rounding up to pages does not wrap.
\<close>

theorem malloc_free_safe:
  assumes "heap_inv h"
  shows "(\<forall>p. palloc_inv p \<longrightarrow> (\<exists>h0. malloc_init p = Ok h0 \<and> heap_inv h0 \<and> (\<forall>c. \<not> live h0 c))) \<and>
    (\<forall>b c. live h b \<longrightarrow> live h c \<longrightarrow> b \<noteq> c \<longrightarrow> region h b \<inter> region h c = {}) \<and>
    (\<forall>s. s \<noteq> 0 \<longrightarrow> unat s + 4107 < 2 ^ 32 \<longrightarrow>
      (\<exists>b h'. malloc s h = Ok (b, h') \<and> heap_inv h' \<and> handed_out h s b h') \<or>
      malloc s h = Ok (0, h) \<and> no_room (kernel_pool (pg h)) (pages_for h s)) \<and>
    (\<forall>b. live h b \<longrightarrow> (\<exists>h'. free b h = Ok h' \<and> heap_inv h' \<and> given_back h b h'))"
proof (intro conjI allI impI)
  fix p assume "palloc_inv p"
  then show "\<exists>h0. malloc_init p = Ok h0 \<and> heap_inv h0 \<and> (\<forall>c. \<not> live h0 c)"
    using malloc_init_boot boot_heap_inv by blast
next
  fix b c assume "live h b" "live h c" "b \<noteq> c"
  then show "region h b \<inter> region h c = {}" using live_regions assms by (simp add: heap_inv_def)
next
  fix s :: u32 assume "s \<noteq> 0" "unat s + 4107 < 2 ^ 32"
  then show "(\<exists>b h'. malloc s h = Ok (b, h') \<and> heap_inv h' \<and> handed_out h s b h') \<or>
      malloc s h = Ok (0, h) \<and> no_room (kernel_pool (pg h)) (pages_for h s)"
    by (intro malloc_ok [OF assms])
next
  fix b assume "live h b"
  then show "\<exists>h'. free b h = Ok h' \<and> heap_inv h' \<and> given_back h b h'" by (rule free_ok [OF assms])
qed

lemma small_room: "\<not> no_room (kernel_pool small_pages) 1"
proof -
  have "{0xC0103..<0xC0103 + unat (1 :: u32)} = {0xC0103}" by auto
  moreover have "0xC0103 \<in> pool_pages (kernel_pool small_pages)"
    by (simp add: small_pages_def pool_pages_def first_page_def)
  moreover have "0xC0103 \<notin> pool_used (kernel_pool small_pages)"
    by (auto simp: small_pages_def pool_used_def first_page_def used_bits_def nth_bits_of bit_at_def bit_simps)
  ultimately show ?thesis unfolding no_room_def by (metis Int_insert_left_if0 Int_empty_left bot.extremum insert_subset)
qed

theorem malloc_free_safe_witness:
  "\<exists>b h'. malloc 100 (boot_heap small_pages) = Ok (b, h') \<and> heap_inv h' \<and> live h' b \<and> 100 \<le> blen h' b"
proof -
  note i = boot_heap_inv [OF small_pages_inv, THEN conjunct1]
  have "find_desc boot_descs 100 \<noteq> length boot_descs" by code_simp
  then have n: "pages_for (boot_heap small_pages) 100 = 1" by (simp add: pages_for_def boot_heap_def)
  have k: "kernel_pool (pg (boot_heap small_pages)) = kernel_pool small_pages" by (simp add: boot_heap_def)
  from malloc_free_safe [OF i, THEN conjunct2, THEN conjunct2, THEN conjunct1, rule_format, of 100]
  show ?thesis using small_room unfolding n k handed_out_def by auto
qed

text \<open>
  C39: \<open>calloc\<close> returns a new block whose bytes are all zero and changes no other block, and \<open>realloc\<close> returns
  a new block that starts with the bytes of the old one, as many as fit, gives the old block back and changes no
  other block; when memory is short both return null and nothing changes, the old block included.
\<close>

theorem calloc_realloc_contents:
  assumes "heap_inv h" "a \<noteq> 0" "b \<noteq> 0" "unat a * unat b + 4107 < 2 ^ 32"
    "live h old" "new_size \<noteq> 0" "unat new_size + 4107 < 2 ^ 32"
  shows "((\<exists>p h'. calloc a b h = Ok (p, h') \<and> heap_inv h' \<and> p \<noteq> 0 \<and> \<not> live h p \<and> (\<forall>c. live h' c \<longleftrightarrow> live h c \<or> c = p) \<and>
      unat a * unat b \<le> unat (blen h' p) \<and> (\<forall>i. unat i < unat a * unat b \<longrightarrow> mem (pg h') (p + i) = 0) \<and>
      (\<forall>c y. live h c \<longrightarrow> unat y \<in> region h c \<longrightarrow> mem (pg h') y = mem (pg h) y)) \<or>
    calloc a b h = Ok (0, h) \<and> no_room (kernel_pool (pg h)) (pages_for h (a * b))) \<and>
    ((\<exists>b h'. realloc old new_size h = Ok (b, h') \<and> heap_inv h' \<and> b \<noteq> 0 \<and> \<not> live h b \<and>
      (\<forall>c. live h' c \<longleftrightarrow> (live h c \<or> c = b) \<and> c \<noteq> old) \<and> new_size \<le> blen h' b \<and>
      (\<forall>i. i < new_size \<longrightarrow> i < blen h old \<longrightarrow> mem (pg h') (b + i) = mem (pg h) (old + i)) \<and>
      (\<forall>c y. live h c \<longrightarrow> c \<noteq> old \<longrightarrow> unat y \<in> region h c \<longrightarrow> mem (pg h') y = mem (pg h) y)) \<or>
    realloc old new_size h = Ok (0, h) \<and> no_room (kernel_pool (pg h)) (pages_for h new_size))"
  by (rule conjI [OF calloc_ok [OF assms(1-4)] realloc_ok [OF assms(1,5-7)]])

theorem calloc_realloc_contents_witness:
  "\<exists>h old. heap_inv h \<and> live h old \<and> (\<exists>p h'. calloc 3 5 h = Ok (p, h') \<and> heap_inv h') \<and>
    (\<exists>b h'. realloc old 200 h = Ok (b, h') \<and> heap_inv h')"
proof -
  note i = boot_heap_inv [OF small_pages_inv, THEN conjunct1]
  have "find_desc boot_descs 100 \<noteq> length boot_descs" by code_simp
  then have n: "pages_for (boot_heap small_pages) 100 = 1" by (simp add: pages_for_def boot_heap_def)
  have k: "kernel_pool (pg (boot_heap small_pages)) = kernel_pool small_pages" by (simp add: boot_heap_def)
  obtain old h where h: "heap_inv h" "live h old"
    using malloc_ok [OF i, of 100] small_room unfolding n k handed_out_def by auto
  from calloc_realloc_contents [OF h(1) _ _ _ h(2), of 3 5 200] have
    "\<exists>p h'. calloc 3 5 h = Ok (p, h') \<and> heap_inv h'" "\<exists>b h'. realloc old 200 h = Ok (b, h') \<and> heap_inv h'"
    using h(1) by auto
  with h show ?thesis by blast
qed

text \<open>
  C40: Sizes wrap.  A request within 12 bytes of \<open>2 ^ 32\<close> gets a block of 4084 bytes, because the size of the
  header is added modulo \<open>2 ^ 32\<close>; and the overflow check of \<open>calloc\<close>, which compares the product with its
  factors, accepts \<open>0x10001\<close> elements of \<open>0x10001\<close> bytes, more than 4 GB, and allocates \<open>0x20001\<close> bytes.
\<close>

theorem allocation_sizes_wrap:
  assumes "heap_inv h" "\<forall>x\<in>set (descs h). block_size x < size'" "2 ^ 32 - 12 < unat size'" "\<not> no_room (kernel_pool (pg h)) 1"
  shows "(\<exists>b h'. malloc size' h = Ok (b, h') \<and> live h' b \<and> unat (blen h' b) = 4084) \<and>
    calloc 0x10001 0x10001 h = calloc 0x20001 1 h"
proof -
  have "(0x10001 :: u32) * 0x10001 = 0x20001" by simp
  then have "calloc 0x10001 0x10001 h = calloc 0x20001 1 h" by (simp only: calloc_def) simp
  with malloc_huge [OF assms] show ?thesis by blast
qed

theorem allocation_sizes_wrap_witness:
  "\<exists>b h'. malloc 0xFFFFFFFF (boot_heap small_pages) = Ok (b, h') \<and> unat (blen h' b) = 4084"
proof -
  note i = boot_heap_inv [OF small_pages_inv, THEN conjunct1]
  have "list_all (\<lambda>x. block_size x < 0xFFFFFFFF) boot_descs" by code_simp
  then have s: "\<forall>x\<in>set (descs (boot_heap small_pages)). block_size x < 0xFFFFFFFF" by (simp add: boot_heap_def list_all_iff)
  have r: "\<not> no_room (kernel_pool (pg (boot_heap small_pages))) 1" using small_room by (simp add: boot_heap_def)
  from allocation_sizes_wrap [OF i s _ r] show ?thesis by auto
qed

end
