(* ===== verification/Spec2Isabelle.thy ===== *)
theory Spec2Isabelle
  imports KQueue Intq Filesys KListSort SynchInv Timer Hash MallocSpec
begin

text \<open>
  A verification library for a Pintos-derived Unix kernel and its C library.

  \<^item> \<open>Prelude\<close>: results of kernel routines, rings, words.
  \<^item> \<open>Fifo\<close>, \<open>WordRing\<close>: the bounded-queue contract and the shared ring buffer.
  \<^item> \<open>KQueue\<close>, \<open>Pipe\<close>, \<open>Intq\<close>: the three queues of the kernel.
\<close>

end
